(* ===== verification/Prelude.thy ===== *)
theory Prelude
  imports Main "HOL-Library.Word"
begin

text \<open>
  The prelude of the mpio development: the machine types of the LP64 targets the library is
  built for, the error values of the C library and of the C++ runtime, the outcome of a
  statement that may return, throw or have no defined behaviour, byte-level access to memory
  blocks, and the size-doubling loop that the three growing buffers of the library share.
\<close>

section \<open>Machine types\<close>

type_synonym byte = "8 word"
type_synonym u32 = "32 word"
type_synonym u64 = "64 word"
type_synonym size_t = "64 word"
type_synonym mem = "byte list"

named_theorems size_simps
  \<open>facts that move size arithmetic from words to natural numbers\<close>
named_theorems mem_simps
  \<open>facts about reading and writing memory blocks\<close>

lemma unat_lt_64 [simp]: "unat (x :: u64) < 18446744073709551616"
  using unsigned_less [of x, where ?'a = nat] by simp

lemma unat_lt_32 [simp]: "unat (x :: u32) < 4294967296"
  using unsigned_less [of x, where ?'a = nat] by simp

lemma unat_lt_8 [simp]: "unat (x :: byte) < 256"
  using unsigned_less [of x, where ?'a = nat] by simp

lemma unat_add_exact [size_simps]:
  "unat x + unat y < 18446744073709551616 \<Longrightarrow> unat (x + y :: u64) = unat x + unat y"
  by (simp add: unat_word_ariths)

lemma unat_sub_exact [size_simps]:
  "unat y \<le> unat x \<Longrightarrow> unat (x - y :: u64) = unat x - unat y"
  by (simp add: unat_sub word_le_nat_alt)

lemma unat_double_exact [size_simps]:
  "unat x < 9223372036854775808 \<Longrightarrow> unat (x * 2 :: u64) = unat x * 2"
  by (simp add: unat_word_ariths)

lemma unat_of_nat_64 [size_simps]:
  "n < 18446744073709551616 \<Longrightarrow> unat (of_nat n :: u64) = n"
  by (simp add: unat_of_nat)

lemma unat_max_64 [size_simps]: "unat (max x y :: u64) = max (unat x) (unat y)"
  by (simp add: max_def word_le_nat_alt)

lemma of_nat_unat_add: "of_nat (unat x + n) = (x :: u64) + of_nat n"
  by simp

section \<open>Errors and outcomes\<close>

text \<open>The error numbers the code tests for by name, and all others.\<close>

datatype errno =
    EAGAIN | EINTR | EPIPE | EINPROGRESS | ETIMEDOUT | EMFILE | EEXIST | ENOENT
  | EDEADLK | EBUSY | EINVAL | EBADF | Errno nat

text \<open>Exceptions the code throws, and the undefined behaviours a C++ program may run into.\<close>

datatype exn = Bad_alloc | System_error errno | Pthread_error int | Logic_error | Runtime_error

datatype fault = Null_deref | Use_after_free | Out_of_bounds | Uninitialised | No_return | Undefined_call

datatype ('a, 's) outcome = Ret 'a 's | Exn exn 's | Fault fault

fun bind_outcome :: "('a, 's) outcome \<Rightarrow> ('a \<Rightarrow> 's \<Rightarrow> ('b, 's) outcome) \<Rightarrow> ('b, 's) outcome" where
  "bind_outcome (Ret a s) f = f a s"
| "bind_outcome (Exn e s) f = Exn e s"
| "bind_outcome (Fault x) f = Fault x"

lemma bind_outcome_Ret_iff:
  "bind_outcome m f = Ret b t \<longleftrightarrow> (\<exists>a s. m = Ret a s \<and> f a s = Ret b t)"
  by (cases m) auto

text \<open>A statement of a method that only changes the heap: the object \<open>x\<close> is carried along.\<close>

fun with_obj :: "'x \<Rightarrow> ('a, 's) outcome \<Rightarrow> ('a, 'x \<times> 's) outcome" where
  "with_obj x (Ret a s) = Ret a (x, s)"
| "with_obj x (Exn e s) = Exn e (x, s)"
| "with_obj x (Fault f) = Fault f"

section \<open>Bytes of a memory block\<close>

text \<open>
  A block of memory is the list of its bytes. \<open>chunk p n b\<close> are the \<open>n\<close> bytes at offset
  \<open>p\<close>, \<open>patch p new b\<close> stores \<open>new\<close> there. Integers are stored in little-endian order.
\<close>

definition chunk :: "nat \<Rightarrow> nat \<Rightarrow> 'a list \<Rightarrow> 'a list" where
  "chunk p n b = take n (drop p b)"

definition patch :: "nat \<Rightarrow> 'a list \<Rightarrow> 'a list \<Rightarrow> 'a list" where
  "patch p new b = take p b @ new @ drop (p + length new) b"

fun le_dec :: "byte list \<Rightarrow> nat" where
  "le_dec [] = 0"
| "le_dec (b # bs) = unat b + 256 * le_dec bs"

fun le_enc :: "nat \<Rightarrow> nat \<Rightarrow> byte list" where
  "le_enc 0 x = []"
| "le_enc (Suc n) x = of_nat (x mod 256) # le_enc n (x div 256)"

definition get_u32 :: "mem \<Rightarrow> nat \<Rightarrow> u32" where
  "get_u32 b p = of_nat (le_dec (chunk p 4 b))"

definition get_u64 :: "mem \<Rightarrow> nat \<Rightarrow> u64" where
  "get_u64 b p = of_nat (le_dec (chunk p 8 b))"

definition enc_u32 :: "u32 \<Rightarrow> mem" where
  "enc_u32 x = le_enc 4 (unat x)"

definition enc_u64 :: "u64 \<Rightarrow> mem" where
  "enc_u64 x = le_enc 8 (unat x)"

lemma le_enc_numeral:
  "le_enc (numeral k) x = of_nat (x mod 256) # le_enc (pred_numeral k) (x div 256)"
  by (metis le_enc.simps(2) numeral_eq_Suc)

lemma length_le_enc [simp]: "length (le_enc n x) = n"
  by (induction n arbitrary: x) auto

lemma length_enc [simp]: "length (enc_u32 x) = 4" "length (enc_u64 y) = 8"
  by (simp_all add: enc_u32_def enc_u64_def)

lemma unat_of_nat_byte [simp]: "unat (of_nat x :: byte) = x mod 256"
  by (simp add: unat_of_nat)

lemma le_dec_enc: "le_dec (le_enc n x) = x mod 256 ^ n"
proof (induction n arbitrary: x)
  case (Suc n)
  have "le_dec (le_enc (Suc n) x) = x mod 256 + 256 * (x div 256 mod 256 ^ n)"
    by (simp add: Suc)
  also have "\<dots> = x mod 256 ^ Suc n"
    by (simp add: mod_mult2_eq)
  finally show ?case .
qed simp

lemma le_dec_enc_u32 [simp]: "of_nat (le_dec (enc_u32 x)) = x"
  by (simp add: enc_u32_def le_dec_enc)

lemma le_dec_enc_u64 [simp]: "of_nat (le_dec (enc_u64 x)) = x"
  by (simp add: enc_u64_def le_dec_enc)

lemma length_chunk [mem_simps]: "p + n \<le> length b \<Longrightarrow> length (chunk p n b) = n"
  by (simp add: chunk_def)

lemma length_patch [mem_simps]:
  "p + length new \<le> length b \<Longrightarrow> length (patch p new b) = length b"
  by (simp add: patch_def)

lemma chunk_patch_same [mem_simps]:
  "p + length new \<le> length b \<Longrightarrow> chunk p (length new) (patch p new b) = new"
  by (simp add: chunk_def patch_def)

lemma nth_patch:
  "p + length new \<le> length b \<Longrightarrow> i < length b \<Longrightarrow>
     patch p new b ! i = (if p \<le> i \<and> i < p + length new then new ! (i - p) else b ! i)"
  by (auto simp: patch_def nth_append)

lemma chunk_patch_other [mem_simps]:
  "p + length new \<le> length b \<Longrightarrow> q + n \<le> length b \<Longrightarrow> q + n \<le> p \<or> p + length new \<le> q \<Longrightarrow>
     chunk q n (patch p new b) = chunk q n b"
  by (rule nth_equalityI) (auto simp: chunk_def length_patch nth_patch)

lemma chunk_append_left [mem_simps]: "p + n \<le> length a \<Longrightarrow> chunk p n (a @ b) = chunk p n a"
  by (simp add: chunk_def)

lemma chunk_append_right [mem_simps]: "chunk (length a + p) n (a @ b) = chunk p n b"
  by (simp add: chunk_def)

lemma chunk_0 [simp]: "chunk p 0 b = []"
  by (simp add: chunk_def)

lemma chunk_chunk: "q + m \<le> n \<Longrightarrow> chunk q m (chunk p n b) = chunk (p + q) m b"
  by (simp add: chunk_def drop_take add.commute min_absorb1)

lemma chunk_add: "chunk p (m + n) b = chunk p m b @ chunk (p + m) n b"
  by (simp add: chunk_def take_add add.commute)

lemma drop_chunk: "drop k (chunk p n b) = chunk (p + k) (n - k) b"
  by (simp add: chunk_def drop_take add.commute)

lemma take_chunk: "k \<le> n \<Longrightarrow> take k (chunk p n b) = chunk p k b"
  by (simp add: chunk_def)

section \<open>The doubling loop\<close>

text \<open>
  \<^verbatim>\<open>while(next_size < req) { next_size *= 2; }\<close> on \<open>size_t\<close>, as \<open>stream_buffer\<close>,
  \<open>shared_buffer\<close> and \<open>xfer\<close> run it before they call the allocator. The product wraps
  around at 64 bits, so the loop may never exit: then its value is \<open>None\<close>.
\<close>

partial_function (option) grow :: "size_t \<Rightarrow> size_t \<Rightarrow> size_t option" where
  "grow next_size req = (if next_size < req then grow (next_size * 2) req else Some next_size)"

declare grow.simps [code]

lemma grow_stop [simp]: "\<not> n < req \<Longrightarrow> grow n req = Some n"
  by (simp add: grow.simps)

lemma grow_go: "n < req \<Longrightarrow> grow n req = grow (n * 2) req"
  by (simp add: grow.simps [of n])

lemma grow_returns:
  assumes "0 < unat n" and "unat req \<le> 9223372036854775808"
  shows "\<exists>m. grow n req = Some m \<and> req \<le> m \<and> n \<le> m \<and> (n < req \<longrightarrow> unat m < 2 * unat req)"
  using assms(1)
proof (induction "unat req - unat n" arbitrary: n rule: less_induct)
  case less
  show ?case
  proof (cases "n < req")
    case True
    then have lt: "unat n < unat req" by (simp add: word_less_nat_alt)
    with assms(2) have d: "unat (n * 2) = unat n * 2" by (simp add: size_simps)
    with lt less.prems have "unat req - unat (n * 2) < unat req - unat n" "0 < unat (n * 2)"
      by simp_all
    from less.hyps [OF this] obtain m where m: "grow (n * 2) req = Some m" "req \<le> m" "n * 2 \<le> m"
      "n * 2 < req \<longrightarrow> unat m < 2 * unat req" by blast
    have "unat m < 2 * unat req"
    proof (cases "n * 2 < req")
      case False
      then have "m = n * 2" using m(1) by simp
      then show ?thesis using d lt by simp
    qed (use m in simp)
    moreover have "n \<le> m" using m(3) d by (simp add: word_le_nat_alt)
    ultimately show ?thesis using True m by (simp add: grow_go)
  qed auto
qed

lemma power_two_wraps: "(2 :: u64) ^ k * 2 = 2 ^ Suc k"
  by simp

lemma unat_power_two_le: "unat ((2 :: u64) ^ j) \<le> 9223372036854775808"
proof (cases "j < 64")
  case True
  then have le: "(2 :: nat) ^ j \<le> 2 ^ 63" by (intro power_increasing) auto
  moreover from le have "unat (of_nat (2 ^ j) :: u64) = 2 ^ j"
    by (intro unat_of_nat_64) simp
  ultimately show ?thesis by simp
next
  case False
  then have "(2 :: u64) ^ j = 0" by simp
  then show ?thesis by (simp only: unat_0)
qed

lemma grow_power_two_returns:
  assumes ret: "grow n req = Some r"
  shows "(\<exists>k. n = 2 ^ k) \<longrightarrow> unat req \<le> 9223372036854775808"
proof (rule grow.raw_induct
    [where P = "\<lambda>n q r. (\<exists>k. n = 2 ^ k) \<longrightarrow> unat q \<le> 9223372036854775808", OF _ ret], intro impI)
  fix f :: "size_t \<Rightarrow> size_t \<Rightarrow> size_t option" and n q r :: size_t
  assume IH: "\<And>n q r. f n q = Some r \<Longrightarrow> (\<exists>k. n = 2 ^ k) \<longrightarrow> unat q \<le> 9223372036854775808"
    and eq: "(if n < q then f (n * 2) q else Some n) = Some r" and n: "\<exists>k. n = 2 ^ k"
  from n obtain j where j: "n = 2 ^ j" by auto
  show "unat q \<le> 9223372036854775808"
  proof (cases "n < q")
    case True
    with eq have "f (n * 2) q = Some r" by simp
    moreover have "\<exists>k. n * 2 = 2 ^ k" using j power_two_wraps by metis
    ultimately show ?thesis using IH by blast
  next
    case False
    then show ?thesis using unat_power_two_le [of j] j by (simp add: word_less_nat_alt)
  qed
qed

lemma grow_diverges: "9223372036854775808 < unat req \<Longrightarrow> grow (2 ^ k) req = None"
  using grow_power_two_returns [of "2 ^ k" req] by (cases "grow (2 ^ k) req") auto

end
