(* ===== verification/Counted_Heap.thy ===== *)
theory Counted_Heap
  imports Prelude "HOL-Library.Multiset"
begin

text \<open>
  The C heap as the buffers of the library see it, and the reference counter that they keep in
  the first four bytes of every block. A block is the list of its bytes; the allocator may
  refuse any request (\<open>grants\<close>), refuses every request above the 2 to the power 57 bytes that a
  process of a 64-bit target can address (far below \<open>PTRDIFF_MAX\<close>), hands out memory
  with arbitrary contents (\<open>garbage\<close>) and never reuses an address, so that an access through a
  stale pointer is visible as \<open>Use_after_free\<close>. The locale \<open>refcount\<close> is the interface between
  the counting functions and the buffers; \<open>counted h R\<close> says that \<open>R\<close> is the multiset of all
  owners, that exactly the owned blocks are allocated and that each counter is the number of
  its owners.
\<close>

section \<open>The allocator\<close>

record heap =
  blocks :: "nat \<rightharpoonup> mem"
  calls :: nat
  grants :: "nat \<Rightarrow> size_t \<Rightarrow> bool"
  garbage :: "nat \<Rightarrow> nat \<Rightarrow> byte"

definition alloc_ok :: "heap \<Rightarrow> size_t \<Rightarrow> bool" where
  "alloc_ok h n \<longleftrightarrow> grants h (calls h) n \<and> unat n \<le> 144115188075855872"

definition fresh_bytes :: "heap \<Rightarrow> nat \<Rightarrow> nat \<Rightarrow> mem" where
  "fresh_bytes h i n = map (garbage h (calls h)) [i..<n]"

definition malloc :: "size_t \<Rightarrow> heap \<Rightarrow> nat option \<times> heap" where
  "malloc n h =
     (if alloc_ok h n
      then (Some (calls h), h\<lparr>blocks := (blocks h)(calls h \<mapsto> fresh_bytes h 0 (unat n)), calls := Suc (calls h)\<rparr>)
      else (None, h\<lparr>calls := Suc (calls h)\<rparr>))"

text \<open>
  \<open>realloc\<close> always moves the block: the old address is dead afterwards, as it may be in C.
  When it fails the old block stays.
\<close>

definition realloc :: "nat \<Rightarrow> size_t \<Rightarrow> heap \<Rightarrow> (nat option, heap) outcome" where
  "realloc a n h =
     (case blocks h a of
        None \<Rightarrow> Fault Use_after_free
      | Some b \<Rightarrow>
          if alloc_ok h n
          then Ret (Some (calls h))
            (h\<lparr>blocks := (blocks h)(a := None, calls h \<mapsto> take (unat n) b @ fresh_bytes h (length b) (unat n)),
               calls := Suc (calls h)\<rparr>)
          else Ret None (h\<lparr>calls := Suc (calls h)\<rparr>))"

definition free :: "nat \<Rightarrow> heap \<Rightarrow> (unit, heap) outcome" where
  "free a h =
     (case blocks h a of None \<Rightarrow> Fault Use_after_free | Some b \<Rightarrow> Ret () (h\<lparr>blocks := (blocks h)(a := None)\<rparr>))"

section \<open>The counter in the block header\<close>

definition load_count :: "nat \<Rightarrow> heap \<Rightarrow> (u32, heap) outcome" where
  "load_count d h =
     (case blocks h d of
        None \<Rightarrow> Fault Use_after_free
      | Some b \<Rightarrow> if length b < 4 then Fault Out_of_bounds else Ret (get_u32 b 0) h)"

definition store_count :: "nat \<Rightarrow> u32 \<Rightarrow> heap \<Rightarrow> (unit, heap) outcome" where
  "store_count d v h =
     (case blocks h d of
        None \<Rightarrow> Fault Use_after_free
      | Some b \<Rightarrow> if length b < 4 then Fault Out_of_bounds
                  else Ret () (h\<lparr>blocks := (blocks h)(d \<mapsto> patch 0 (enc_u32 v) b)\<rparr>))"

definition init_count :: "nat \<Rightarrow> heap \<Rightarrow> (unit, heap) outcome" where
  "init_count d h = store_count d 1 h"

definition decr_count :: "nat \<Rightarrow> heap \<Rightarrow> (unit, heap) outcome" where
  "decr_count d h =
     bind_outcome (load_count d h) (\<lambda>c h.
     bind_outcome (store_count d (c - 1) h) (\<lambda>_ h.
     if c - 1 = 0 then free d h else Ret () h))"

definition incr_count :: "nat \<Rightarrow> heap \<Rightarrow> (unit, heap) outcome" where
  "incr_count d h =
     bind_outcome (load_count d h) (\<lambda>c h. store_count d (c + 1) h)"

definition get_count :: "nat \<Rightarrow> heap \<Rightarrow> (u32, heap) outcome" where
  "get_count d h = load_count d h"

section \<open>Owners\<close>

definition block_counted :: "heap \<Rightarrow> nat multiset \<Rightarrow> nat \<Rightarrow> bool" where
  "block_counted h R a \<longleftrightarrow>
     (case blocks h a of
        None \<Rightarrow> a \<notin># R
      | Some b \<Rightarrow> a \<in># R \<and> a < calls h \<and> 4 \<le> length b \<and> length b \<le> 144115188075855872 \<and>
                  unat (get_u32 b 0) = count R a)"

definition counted :: "heap \<Rightarrow> nat multiset \<Rightarrow> bool" where
  "counted h R \<longleftrightarrow> (\<forall>a. block_counted h R a)"

definition payload :: "heap \<Rightarrow> nat \<Rightarrow> mem option" where
  "payload h a = map_option (drop 4) (blocks h a)"

text \<open>The part of the allocator's behaviour no operation changes.\<close>

definition same_allocator :: "heap \<Rightarrow> heap \<Rightarrow> bool" where
  "same_allocator h h' \<longleftrightarrow> grants h' = grants h \<and> garbage h' = garbage h \<and> calls h \<le> calls h'"

lemma counted_block:
  assumes "counted h R" and "a \<in># R"
  obtains b where "blocks h a = Some b" and "4 \<le> length b" and "length b \<le> 144115188075855872"
    and "unat (get_u32 b 0) = count R a" and "a < calls h"
proof -
  from assms have "block_counted h R a" by (simp add: counted_def)
  with assms(2) show ?thesis
    by (cases "blocks h a") (auto simp: block_counted_def intro: that)
qed

lemma countedD: "counted h R \<Longrightarrow> block_counted h R a"
  by (simp add: counted_def)

lemma counted_alive: "counted h R \<Longrightarrow> a \<in># R \<Longrightarrow> blocks h a \<noteq> None"
  by (erule counted_block) auto

lemma counted_None: "counted h R \<Longrightarrow> a \<notin># R \<Longrightarrow> blocks h a = None"
  using countedD [of h R a] by (auto simp: block_counted_def split: option.splits)

lemma counted_fresh: "counted h R \<Longrightarrow> calls h \<notin># R \<and> blocks h (calls h) = None"
  using countedD [of h R "calls h"] by (auto simp: block_counted_def split: option.splits)

text \<open>Only the blocks an operation touches have to be looked at again.\<close>

lemma counted_update:
  assumes "counted h R" and "calls h \<le> calls h'"
    and "\<And>x. x \<notin> A \<Longrightarrow> blocks h' x = blocks h x \<and> count R' x = count R x"
    and "\<And>x. x \<in> A \<Longrightarrow> block_counted h' R' x"
  shows "counted h' R'"
proof -
  have "block_counted h' R' x" for x
  proof (cases "x \<in> A")
    case False
    with assms(3) have "blocks h' x = blocks h x" "count R' x = count R x" by auto
    with countedD [OF assms(1), of x] assms(2) show ?thesis
      by (auto simp: block_counted_def not_in_iff count_greater_zero_iff [symmetric]
          simp del: count_greater_zero_iff split: option.splits)
  qed (rule assms(4))
  then show ?thesis by (simp add: counted_def)
qed

lemma get_u32_header [simp]: "4 \<le> length b \<Longrightarrow> get_u32 (patch 0 (enc_u32 v) b) 0 = v"
  using chunk_patch_same [of 0 "enc_u32 v" b] by (simp add: get_u32_def)

lemma drop_header [simp]: "drop 4 (patch 0 (enc_u32 v) b) = drop 4 b"
  by (simp add: patch_def)

lemma length_header [simp]: "4 \<le> length b \<Longrightarrow> length (patch 0 (enc_u32 v) b) = length b"
  by (simp add: length_patch)


lemma incr_count_counted:
  assumes "counted h R" and "a \<in># R" and "count R a < 4294967295"
  shows "\<exists>h'. incr_count a h = Ret () h' \<and> counted h' (add_mset a R) \<and> payload h' = payload h \<and>
           same_allocator h h'"
proof -
  obtain b where b: "blocks h a = Some b" "4 \<le> length b" "unat (get_u32 b 0) = count R a"
    using counted_block [OF assms(1,2)] by metis
  let ?h = "h\<lparr>blocks := (blocks h)(a \<mapsto> patch 0 (enc_u32 (get_u32 b 0 + 1)) b)\<rparr>"
  have "unat (get_u32 b 0 + 1) = count R a + 1"
    using b(3) assms(3) by (simp add: unat_word_ariths)
  then have "counted ?h (add_mset a R)"
    using b countedD [OF assms(1), of a]
    by (intro counted_update [OF assms(1), where A = "{a}"]) (auto simp: block_counted_def)
  moreover have "incr_count a h = Ret () ?h"
    using b by (simp add: incr_count_def load_count_def store_count_def)
  moreover have "payload ?h = payload h"
    using b by (auto simp: payload_def)
  ultimately show ?thesis by (auto simp: same_allocator_def)
qed

lemma decr_count_counted:
  assumes "counted h (add_mset a R)"
  shows "\<exists>h'. decr_count a h = Ret () h' \<and> counted h' R \<and> (\<forall>x \<in># R. payload h' x = payload h x) \<and>
           same_allocator h h'"
proof -
  have "a \<in># add_mset a R" by simp
  then obtain b where b: "blocks h a = Some b" "4 \<le> length b" "unat (get_u32 b 0) = Suc (count R a)"
    using counted_block [OF assms] by (metis count_add_mset)
  let ?c = "get_u32 b 0 - 1"
  let ?h = "h\<lparr>blocks := (blocks h)(a \<mapsto> patch 0 (enc_u32 ?c) b)\<rparr>"
  have "(1 :: u32) \<le> get_u32 b 0" using b(3) by (simp add: word_le_nat_alt)
  then have c: "unat ?c = count R a" using b(3) by (simp add: unat_sub)
  have step: "decr_count a h = (if ?c = 0 then free a ?h else Ret () ?h)"
    using b by (simp add: decr_count_def load_count_def store_count_def)
  show ?thesis
  proof (cases "?c = 0")
    case True
    then have a: "a \<notin># R" using c by (simp add: not_in_iff)
    let ?g = "?h\<lparr>blocks := (blocks ?h)(a := None)\<rparr>"
    have "counted ?g R"
      using a by (intro counted_update [OF assms, where A = "{a}"]) (auto simp: block_counted_def)
    moreover have "\<forall>x \<in># R. payload ?g x = payload h x"
      using a by (auto simp: payload_def)
    moreover have "decr_count a h = Ret () ?g"
      using step True by (simp add: free_def)
    ultimately show ?thesis by (auto simp: same_allocator_def)
  next
    case False
    then have a: "a \<in># R" using c by (metis not_in_iff unat_eq_zero)
    have "counted ?h R"
      using b a c countedD [OF assms, of a]
      by (intro counted_update [OF assms, where A = "{a}"]) (auto simp: block_counted_def)
    moreover have "\<forall>x \<in># R. payload ?h x = payload h x"
      using b by (auto simp: payload_def)
    ultimately show ?thesis using step False by (auto simp: same_allocator_def)
  qed
qed

lemma get_count_counted:
  "counted h R \<Longrightarrow> a \<in># R \<Longrightarrow> \<exists>c. get_count a h = Ret c h \<and> unat c = count R a"
  by (erule counted_block) (auto simp: get_count_def load_count_def)

text \<open>A new block, once its counter is initialised, has exactly one owner.\<close>

lemma malloc_init_counted:
  assumes "counted h R" and "alloc_ok h n" and "4 \<le> unat n"
  shows "\<exists>h' h'' b. malloc n h = (Some (calls h), h') \<and> init_count (calls h) h' = Ret () h'' \<and>
           blocks h'' = (blocks h)(calls h \<mapsto> b) \<and> length b = unat n \<and>
           counted h'' (add_mset (calls h) R) \<and> same_allocator h h''"
proof -
  let ?f = "fresh_bytes h 0 (unat n)"
  let ?h1 = "h\<lparr>blocks := (blocks h)(calls h \<mapsto> ?f), calls := Suc (calls h)\<rparr>"
  let ?b = "patch 0 (enc_u32 1) ?f"
  let ?h2 = "?h1\<lparr>blocks := (blocks ?h1)(calls h \<mapsto> ?b)\<rparr>"
  have len: "length ?f = unat n" by (simp add: fresh_bytes_def)
  have "counted ?h2 (add_mset (calls h) R)"
    using counted_fresh [OF assms(1)] assms(2,3) len
    by (intro counted_update [OF assms(1), where A = "{calls h}"])
       (auto simp: block_counted_def alloc_ok_def not_in_iff)
  moreover have "malloc n h = (Some (calls h), ?h1)"
    using assms(2) by (simp add: malloc_def)
  moreover have "init_count (calls h) ?h1 = Ret () ?h2"
    using assms(3) len by (simp add: init_count_def store_count_def)
  moreover have "blocks ?h2 = (blocks h)(calls h \<mapsto> ?b)" by simp
  moreover have "length ?b = unat n" using assms(3) len by simp
  moreover have "same_allocator h ?h2" by (simp add: same_allocator_def)
  ultimately show ?thesis by blast
qed

lemma counted_calls: "counted h R \<Longrightarrow> counted (h\<lparr>calls := Suc (calls h)\<rparr>) R"
  by (erule counted_update [where A = "{}"]) auto

lemma malloc_refused:
  "counted h R \<Longrightarrow> \<not> alloc_ok h n \<Longrightarrow>
     \<exists>h'. malloc n h = (None, h') \<and> counted h' R \<and> blocks h' = blocks h \<and> same_allocator h h'"
  by (auto simp: malloc_def same_allocator_def counted_calls)

text \<open>
  Reallocating a block with a single owner moves it, keeps its old bytes and its counter, and
  leaves every other block alone.
\<close>

lemma realloc_counted:
  assumes "counted h (add_mset a R)" and "a \<notin># R" and "blocks h a = Some b"
    and "alloc_ok h n" and "length b \<le> unat n"
  shows "\<exists>h' g. realloc a n h = Ret (Some (calls h)) h' \<and> counted h' (add_mset (calls h) R) \<and>
           blocks h' = (blocks h)(a := None, calls h \<mapsto> b @ g) \<and> length (b @ g) = unat n \<and>
           same_allocator h h'"
proof -
  let ?g = "fresh_bytes h (length b) (unat n)"
  let ?h = "h\<lparr>blocks := (blocks h)(a := None, calls h \<mapsto> b @ ?g), calls := Suc (calls h)\<rparr>"
  have "a \<in># add_mset a R" by simp
  then have b: "4 \<le> length b" "unat (get_u32 b 0) = 1" "a < calls h"
    using counted_block [OF assms(1)] assms(2,3) by (metis count_add_mset not_in_iff One_nat_def option.inject)+
  have "get_u32 (b @ ?g) 0 = get_u32 b 0"
    using b(1) by (simp add: get_u32_def chunk_def)
  then have "counted ?h (add_mset (calls h) R)"
    using assms(2,4,5) b counted_fresh [OF assms(1)]
    by (intro counted_update [OF assms(1), where A = "{a, calls h}"])
       (auto simp: block_counted_def alloc_ok_def not_in_iff fresh_bytes_def)
  moreover have "realloc a n h = Ret (Some (calls h)) ?h"
    using assms(3-5) by (simp add: realloc_def)
  moreover have "length (b @ ?g) = unat n"
    using assms(5) by (simp add: fresh_bytes_def)
  moreover have "same_allocator h ?h" by (simp add: same_allocator_def)
  ultimately show ?thesis by auto
qed

lemma realloc_refused:
  "counted h R \<Longrightarrow> a \<in># R \<Longrightarrow> \<not> alloc_ok h n \<Longrightarrow>
     \<exists>h'. realloc a n h = Ret None h' \<and> counted h' R \<and> blocks h' = blocks h \<and> same_allocator h h'"
  by (frule counted_calls, erule counted_block, assumption) (auto simp: realloc_def same_allocator_def)

section \<open>The counting interface\<close>

text \<open>
  \<open>std::for_each\<close> over a vector of block pointers, and \<open>std::vector::push_back\<close>, whose own
  storage may fail to grow.
\<close>

fun for_each :: "('a \<Rightarrow> heap \<Rightarrow> (unit, heap) outcome) \<Rightarrow> 'a list \<Rightarrow> heap \<Rightarrow> (unit, heap) outcome" where
  "for_each f [] h = Ret () h"
| "for_each f (x # xs) h = bind_outcome (f x h) (\<lambda>_ h. for_each f xs h)"

definition push_back :: "nat list \<Rightarrow> nat \<Rightarrow> heap \<Rightarrow> (nat list, heap) outcome" where
  "push_back v d h =
     (let h' = h\<lparr>calls := Suc (calls h)\<rparr>
      in if alloc_ok h (of_nat (8 * Suc (length v))) then Ret (v @ [d]) h' else Exn Bad_alloc h')"

text \<open>
  What a buffer relies on: taking a reference to an owned block adds an owner, dropping one
  removes it, and neither touches the bytes of a block that still has an owner.
\<close>

locale refcount =
  fixes incr :: "nat \<Rightarrow> heap \<Rightarrow> (unit, heap) outcome"
    and decr :: "nat \<Rightarrow> heap \<Rightarrow> (unit, heap) outcome"
  assumes incr_owner: "counted h R \<Longrightarrow> a \<in># R \<Longrightarrow> count R a < 4294967295 \<Longrightarrow>
      \<exists>h'. incr a h = Ret () h' \<and> counted h' (add_mset a R) \<and> payload h' = payload h \<and> same_allocator h h'"
    and decr_owner: "counted h (add_mset a R) \<Longrightarrow>
      \<exists>h'. decr a h = Ret () h' \<and> counted h' R \<and> (\<forall>x \<in># R. payload h' x = payload h x) \<and>
           same_allocator h h'"
begin

lemma release_all:
  "counted h (mset xs + R) \<Longrightarrow>
     \<exists>h'. for_each decr xs h = Ret () h' \<and> counted h' R \<and> (\<forall>x \<in># R. payload h' x = payload h x) \<and>
          same_allocator h h'"
proof (induction xs arbitrary: h)
  case Nil
  then show ?case by (simp add: same_allocator_def)
next
  case (Cons x xs)
  then have "counted h (add_mset x (mset xs + R))" by simp
  from decr_owner [OF this] obtain g where
    g: "decr x h = Ret () g" "counted g (mset xs + R)"
       "\<forall>y \<in># mset xs + R. payload g y = payload h y" "same_allocator h g" by blast
  from Cons.IH [OF g(2)] obtain h' where
    h': "for_each decr xs g = Ret () h'" "counted h' R" "\<forall>y \<in># R. payload h' y = payload g y"
        "same_allocator g h'" by blast
  with g show ?case by (auto simp: same_allocator_def)
qed

lemma acquire_all:
  "counted h R \<Longrightarrow> set_mset (mset xs) \<subseteq> set_mset R \<Longrightarrow> size R + length xs < 4294967296 \<Longrightarrow>
     \<exists>h'. for_each incr xs h = Ret () h' \<and> counted h' (mset xs + R) \<and> payload h' = payload h \<and>
          same_allocator h h'"
proof (induction xs arbitrary: h R)
  case Nil
  then show ?case by (simp add: same_allocator_def)
next
  case (Cons x xs)
  have "count R x < 4294967295" using Cons.prems(3) count_le_size [of R x] by simp
  with Cons.prems obtain g where
    g: "incr x h = Ret () g" "counted g (add_mset x R)" "payload g = payload h" "same_allocator h g"
    using incr_owner [of h R x] by auto
  have "set_mset (mset xs) \<subseteq> set_mset (add_mset x R)" "size (add_mset x R) + length xs < 4294967296"
    using Cons.prems by auto
  from Cons.IH [OF g(2) this] obtain h' where
    "for_each incr xs g = Ret () h'" "counted h' (mset xs + add_mset x R)" "payload h' = payload g"
    "same_allocator g h'" by blast
  with g show ?case by (auto simp: same_allocator_def)
qed

end

end
