(* ===== verification/Stream_Buffer.thy ===== *)
theory Stream_Buffer
  imports Counted_Heap
begin

text \<open>
  \<open>mp::stream_buffer\<close> of \<open>src/mp/stream_buffer.h\<close>: a growing byte buffer whose consumed part may
  still be referenced by \<open>stream_buffer::ref\<close> objects. The record \<open>stream_buffer\<close> has the fields
  of the class; a \<open>ref\<close> is the vector of block addresses it owns; every operation takes the heap
  and the object and returns both. The interpretation \<open>sc\<close> discharges the counting interface for
  the counter functions of the class. \<open>sb_inv\<close> is the class invariant and \<open>stream\<close> the abstract
  value, the unparsed bytes.
\<close>

section \<open>The class\<close>

record stream_buffer =
  m_buffer :: nat
  m_used :: size_t
  m_free :: size_t
  m_off :: size_t
  m_ref :: "nat list"

definition sizeof_count :: size_t where
  "sizeof_count = 4"

interpretation sc: refcount incr_count decr_count
  by unfold_locales (use incr_count_counted decr_count_counted in auto)

definition ref_clear :: "nat list \<Rightarrow> heap \<Rightarrow> (nat list, heap) outcome" where
  "ref_clear r h = bind_outcome (for_each decr_count r h) (\<lambda>_ h. Ret [] h)"

definition ref_push :: "nat list \<Rightarrow> nat \<Rightarrow> heap \<Rightarrow> (nat list, heap) outcome" where
  "ref_push r d h =
     bind_outcome (push_back r d h) (\<lambda>r h.
     bind_outcome (incr_count d h) (\<lambda>_ h. Ret r h))"

definition ref_move :: "nat list \<Rightarrow> nat \<Rightarrow> heap \<Rightarrow> (nat list, heap) outcome" where
  "ref_move r d h = push_back r d h"

text \<open>
  The copy constructor initialises its vector from itself, \<open>m_array(m_array)\<close>, and never looks at
  the object it copies: it reads an object whose lifetime has not begun.
\<close>

definition ref_copy :: "nat list \<Rightarrow> heap \<Rightarrow> (nat list, heap) outcome" where
  "ref_copy other h = Fault Uninitialised"

definition ref_swap :: "nat list \<Rightarrow> nat list \<Rightarrow> nat list \<times> nat list" where
  "ref_swap r x = (x, r)"

definition stream_buffer_new :: "size_t \<Rightarrow> heap \<Rightarrow> (stream_buffer, heap) outcome" where
  "stream_buffer_new initial_buffer_size h =
     (let initsz = max initial_buffer_size sizeof_count in
      case malloc initsz h of
        (None, h) \<Rightarrow> Exn Bad_alloc h
      | (Some a, h) \<Rightarrow>
          bind_outcome (init_count a h) (\<lambda>_ h.
          Ret \<lparr>m_buffer = a, m_used = sizeof_count, m_free = initsz - sizeof_count,
               m_off = sizeof_count, m_ref = []\<rparr> h))"

text \<open>The destructor drops the buffer's own reference, then the member \<open>m_ref\<close> is destroyed.\<close>

definition stream_buffer_delete :: "stream_buffer \<Rightarrow> heap \<Rightarrow> (unit, heap) outcome" where
  "stream_buffer_delete sb h =
     bind_outcome (decr_count (m_buffer sb) h) (\<lambda>_ h.
     bind_outcome (ref_clear (m_ref sb) h) (\<lambda>_ h. Ret () h))"

definition buffer :: "stream_buffer \<Rightarrow> nat \<times> size_t" where
  "buffer sb = (m_buffer sb, m_used sb)"

definition buffer_capacity :: "stream_buffer \<Rightarrow> size_t" where
  "buffer_capacity sb = m_free sb"

definition buffer_filled :: "size_t \<Rightarrow> stream_buffer \<Rightarrow> stream_buffer" where
  "buffer_filled len sb = sb\<lparr>m_used := m_used sb + len, m_free := m_free sb - len\<rparr>"

definition data :: "stream_buffer \<Rightarrow> nat \<times> size_t" where
  "data sb = (m_buffer sb, m_off sb)"

definition data_size :: "stream_buffer \<Rightarrow> size_t" where
  "data_size sb = m_used sb - m_off sb"

definition data_consumed :: "size_t \<Rightarrow> stream_buffer \<Rightarrow> stream_buffer" where
  "data_consumed len sb = sb\<lparr>m_off := m_off sb + len\<rparr>"

definition retain :: "stream_buffer \<Rightarrow> nat list \<times> stream_buffer" where
  "retain sb = (let (r, m) = ref_swap [] (m_ref sb) in (r, sb\<lparr>m_ref := m\<rparr>))"

definition retain_to :: "nat list \<Rightarrow> stream_buffer \<times> heap \<Rightarrow> (nat list, stream_buffer \<times> heap) outcome" where
  "retain_to to s =
     (let (sb, h) = s in
      bind_outcome (with_obj sb (ref_push (m_ref sb) (m_buffer sb) h)) (\<lambda>r (sb, h).
      let (to', r') = ref_swap to r in
      bind_outcome (with_obj sb (ref_clear r' h)) (\<lambda>r'' (sb, h).
      Ret to' (sb\<lparr>m_ref := r''\<rparr>, h))))"

text \<open>\<open>expand_buffer\<close>, the branch that moves the buffer as a whole.\<close>

definition expand_realloc :: "size_t \<Rightarrow> stream_buffer \<times> heap \<Rightarrow> (unit, stream_buffer \<times> heap) outcome" where
  "expand_realloc len s =
     (let (sb, h) = s in
      case grow ((m_used sb + m_free sb) * 2) (len + m_used sb) of
        None \<Rightarrow> Fault No_return
      | Some next_size \<Rightarrow>
          bind_outcome (with_obj sb (realloc (m_buffer sb) next_size h)) (\<lambda>tmp (sb, h).
          case tmp of
            None \<Rightarrow> Exn Bad_alloc (sb, h)
          | Some tmp \<Rightarrow> Ret () (sb\<lparr>m_buffer := tmp, m_free := next_size - m_used sb\<rparr>, h)))"

text \<open>\<open>memcpy(tmp+sizeof(count_t), m_buffer+m_off, not_used)\<close> between two blocks.\<close>

definition copy_block :: "nat \<Rightarrow> nat \<Rightarrow> nat \<Rightarrow> nat \<Rightarrow> nat \<Rightarrow> heap \<Rightarrow> (unit, heap) outcome" where
  "copy_block dst doff src soff n h =
     (case (blocks h dst, blocks h src) of
        (Some d, Some s) \<Rightarrow>
          if doff + n \<le> length d \<and> soff + n \<le> length s
          then Ret () (h\<lparr>blocks := (blocks h)(dst \<mapsto> patch doff (chunk soff n s) d)\<rparr>)
          else Fault Out_of_bounds
      | _ \<Rightarrow> Fault Use_after_free)"

text \<open>\<open>expand_buffer\<close>, the branch that leaves the old block to its references.\<close>

definition expand_copy :: "size_t \<Rightarrow> size_t \<Rightarrow> stream_buffer \<times> heap \<Rightarrow> (unit, stream_buffer \<times> heap) outcome" where
  "expand_copy len initial_buffer_size s =
     (let (sb, h) = s;
          initsz = max initial_buffer_size sizeof_count;
          not_used = m_used sb - m_off sb in
      case grow initsz (len + not_used + sizeof_count) of
        None \<Rightarrow> Fault No_return
      | Some next_size \<Rightarrow>
          (case malloc next_size h of
             (None, h) \<Rightarrow> Exn Bad_alloc (sb, h)
           | (Some tmp, h) \<Rightarrow>
               bind_outcome (with_obj sb (init_count tmp h)) (\<lambda>_ (sb, h).
               case ref_move (m_ref sb) (m_buffer sb) h of
                 Fault f \<Rightarrow> Fault f
               | Exn e h \<Rightarrow> bind_outcome (with_obj sb (free tmp h)) (\<lambda>_ s. Exn e s)
               | Ret r h \<Rightarrow>
                   bind_outcome (with_obj (sb\<lparr>m_ref := r\<rparr>)
                     (copy_block tmp (unat sizeof_count) (m_buffer sb) (unat (m_off sb)) (unat not_used) h))
                   (\<lambda>_ (sb, h).
                   Ret () (sb\<lparr>m_buffer := tmp, m_used := not_used + sizeof_count,
                              m_free := next_size - (not_used + sizeof_count),
                              m_off := sizeof_count\<rparr>, h)))))"

definition expand_buffer :: "size_t \<Rightarrow> size_t \<Rightarrow> stream_buffer \<times> heap \<Rightarrow> (unit, stream_buffer \<times> heap) outcome" where
  "expand_buffer len initial_buffer_size s =
     (let (sb, h) = s in
      if m_off sb = sizeof_count
      then bind_outcome (with_obj sb (get_count (m_buffer sb) h)) (\<lambda>c s.
           if c = 1 then expand_realloc len s else expand_copy len initial_buffer_size s)
      else expand_copy len initial_buffer_size s)"

definition rewind :: "stream_buffer \<Rightarrow> stream_buffer" where
  "rewind sb = sb\<lparr>m_free := m_free sb + (m_used sb - sizeof_count), m_used := sizeof_count,
                  m_off := sizeof_count\<rparr>"

definition reserve_buffer :: "size_t \<Rightarrow> size_t \<Rightarrow> stream_buffer \<times> heap \<Rightarrow> (unit, stream_buffer \<times> heap) outcome" where
  "reserve_buffer len initial_buffer_size s =
     (let (sb, h) = s in
      bind_outcome
        (if m_used sb = m_off sb
         then bind_outcome (with_obj sb (get_count (m_buffer sb) h)) (\<lambda>c (sb, h).
              Ret () (if c = 1 then rewind sb else sb, h))
         else Ret () (sb, h))
        (\<lambda>_ (sb, h). if m_free sb < len then expand_buffer len initial_buffer_size (sb, h)
                     else Ret () (sb, h)))"

text \<open>
  What the owner of the buffer does between \<open>buffer()\<close> and \<open>buffer_filled()\<close>: it stores \<open>bs\<close> at
  the address \<open>buffer()\<close> returns.
\<close>

definition fill :: "mem \<Rightarrow> stream_buffer \<times> heap \<Rightarrow> (unit, stream_buffer \<times> heap) outcome" where
  "fill bs s =
     (let (sb, h) = s; (a, p) = buffer sb in
      case blocks h a of
        None \<Rightarrow> Fault Use_after_free
      | Some b \<Rightarrow>
          if unat p + length bs \<le> length b
          then Ret () (buffer_filled (of_nat (length bs)) sb,
                       h\<lparr>blocks := (blocks h)(a \<mapsto> patch (unat p) bs b)\<rparr>)
          else Fault Out_of_bounds)"

text \<open>The bytes between \<open>data()\<close> and \<open>data() + data_size()\<close>.\<close>

definition stream :: "stream_buffer \<times> heap \<Rightarrow> mem" where
  "stream s =
     (let (sb, h) = s; (a, p) = data sb in
      case blocks h a of None \<Rightarrow> [] | Some b \<Rightarrow> chunk (unat p) (unat (data_size sb)) b)"


section \<open>The class invariant\<close>

text \<open>
  \<open>U\<close> are the blocks held by the \<open>ref\<close> objects of clients. The buffer itself owns its block, and
  each entry of \<open>m_ref\<close> owns one. A state with the invariant has room for the pointers: the used
  and the free part of the block add up to the block.
\<close>

definition owners :: "stream_buffer \<Rightarrow> nat multiset" where
  "owners sb = add_mset (m_buffer sb) (mset (m_ref sb))"

definition sb_layout :: "stream_buffer \<times> heap \<Rightarrow> bool" where
  "sb_layout s \<longleftrightarrow>
     (let (sb, h) = s in
      case blocks h (m_buffer sb) of
        None \<Rightarrow> False
      | Some b \<Rightarrow> unat (m_used sb) + unat (m_free sb) = length b \<and>
                  4 \<le> unat (m_off sb) \<and> m_off sb \<le> m_used sb \<and>
                  length (m_ref sb) < 144115188075855872)"

definition sb_inv :: "nat multiset \<Rightarrow> stream_buffer \<times> heap \<Rightarrow> bool" where
  "sb_inv U s \<longleftrightarrow> counted (snd s) (owners (fst s) + U) \<and> sb_layout s"

text \<open>
  The bytes of a client's block that the client may still look at: everything in a block the
  buffer has left behind, and what lies before \<open>buffer()\<close> in the current block.
\<close>

definition visible :: "stream_buffer \<times> heap \<Rightarrow> nat \<Rightarrow> mem" where
  "visible s a =
     (let (sb, h) = s in
      case payload h a of
        None \<Rightarrow> []
      | Some p \<Rightarrow> if a = m_buffer sb then take (unat (m_used sb) - 4) p else p)"

definition keeps :: "nat multiset \<Rightarrow> stream_buffer \<times> heap \<Rightarrow> stream_buffer \<times> heap \<Rightarrow> bool" where
  "keeps U s s' \<longleftrightarrow> (\<forall>a \<in># U. take (length (visible s a)) (visible s' a) = visible s a)"

lemma sizeof_count_simps [simp]: "unat sizeof_count = 4" "x \<le> sizeof_count \<longleftrightarrow> unat x \<le> 4"
  by (simp_all add: sizeof_count_def word_le_nat_alt)

lemma sb_inv_block:
  assumes "sb_inv U (sb, h)"
  obtains b where "blocks h (m_buffer sb) = Some b" "counted h (owners sb + U)"
    "unat (m_used sb) + unat (m_free sb) = length b" "4 \<le> unat (m_off sb)"
    "unat (m_off sb) \<le> unat (m_used sb)" "length b \<le> 144115188075855872"
    "length (m_ref sb) < 144115188075855872"
proof -
  have c: "counted h (owners sb + U)" using assms by (simp add: sb_inv_def)
  have m: "m_buffer sb \<in># owners sb + U" by (simp add: owners_def)
  from counted_block [OF c m] obtain b where
    b: "blocks h (m_buffer sb) = Some b" "length b \<le> 144115188075855872" by metis
  with assms show ?thesis
    by (auto simp: sb_inv_def sb_layout_def word_le_nat_alt intro: that [OF b(1) c])
qed


lemma stream_alt:
  assumes "blocks h (m_buffer sb) = Some b" and "unat (m_off sb) \<le> unat (m_used sb)"
  shows "stream (sb, h) = chunk (unat (m_off sb)) (unat (m_used sb) - unat (m_off sb)) b"
  using assms by (simp add: stream_def data_def data_size_def size_simps)

lemma stream_payload:
  assumes "sb_inv U (sb, h)" and "payload h' (m_buffer sb) = payload h (m_buffer sb)"
  shows "stream (sb, h') = stream (sb, h)"
proof -
  obtain b where b: "blocks h (m_buffer sb) = Some b" "4 \<le> unat (m_off sb)"
    "unat (m_off sb) \<le> unat (m_used sb)"
    using assms(1) by (rule sb_inv_block)
  then obtain b' where b': "blocks h' (m_buffer sb) = Some b'" "drop 4 b' = drop 4 b"
    using assms(2) by (auto simp: payload_def)
  have "drop (unat (m_off sb)) b' = drop (unat (m_off sb)) b"
    using b(2) b'(2) by (metis drop_drop le_add_diff_inverse2)
  then show ?thesis using b b' by (simp add: stream_alt chunk_def)
qed

section \<open>Operations\<close>

lemma stream_buffer_new_returns:
  assumes "counted h U" and "alloc_ok h (max n sizeof_count)"
  shows "\<exists>sb h'. stream_buffer_new n h = Ret sb h' \<and> sb_inv U (sb, h') \<and> stream (sb, h') = [] \<and>
           unat (buffer_capacity sb) = max (unat n) 4 - 4"
proof -
  have n: "4 \<le> unat (max n sizeof_count)" by (simp add: size_simps)
  from malloc_init_counted [OF assms n] obtain h1 h2 b where
    h: "malloc (max n sizeof_count) h = (Some (calls h), h1)" "init_count (calls h) h1 = Ret () h2"
       "blocks h2 = (blocks h)(calls h \<mapsto> b)" "length b = unat (max n sizeof_count)"
       "counted h2 (add_mset (calls h) U)" by blast
  have f: "unat (max n sizeof_count - sizeof_count) = max (unat n) 4 - 4"
    by (simp add: size_simps)
  let ?sb = "\<lparr>m_buffer = calls h, m_used = sizeof_count, m_free = max n sizeof_count - sizeof_count,
              m_off = sizeof_count, m_ref = []\<rparr>"
  have "stream_buffer_new n h = Ret ?sb h2" using h by (simp add: stream_buffer_new_def Let_def)
  moreover have "sb_inv U (?sb, h2)"
    using h f by (simp add: sb_inv_def sb_layout_def owners_def size_simps)
  moreover have "stream (?sb, h2) = []"
    using h by (simp add: stream_def data_def data_size_def)
  moreover have "unat (buffer_capacity ?sb) = max (unat n) 4 - 4"
    using f by (simp add: buffer_capacity_def)
  ultimately show ?thesis by blast
qed

lemma keeps_refl [simp]: "keeps U s s"
  by (simp add: keeps_def)

lemma visible_other:
  "a \<noteq> m_buffer sb \<Longrightarrow> visible (sb, h) a = (case payload h a of None \<Rightarrow> [] | Some p \<Rightarrow> p)"
  by (simp add: visible_def split: option.split)

lemma visible_current:
  "blocks h (m_buffer sb) = Some b \<Longrightarrow>
     visible (sb, h) (m_buffer sb) = take (unat (m_used sb) - 4) (drop 4 b)"
  by (simp add: visible_def payload_def)

lemma keepsI:
  assumes "\<And>a. a \<in># U \<Longrightarrow> a \<noteq> m_buffer sb \<Longrightarrow> payload h' a = payload h a \<and> a \<noteq> m_buffer sb'"
    and "m_buffer sb \<in># U \<Longrightarrow>
      take (length (visible (sb, h) (m_buffer sb))) (visible (sb', h') (m_buffer sb)) = visible (sb, h) (m_buffer sb)"
  shows "keeps U (sb, h) (sb', h')"
  unfolding keeps_def
proof
  fix a assume a: "a \<in># U"
  show "take (length (visible (sb, h) a)) (visible (sb', h') a) = visible (sb, h) a"
    using assms a by (cases "a = m_buffer sb") (auto simp: visible_other split: option.split)
qed

lemma fill_returns:
  assumes inv: "sb_inv U (sb, h)" and len: "length bs \<le> unat (buffer_capacity sb)"
  shows "\<exists>s'. fill bs (sb, h) = Ret () s' \<and> sb_inv U s' \<and> stream s' = stream (sb, h) @ bs \<and>
           keeps U (sb, h) s' \<and> unat (buffer_capacity (fst s')) = unat (buffer_capacity sb) - length bs"
proof -
  obtain b where b: "blocks h (m_buffer sb) = Some b" "counted h (owners sb + U)"
    "unat (m_used sb) + unat (m_free sb) = length b" "4 \<le> unat (m_off sb)"
    "unat (m_off sb) \<le> unat (m_used sb)" "length b \<le> 144115188075855872"
    "length (m_ref sb) < 144115188075855872"
    using inv by (rule sb_inv_block)
  let ?b = "patch (unat (m_used sb)) bs b"
  let ?h = "h\<lparr>blocks := (blocks h)(m_buffer sb \<mapsto> ?b)\<rparr>"
  let ?sb = "buffer_filled (of_nat (length bs)) sb"
  have fit: "unat (m_used sb) + length bs \<le> length b" using len b(3) by (simp add: buffer_capacity_def)
  have n: "unat (of_nat (length bs) :: size_t) = length bs" using fit b(6) by (simp add: size_simps)
  have used: "unat (m_used ?sb) = unat (m_used sb) + length bs"
    using fit b(6) n by (simp add: buffer_filled_def size_simps)
  have free: "unat (m_free ?sb) = unat (m_free sb) - length bs"
    using len n by (simp add: buffer_filled_def buffer_capacity_def size_simps)
  have same: "m_buffer ?sb = m_buffer sb" "m_off ?sb = m_off sb" "owners ?sb = owners sb" "m_ref ?sb = m_ref sb"
    by (simp_all add: buffer_filled_def owners_def)
  have hd4: "get_u32 ?b 0 = get_u32 b 0"
    using fit b(4,5) by (simp add: get_u32_def chunk_patch_other)
  have lb: "length ?b = length b" using fit by (rule length_patch)
  have "counted ?h (owners sb + U)"
    using countedD [OF b(2), of "m_buffer sb"] b(1) hd4 lb
    by (intro counted_update [OF b(2), where A = "{m_buffer sb}"]) (auto simp: block_counted_def)
  moreover have "sb_layout (?sb, ?h)"
    using b(3-7) used free len lb same by (simp add: sb_layout_def word_le_nat_alt buffer_capacity_def)
  ultimately have "sb_inv U (?sb, ?h)" using same by (simp add: sb_inv_def)
  moreover have "stream (?sb, ?h) = stream (sb, h) @ bs"
  proof -
    have "stream (?sb, ?h) = chunk (unat (m_off sb)) (unat (m_used sb) - unat (m_off sb) + length bs) ?b"
      using b(5) used same by (subst stream_alt [where b = ?b]) auto
    also have "\<dots> = chunk (unat (m_off sb)) (unat (m_used sb) - unat (m_off sb)) b @ bs"
      using chunk_add [of "unat (m_off sb)" "unat (m_used sb) - unat (m_off sb)" "length bs" ?b]
        fit b(5) chunk_patch_same [OF fit]
      by (simp add: chunk_patch_other del: Nat.add_diff_assoc2)
    finally show ?thesis using b(1,5) by (simp add: stream_alt)
  qed
  moreover have "fill bs (sb, h) = Ret () (?sb, ?h)"
    using b(1) fit by (simp add: fill_def buffer_def)
  moreover have "keeps U (sb, h) (?sb, ?h)"
  proof (rule keepsI)
    have "visible (?sb, ?h) (m_buffer sb) = take (unat (m_used sb) + length bs - 4) (drop 4 ?b)"
      using used same by (subst same(1) [symmetric], subst visible_current [where b = ?b]) auto
    then show "take (length (visible (sb, h) (m_buffer sb))) (visible (?sb, ?h) (m_buffer sb)) =
        visible (sb, h) (m_buffer sb)"
      using b fit by (simp add: visible_current patch_def drop_take)
  qed (use same in \<open>simp add: payload_def\<close>)
  ultimately show ?thesis using free by (auto simp: buffer_capacity_def)
qed

lemma data_consumed_returns:
  assumes inv: "sb_inv U (sb, h)" and len: "unat n \<le> length (stream (sb, h))"
  shows "sb_inv U (data_consumed n sb, h) \<and> stream (data_consumed n sb, h) = drop (unat n) (stream (sb, h)) \<and>
         keeps U (sb, h) (data_consumed n sb, h)"
proof -
  obtain b where b: "blocks h (m_buffer sb) = Some b" "counted h (owners sb + U)"
    "unat (m_used sb) + unat (m_free sb) = length b" "4 \<le> unat (m_off sb)"
    "unat (m_off sb) \<le> unat (m_used sb)" "length b \<le> 144115188075855872"
    "length (m_ref sb) < 144115188075855872"
    using inv by (rule sb_inv_block)
  have l: "length (stream (sb, h)) = unat (m_used sb) - unat (m_off sb)"
    using b by (simp add: stream_alt length_chunk)
  have off: "unat (m_off (data_consumed n sb)) = unat (m_off sb) + unat n"
    using len l b by (simp add: data_consumed_def size_simps)
  have "sb_inv U (data_consumed n sb, h)"
    using inv off b len l
    by (auto simp: sb_inv_def sb_layout_def owners_def data_consumed_def word_le_nat_alt)
  moreover have "stream (data_consumed n sb, h) = drop (unat n) (stream (sb, h))"
    using b off len l by (simp add: stream_alt [of h _ b] drop_chunk data_consumed_def)
  ultimately show ?thesis
    by (auto simp: keeps_def visible_def data_consumed_def split: option.splits)
qed


section \<open>Growing the buffer\<close>

text \<open>
  Requests up to 2 to the power 60 keep the size arithmetic of \<open>expand_buffer\<close> free of
  wrap-around and its loops terminating. While all sizes stay below 2 to the power 54 the new
  size is one the allocator may grant.
\<close>

definition modest :: "size_t \<Rightarrow> bool" where
  "modest n \<longleftrightarrow> unat n \<le> 1152921504606846976"

definition roomy :: "size_t \<Rightarrow> size_t \<Rightarrow> stream_buffer \<Rightarrow> bool" where
  "roomy len n0 sb \<longleftrightarrow> unat len \<le> 18014398509481984 \<and> unat n0 \<le> 18014398509481984 \<and>
     unat (m_used sb) + unat (m_free sb) \<le> 18014398509481984 \<and> length (m_ref sb) < 18014398509481983"

definition refuses :: "heap \<Rightarrow> bool" where
  "refuses h \<longleftrightarrow> (\<exists>k n. calls h \<le> k \<and> \<not> grants h k n)"

text \<open>
  What growing promises: the data and the clients' blocks are kept whether or not it throws, and
  with room it throws only because the allocator refused.
\<close>

definition grown :: "nat multiset \<Rightarrow> size_t \<Rightarrow> bool \<Rightarrow> stream_buffer \<times> heap \<Rightarrow>
    (unit, stream_buffer \<times> heap) outcome \<Rightarrow> bool" where
  "grown U len room s r \<longleftrightarrow>
     (\<exists>s'. (r = Ret () s' \<and> len \<le> buffer_capacity (fst s') \<or>
            r = Exn Bad_alloc s' \<and> (room \<longrightarrow> refuses (snd s))) \<and>
           sb_inv U s' \<and> stream s' = stream s \<and> keeps U s s' \<and> same_allocator (snd s) (snd s'))"

lemma refusesI: "same_allocator g h \<Longrightarrow> unat n \<le> 144115188075855872 \<Longrightarrow> \<not> alloc_ok h n \<Longrightarrow> refuses g"
  by (auto simp: refuses_def alloc_ok_def same_allocator_def)

lemma same_allocator_refl [simp]: "same_allocator h h"
  by (simp add: same_allocator_def)

lemma same_allocator_trans: "same_allocator h g \<Longrightarrow> same_allocator g k \<Longrightarrow> same_allocator h k"
  by (auto simp: same_allocator_def)

lemma grownI_refused:
  assumes "sb_inv U (sb, h)" and "counted h' (owners sb + U)" and "blocks h' = blocks h" and "room \<Longrightarrow> refuses h"
    and "same_allocator h h'"
  shows "grown U len room (sb, h) (Exn Bad_alloc (sb, h'))"
  using assms
  by (auto simp: grown_def sb_inv_def sb_layout_def stream_def data_def keeps_def visible_def payload_def
      intro!: exI [of _ sb] exI [of _ h'] split: option.splits)

lemma expand_realloc_grown:
  assumes inv: "sb_inv U (sb, h)" and one: "count (owners sb + U) (m_buffer sb) = 1"
    and off: "m_off sb = sizeof_count"
    and sz: "modest len" and room: "room \<Longrightarrow> roomy len n0 sb"
  shows "grown U len room (sb, h) (expand_realloc len (sb, h))"
proof -
  obtain b where b: "blocks h (m_buffer sb) = Some b" "counted h (owners sb + U)"
    "unat (m_used sb) + unat (m_free sb) = length b" "4 \<le> unat (m_off sb)"
    "unat (m_off sb) \<le> unat (m_used sb)" "length b \<le> 144115188075855872"
    "length (m_ref sb) < 144115188075855872"
    using inv by (rule sb_inv_block)
  have req: "unat (len + m_used sb) = unat len + unat (m_used sb)"
    and start: "unat ((m_used sb + m_free sb) * 2) = length b * 2"
    using sz b(3,6) by (simp_all add: modest_def size_simps)
  have "0 < unat ((m_used sb + m_free sb) * 2)" "unat (len + m_used sb) \<le> 9223372036854775808"
    using start req b(3-6) sz by (auto simp: modest_def)
  from grow_returns [OF this] obtain n where
    n: "grow ((m_used sb + m_free sb) * 2) (len + m_used sb) = Some n" "len + m_used sb \<le> n"
       "(m_used sb + m_free sb) * 2 \<le> n"
       "(m_used sb + m_free sb) * 2 < len + m_used sb \<longrightarrow> unat n < 2 * unat (len + m_used sb)" by blast
  have lo: "unat len + unat (m_used sb) \<le> unat n" "length b \<le> unat n"
    using n(2,3) req start by (simp_all add: word_le_nat_alt)
  have hi: "unat n \<le> 144115188075855872" if room
    using n(1,4) req start room [OF that] b(3)
    by (cases "(m_used sb + m_free sb) * 2 < len + m_used sb") (auto simp: roomy_def)
  let ?R = "mset (m_ref sb) + U"
  have R: "owners sb + U = add_mset (m_buffer sb) ?R" by (simp add: owners_def)
  then have notin: "m_buffer sb \<notin># ?R" using one by (simp add: not_in_iff)
  show ?thesis
  proof (cases "alloc_ok h n")
    case True
    from realloc_counted [OF b(2) [unfolded R] notin b(1) True lo(2)] obtain h' g where
      h': "realloc (m_buffer sb) n h = Ret (Some (calls h)) h'" "counted h' (add_mset (calls h) ?R)"
          "blocks h' = (blocks h)(m_buffer sb := None, calls h \<mapsto> b @ g)" "length (b @ g) = unat n"
          "same_allocator h h'"
      by blast
    let ?sb = "sb\<lparr>m_buffer := calls h, m_free := n - m_used sb\<rparr>"
    have free: "unat (n - m_used sb) = unat n - unat (m_used sb)"
      using lo by (simp add: size_simps)
    have "expand_realloc len (sb, h) = Ret () (?sb, h')"
      using n(1) h'(1) by (simp add: expand_realloc_def)
    moreover have "sb_inv U (?sb, h')"
      using h' b free lo by (simp add: sb_inv_def sb_layout_def owners_def word_le_nat_alt)
    moreover have "stream (?sb, h') = stream (sb, h)"
      using h' b by (simp add: stream_alt chunk_append_left)
    moreover have "keeps U (sb, h) (?sb, h')"
      using h'(3) notin counted_fresh [OF b(2)]
      by (intro keepsI) (auto simp: payload_def)
    moreover have "len \<le> buffer_capacity ?sb"
      using free lo by (simp add: buffer_capacity_def word_le_nat_alt)
    ultimately show ?thesis using h'(5) by (auto simp: grown_def)
  next
    case False
    have "m_buffer sb \<in># owners sb + U" by (simp add: owners_def)
    from realloc_refused [OF b(2) this False] obtain h' where
      h': "realloc (m_buffer sb) n h = Ret None h'" "counted h' (owners sb + U)" "blocks h' = blocks h"
          "same_allocator h h'"
      by blast
    then have "expand_realloc len (sb, h) = Exn Bad_alloc (sb, h')"
      using n(1) by (simp add: expand_realloc_def)
    moreover have "refuses h" if room by (rule refusesI [OF _ hi [OF that] False]) simp
    ultimately show ?thesis using h' inv by (simp add: grownI_refused)
  qed
qed


lemma push_back_cases:
  obtains (grows) "alloc_ok h (of_nat (8 * Suc (length v)))"
      "push_back v d h = Ret (v @ [d]) (h\<lparr>calls := Suc (calls h)\<rparr>)"
  | (fails) "\<not> alloc_ok h (of_nat (8 * Suc (length v)))"
      "push_back v d h = Exn Bad_alloc (h\<lparr>calls := Suc (calls h)\<rparr>)"
  by (cases "alloc_ok h (of_nat (8 * Suc (length v)))") (auto simp: push_back_def Let_def)

text \<open>Giving back the block that was allocated before \<open>m_ref.move\<close> threw.\<close>

lemma free_counted:
  assumes "counted h (add_mset a R)" and "a \<notin># R"
  shows "\<exists>h'. free a h = Ret () h' \<and> counted h' R \<and> blocks h' = (blocks h)(a := None) \<and> same_allocator h h'"
proof -
  have "a \<in># add_mset a R" by simp
  then obtain b where b: "blocks h a = Some b" using counted_block [OF assms(1)] by metis
  let ?h = "h\<lparr>blocks := (blocks h)(a := None)\<rparr>"
  have "counted ?h R"
    using assms(2) by (intro counted_update [OF assms(1), where A = "{a}"]) (auto simp: block_counted_def)
  then show ?thesis using b by (simp add: free_def same_allocator_def)
qed

text \<open>The state after the old block has been handed to \<open>m_ref\<close> and its unread bytes copied.\<close>

lemma copied_grown:
  assumes inv: "sb_inv U (sb, h)" and blk: "blocks h (m_buffer sb) = Some b"
    and new: "blocks h' = (blocks h)(a \<mapsto> t)" "counted h' (add_mset a (owners sb + U))" "blocks h a = None"
    and n: "length t = unat n" "unat len + (unat (m_used sb) - unat (m_off sb)) + 4 \<le> unat n"
    and t: "t' = patch 4 (chunk (unat (m_off sb)) (unat (m_used sb) - unat (m_off sb)) b) t"
    and s: "sb' = sb\<lparr>m_ref := m_ref sb @ [m_buffer sb], m_buffer := a, m_used := m_used sb - m_off sb + sizeof_count,
              m_free := n - (m_used sb - m_off sb + sizeof_count), m_off := sizeof_count\<rparr>"
    and g: "g = h'\<lparr>blocks := (blocks h')(a \<mapsto> t')\<rparr>"
    and al: "same_allocator h h'" "length (m_ref sb) + 1 < 144115188075855872"
  shows "grown U len room (sb, h) (Ret () (sb', g))"
proof -
  have b: "unat (m_used sb) + unat (m_free sb) = length b" "4 \<le> unat (m_off sb)"
    "unat (m_off sb) \<le> unat (m_used sb)" "length b \<le> 144115188075855872"
    using sb_inv_block [OF inv] blk by (metis option.inject)+
  let ?k = "unat (m_used sb) - unat (m_off sb)"
  let ?c = "chunk (unat (m_off sb)) ?k b"
  have k: "unat (m_used sb - m_off sb) = ?k" using b by (simp add: size_simps)
  then have used: "unat (m_used sb - m_off sb + sizeof_count) = ?k + 4" using b by (simp add: size_simps)
  then have free: "unat (n - (m_used sb - m_off sb + sizeof_count)) = unat n - (?k + 4)"
    using n(2) by (simp add: size_simps)
  have lc: "length ?c = ?k" using b by (simp add: length_chunk)
  have fit: "4 + length ?c \<le> length t" using lc n by simp
  have lt: "length t' = length t" using fit t by (simp add: length_patch)
  have ne: "m_buffer sb \<noteq> a" using blk new(3) by auto
  have fields: "m_buffer sb' = a" "m_used sb' = m_used sb - m_off sb + sizeof_count"
    "m_free sb' = n - (m_used sb - m_off sb + sizeof_count)" "m_off sb' = sizeof_count"
    "owners sb' = add_mset a (owners sb)" "length (m_ref sb') < 144115188075855872"
    using al(2) by (simp_all add: s owners_def)
  have "get_u32 t' 0 = get_u32 t 0"
    using fit t chunk_patch_other [OF fit, of 0 4] by (simp add: get_u32_def)
  then have "counted g (add_mset a (owners sb + U))"
    using countedD [OF new(2), of a] lt new(1) unfolding g
    by (intro counted_update [OF new(2), where A = "{a}"]) (auto simp: block_counted_def)
  moreover have "sb_layout (sb', g)"
    using n used free lt by (simp add: sb_layout_def fields g word_le_nat_alt)
  ultimately have "sb_inv U (sb', g)" by (simp add: sb_inv_def fields)
  moreover have "stream (sb', g) = stream (sb, h)"
  proof -
    have "stream (sb', g) = chunk 4 ?k t'"
      using used by (subst stream_alt [where b = t']) (simp_all add: fields g)
    then show ?thesis using t chunk_patch_same [OF fit] lc blk b by (simp add: stream_alt)
  qed
  moreover have "keeps U (sb, h) (sb', g)"
  proof (rule keepsI)
    show "take (length (visible (sb, h) (m_buffer sb))) (visible (sb', g) (m_buffer sb)) =
        visible (sb, h) (m_buffer sb)"
      using blk new(1) ne b by (simp add: visible_current visible_other fields payload_def g)
  next
    fix x assume "x \<in># U"
    then have "x \<in># owners sb + U" by simp
    then have "blocks h x \<noteq> None"
      using counted_alive inv by (metis fst_conv sb_inv_def snd_conv)
    then show "payload g x = payload h x \<and> x \<noteq> m_buffer sb'"
      using new(1,3) fields by (auto simp: payload_def g)
  qed
  moreover have "len \<le> buffer_capacity sb'"
    using free n(2) by (simp add: buffer_capacity_def fields word_le_nat_alt)
  moreover have "same_allocator h g" using al(1) by (simp add: g same_allocator_def)
  ultimately show ?thesis by (auto simp: grown_def)
qed


lemma expand_copy_grown:
  assumes inv: "sb_inv U (sb, h)"
    and sz: "modest len" "modest n0" and room: "room \<Longrightarrow> roomy len n0 sb"
  shows "grown U len room (sb, h) (expand_copy len n0 (sb, h))"
proof -
  obtain b where b: "blocks h (m_buffer sb) = Some b" "counted h (owners sb + U)"
    "unat (m_used sb) + unat (m_free sb) = length b" "4 \<le> unat (m_off sb)"
    "unat (m_off sb) \<le> unat (m_used sb)" "length b \<le> 144115188075855872"
    and refs: "length (m_ref sb) < 144115188075855872"
    using inv by (rule sb_inv_block)
  let ?k = "unat (m_used sb) - unat (m_off sb)"
  let ?req = "len + (m_used sb - m_off sb) + sizeof_count"
  have k: "unat (m_used sb - m_off sb) = ?k" using b by (simp add: size_simps)
  then have req: "unat ?req = unat len + ?k + 4"
    using sz b(3,6) by (simp add: modest_def size_simps)
  have start: "unat (max n0 sizeof_count) = max (unat n0) 4" by (simp add: size_simps)
  have "0 < unat (max n0 sizeof_count)" "unat ?req \<le> 9223372036854775808"
    using start req sz b(3,6) by (auto simp: modest_def)
  from grow_returns [OF this] obtain n where
    n: "grow (max n0 sizeof_count) ?req = Some n" "?req \<le> n" "max n0 sizeof_count \<le> n"
       "max n0 sizeof_count < ?req \<longrightarrow> unat n < 2 * unat ?req" by blast
  have lo: "unat len + ?k + 4 \<le> unat n" using n(2) req by (simp add: word_le_nat_alt)
  have hi: "unat n \<le> 144115188075855872" if room
    using n(1,4) req start room [OF that] by (cases "max n0 sizeof_count < ?req") (auto simp: roomy_def)
  show ?thesis
  proof (cases "alloc_ok h n")
    case False
    from malloc_refused [OF b(2) False] obtain h' where
      h': "malloc n h = (None, h')" "counted h' (owners sb + U)" "blocks h' = blocks h"
          "same_allocator h h'" by blast
    then have "expand_copy len n0 (sb, h) = Exn Bad_alloc (sb, h')"
      using n(1) by (simp add: expand_copy_def Let_def)
    moreover have "refuses h" if room by (rule refusesI [OF _ hi [OF that] False]) simp
    ultimately show ?thesis using h' inv by (simp add: grownI_refused)
  next
    case True
    have "4 \<le> unat n" using lo by simp
    from malloc_init_counted [OF b(2) True this] obtain h1 h2 t where
      h2: "malloc n h = (Some (calls h), h1)" "init_count (calls h) h1 = Ret () h2"
          "blocks h2 = (blocks h)(calls h \<mapsto> t)" "length t = unat n"
          "counted h2 (add_mset (calls h) (owners sb + U))" "same_allocator h h2" by blast
    let ?h3 = "h2\<lparr>calls := Suc (calls h2)\<rparr>"
    have c3: "counted ?h3 (add_mset (calls h) (owners sb + U))" using h2(5) by (rule counted_calls)
    have fr: "calls h \<notin># owners sb + U" "blocks h (calls h) = None" using counted_fresh [OF b(2)] by auto
    show ?thesis
    proof (cases rule: push_back_cases [of h2 "m_ref sb" "m_buffer sb"])
      case grows
      let ?c = "chunk (unat (m_off sb)) ?k b"
      let ?sb = "sb\<lparr>m_ref := m_ref sb @ [m_buffer sb], m_buffer := calls h,
        m_used := m_used sb - m_off sb + sizeof_count,
        m_free := n - (m_used sb - m_off sb + sizeof_count), m_off := sizeof_count\<rparr>"
      let ?g = "?h3\<lparr>blocks := (blocks ?h3)(calls h \<mapsto> patch 4 ?c t)\<rparr>"
      have "expand_copy len n0 (sb, h) = Ret () (?sb, ?g)"
        using n(1) h2 grows(2) b fr lo k
        by (auto simp: expand_copy_def Let_def ref_move_def copy_block_def)
      moreover have "length (m_ref sb) + 1 < 144115188075855872"
        using grows(1) refs unat_of_nat_64 [of "8 * Suc (length (m_ref sb))"] by (simp add: alloc_ok_def)
      then have "grown U len room (sb, h) (Ret () (?sb, ?g))"
        using h2(3,4,6) c3 fr lo
        by (intro copied_grown [OF inv b(1), of ?h3 "calls h" t n len]) (auto simp: same_allocator_def)
      ultimately show ?thesis by simp
    next
      case fails
      from free_counted [OF c3 fr(1)] obtain h4 where
        h4: "free (calls h) ?h3 = Ret () h4" "counted h4 (owners sb + U)"
            "blocks h4 = (blocks ?h3)(calls h := None)" "same_allocator ?h3 h4" by blast
      have "expand_copy len n0 (sb, h) = Exn Bad_alloc (sb, h4)"
        using n(1) h2 fails(2) h4(1) by (simp add: expand_copy_def Let_def ref_move_def)
      moreover have "blocks h4 = blocks h" using h4(3) h2(3) fr(2) by auto
      moreover have "refuses h" if room
        by (intro refusesI [OF h2(6) _ fails(1)], subst unat_of_nat_64)
           (use room [OF that] in \<open>auto simp: roomy_def\<close>)
      moreover have "same_allocator h h4" using h2(6) h4(4) by (auto simp: same_allocator_def)
      ultimately show ?thesis using h4 inv by (simp add: grownI_refused)
    qed
  qed
qed


lemma expand_buffer_grown:
  assumes inv: "sb_inv U (sb, h)" and sz: "modest len" "modest n0" and room: "room \<Longrightarrow> roomy len n0 sb"
  shows "grown U len room (sb, h) (expand_buffer len n0 (sb, h))"
proof -
  have "counted h (owners sb + U)" "m_buffer sb \<in># owners sb + U"
    using inv by (simp_all add: sb_inv_def owners_def)
  from get_count_counted [OF this] obtain c where
    c: "get_count (m_buffer sb) h = Ret c h" "unat c = count (owners sb + U) (m_buffer sb)" by blast
  show ?thesis
  proof (cases "m_off sb = sizeof_count \<and> c = 1")
    case True
    with c have "expand_buffer len n0 (sb, h) = expand_realloc len (sb, h)"
      by (simp add: expand_buffer_def)
    moreover have "count (owners sb + U) (m_buffer sb) = 1" using c True by simp
    ultimately show ?thesis using True expand_realloc_grown [OF inv _ _ sz(1) room] by simp
  next
    case False
    with c have "expand_buffer len n0 (sb, h) = expand_copy len n0 (sb, h)"
      by (auto simp: expand_buffer_def)
    then show ?thesis using expand_copy_grown [OF inv sz room] by simp
  qed
qed

lemma rewind_inv:
  assumes inv: "sb_inv U (sb, h)" and "m_used sb = m_off sb" and "m_buffer sb \<notin># U"
  shows "sb_inv U (rewind sb, h) \<and> stream (rewind sb, h) = stream (sb, h) \<and> keeps U (sb, h) (rewind sb, h) \<and>
         unat (m_free (rewind sb)) = unat (m_free sb) + (unat (m_used sb) - 4)"
proof -
  obtain b where b: "blocks h (m_buffer sb) = Some b" "counted h (owners sb + U)"
    "unat (m_used sb) + unat (m_free sb) = length b" "4 \<le> unat (m_off sb)"
    "unat (m_off sb) \<le> unat (m_used sb)" "length b \<le> 144115188075855872"
    "length (m_ref sb) < 144115188075855872"
    using inv by (rule sb_inv_block)
  have free: "unat (m_free (rewind sb)) = unat (m_free sb) + (unat (m_used sb) - 4)"
    using b by (simp add: rewind_def size_simps)
  have same: "owners (rewind sb) = owners sb" "m_buffer (rewind sb) = m_buffer sb"
    "m_used (rewind sb) = sizeof_count" "m_off (rewind sb) = sizeof_count"
    "m_ref (rewind sb) = m_ref sb"
    by (simp_all add: rewind_def owners_def)
  have "sb_inv U (rewind sb, h)" using b free by (simp add: sb_inv_def sb_layout_def same)
  moreover have "stream (rewind sb, h) = stream (sb, h)"
    using b assms(2) by (simp add: stream_alt same)
  moreover have "keeps U (sb, h) (rewind sb, h)"
    using assms(3) by (intro keepsI) (auto simp: same)
  ultimately show ?thesis using free by simp
qed

lemma rewind_sizes:
  assumes "sb_inv U (sb, h)"
  shows "unat (m_used (rewind sb)) + unat (m_free (rewind sb)) = unat (m_used sb) + unat (m_free sb)"
    and "m_ref (rewind sb) = m_ref sb"
  using assms by (auto elim!: sb_inv_block simp: rewind_def size_simps)

lemma keeps_trans:
  assumes "keeps U s t" and "keeps U t u"
  shows "keeps U s u"
  unfolding keeps_def
proof
  fix a assume a: "a \<in># U"
  let ?s = "visible s a" and ?t = "visible t a" and ?u = "visible u a"
  have 1: "take (length ?s) ?t = ?s" and 2: "take (length ?t) ?u = ?t"
    using assms a by (simp_all add: keeps_def)
  have "length ?s \<le> length ?t" using 1 by (metis length_take min.absorb_iff1 min.commute)
  then have "take (length ?s) ?u = take (length ?s) (take (length ?t) ?u)" by simp
  then show "take (length ?s) ?u = ?s" using 1 2 by simp
qed

lemma grown_trans:
  assumes "keeps U s t" and "stream t = stream s" and "snd t = snd s" and "grown U len room t r"
  shows "grown U len room s r"
  using assms by (auto simp: grown_def intro: keeps_trans)

lemma reserve_buffer_grown:
  assumes inv: "sb_inv U (sb, h)" and sz: "modest len" "modest n0"
  shows "grown U len (roomy len n0 sb) (sb, h) (reserve_buffer len n0 (sb, h))"
proof -
  have counted: "counted h (owners sb + U)" "m_buffer sb \<in># owners sb + U"
    using inv by (simp_all add: sb_inv_def owners_def)
  from get_count_counted [OF this] obtain c where
    c: "get_count (m_buffer sb) h = Ret c h" "unat c = count (owners sb + U) (m_buffer sb)" by blast
  define t where "t = (if m_used sb = m_off sb \<and> c = 1 then rewind sb else sb)"
  have run: "reserve_buffer len n0 (sb, h) =
      (if m_free t < len then expand_buffer len n0 (t, h) else Ret () (t, h))"
    using c(1) by (auto simp: reserve_buffer_def t_def)
  have t: "sb_inv U (t, h) \<and> stream (t, h) = stream (sb, h) \<and> keeps U (sb, h) (t, h) \<and>
           (roomy len n0 sb \<longrightarrow> roomy len n0 t)"
  proof (cases "m_used sb = m_off sb \<and> c = 1")
    case True
    then have "m_buffer sb \<notin># U" using c(2) by (simp add: owners_def not_in_iff)
    from rewind_inv [OF inv conjunct1 [OF True] this] True rewind_sizes [OF inv] show ?thesis
      by (auto simp: t_def roomy_def)
  qed (use inv in \<open>auto simp: t_def\<close>)
  have "grown U len (roomy len n0 sb) (t, h)
      (if m_free t < len then expand_buffer len n0 (t, h) else Ret () (t, h))"
    using t expand_buffer_grown [of U t h len n0] sz
    by (auto simp: grown_def buffer_capacity_def)
  then show ?thesis unfolding run
    using grown_trans [of U "(sb, h)" "(t, h)"] t by simp
qed


section \<open>References\<close>

lemma ref_clear_releases:
  assumes "counted h (mset r + R)"
  shows "\<exists>h'. ref_clear r h = Ret [] h' \<and> counted h' R \<and> (\<forall>x \<in># R. payload h' x = payload h x) \<and>
           same_allocator h h'"
  using sc.release_all [OF assms] by (auto simp: ref_clear_def)

lemma sb_inv_heap:
  assumes inv: "sb_inv U (sb, h)" and c: "counted h' (owners (sb\<lparr>m_ref := r\<rparr>) + V)"
    and pay: "payload h' (m_buffer sb) = payload h (m_buffer sb)" and len: "length r < 144115188075855872"
  shows "sb_inv V (sb\<lparr>m_ref := r\<rparr>, h') \<and> stream (sb\<lparr>m_ref := r\<rparr>, h') = stream (sb, h)"
proof -
  obtain b where b: "blocks h (m_buffer sb) = Some b" "counted h (owners sb + U)"
    "unat (m_used sb) + unat (m_free sb) = length b" "4 \<le> unat (m_off sb)"
    "unat (m_off sb) \<le> unat (m_used sb)"
    using inv by (rule sb_inv_block)
  have "m_buffer sb \<in># owners sb + U" "m_buffer sb \<in># owners (sb\<lparr>m_ref := r\<rparr>) + V"
    by (simp_all add: owners_def)
  then obtain b' where "4 \<le> length b" and b': "blocks h' (m_buffer sb) = Some b'" "4 \<le> length b'"
    using counted_block [OF b(2)] counted_block [OF c] b(1) by (metis option.inject)
  moreover have "length (drop 4 b') = length (drop 4 b)" using pay b(1) b'(1) by (simp add: payload_def)
  ultimately have "length b' = length b" by simp
  then have "sb_inv V (sb\<lparr>m_ref := r\<rparr>, h')"
    using b b' c len by (simp add: sb_inv_def sb_layout_def word_le_nat_alt)
  moreover have "stream (sb\<lparr>m_ref := r\<rparr>, h') = stream (sb, h')"
    by (simp add: stream_def data_def data_size_def split: option.split)
  ultimately show ?thesis using stream_payload [OF inv pay] by simp
qed

lemma retain_to_returns:
  assumes inv: "sb_inv (mset to + U) (sb, h)"
    and room: "alloc_ok h (of_nat (8 * Suc (length (m_ref sb))))" "size (owners sb + (mset to + U)) < 4294967295"
  shows "\<exists>s'. retain_to to (sb, h) = Ret (m_ref sb @ [m_buffer sb]) s' \<and>
           sb_inv (mset (m_ref sb @ [m_buffer sb]) + U) s' \<and> stream s' = stream (sb, h) \<and>
           (\<forall>a \<in># owners sb + U. payload (snd s') a = payload h a)"
proof -
  let ?R = "owners sb + (mset to + U)"
  let ?h1 = "h\<lparr>calls := Suc (calls h)\<rparr>"
  have push: "push_back (m_ref sb) (m_buffer sb) h = Ret (m_ref sb @ [m_buffer sb]) ?h1"
    using room(1) by (simp add: push_back_def Let_def)
  have c1: "counted ?h1 ?R" using inv by (simp add: sb_inv_def counted_calls)
  have "m_buffer sb \<in># ?R" "count ?R (m_buffer sb) < 4294967295"
    using count_le_size [of ?R "m_buffer sb"] room(2) by (auto simp: owners_def)
  from incr_count_counted [OF c1 this] obtain h2 where
    h2: "incr_count (m_buffer sb) ?h1 = Ret () h2" "counted h2 (add_mset (m_buffer sb) ?R)"
        "payload h2 = payload ?h1" by blast
  have Q: "add_mset (m_buffer sb) ?R = mset to + (add_mset (m_buffer sb) (owners sb) + U)"
    by simp
  from ref_clear_releases [OF h2(2) [unfolded Q]] obtain h3 where
    h3: "ref_clear to h2 = Ret [] h3" "counted h3 (add_mset (m_buffer sb) (owners sb) + U)"
        "\<forall>x \<in># add_mset (m_buffer sb) (owners sb) + U. payload h3 x = payload h2 x" by blast
  have run: "retain_to to (sb, h) = Ret (m_ref sb @ [m_buffer sb]) (sb\<lparr>m_ref := []\<rparr>, h3)"
    using push h2(1) h3(1) by (simp add: retain_to_def ref_push_def ref_swap_def)
  have pay: "\<forall>a \<in># owners sb + U. payload h3 a = payload h a"
    using h3(3) h2(3) by (auto simp: payload_def)
  have "counted h3 (owners (sb\<lparr>m_ref := []\<rparr>) + (mset (m_ref sb @ [m_buffer sb]) + U))"
    using h3(2) by (simp add: owners_def add_mset_commute)
  from sb_inv_heap [OF inv this] pay run show ?thesis by (simp add: owners_def)
qed

lemma stream_buffer_delete_releases:
  assumes inv: "sb_inv U (sb, h)"
  shows "\<exists>h'. stream_buffer_delete sb h = Ret () h' \<and> counted h' U \<and> (\<forall>a \<in># U. payload h' a = payload h a)"
proof -
  have "counted h (add_mset (m_buffer sb) (mset (m_ref sb) + U))"
    using inv by (simp add: sb_inv_def owners_def)
  from decr_count_counted [OF this] obtain h1 where
    h1: "decr_count (m_buffer sb) h = Ret () h1" "counted h1 (mset (m_ref sb) + U)"
        "\<forall>x \<in># mset (m_ref sb) + U. payload h1 x = payload h x" by blast
  from ref_clear_releases [OF h1(2)] obtain h2 where
    "ref_clear (m_ref sb) h1 = Ret [] h2" "counted h2 U" "\<forall>x \<in># U. payload h2 x = payload h1 x" by blast
  with h1 show ?thesis by (auto simp: stream_buffer_delete_def)
qed

lemma retain_inv:
  assumes "sb_inv U (sb, h)" and "retain sb = (r, sb')"
  shows "sb_inv (mset r + U) (sb', h) \<and> stream (sb', h) = stream (sb, h)"
proof -
  have r: "r = m_ref sb" "sb' = sb\<lparr>m_ref := []\<rparr>" using assms(2) by (auto simp: retain_def ref_swap_def)
  have "counted h (owners (sb\<lparr>m_ref := []\<rparr>) + (mset (m_ref sb) + U))"
    using assms(1) by (simp add: sb_inv_def owners_def)
  from sb_inv_heap [OF assms(1) this] r show ?thesis by simp
qed


section \<open>The byte stream interface\<close>

text \<open>
  How an owner uses the buffer: \<open>feed\<close> is \<open>reserve_buffer\<close>, a store at \<open>buffer()\<close> and
  \<open>buffer_filled\<close>; \<open>take_data\<close> reads at most \<open>n\<close> bytes at \<open>data()\<close> and reports them with
  \<open>data_consumed\<close>. A schedule is a list of such steps; a step that throws leaves the stream as
  it was, and the schedule goes on.
\<close>

definition feed :: "size_t \<Rightarrow> mem \<Rightarrow> stream_buffer \<times> heap \<Rightarrow> (unit, stream_buffer \<times> heap) outcome" where
  "feed n0 bs s =
     bind_outcome (reserve_buffer (of_nat (length bs)) n0 s) (\<lambda>_ s. fill bs s)"

definition take_data :: "nat \<Rightarrow> stream_buffer \<times> heap \<Rightarrow> mem \<times> stream_buffer \<times> heap" where
  "take_data n s =
     (let (sb, h) = s; k = min n (unat (data_size sb)) in
      (take k (stream s), data_consumed (of_nat k) sb, h))"

datatype io_step = Feed mem | Take nat

fun run_stream :: "(mem \<Rightarrow> 's \<Rightarrow> (unit, 's) outcome) \<Rightarrow> (nat \<Rightarrow> 's \<Rightarrow> mem \<times> 's) \<Rightarrow>
    io_step list \<Rightarrow> 's \<Rightarrow> (mem \<times> mem \<times> 's) option" where
  "run_stream fd tk [] s = Some ([], [], s)"
| "run_stream fd tk (Feed bs # xs) s =
     (case fd bs s of
        Ret _ s' \<Rightarrow> map_option (\<lambda>(i, out, t). (bs @ i, out, t)) (run_stream fd tk xs s')
      | Exn _ s' \<Rightarrow> run_stream fd tk xs s'
      | Fault _ \<Rightarrow> None)"
| "run_stream fd tk (Take n # xs) s =
     (let (bs, s') = tk n s in map_option (\<lambda>(i, out, t). (i, bs @ out, t)) (run_stream fd tk xs s'))"

locale byte_stream =
  fixes inv :: "'s \<Rightarrow> bool" and content :: "'s \<Rightarrow> mem"
    and fd :: "mem \<Rightarrow> 's \<Rightarrow> (unit, 's) outcome" and tk :: "nat \<Rightarrow> 's \<Rightarrow> mem \<times> 's"
    and okay :: "mem \<Rightarrow> bool" and stable :: "'s \<Rightarrow> 's \<Rightarrow> bool"
  assumes feed_law: "inv s \<Longrightarrow> okay bs \<Longrightarrow>
      \<exists>s'. (fd bs s = Ret () s' \<and> content s' = content s @ bs \<or>
            (\<exists>e. fd bs s = Exn e s') \<and> content s' = content s) \<and> inv s' \<and> stable s s'"
    and take_law: "inv s \<Longrightarrow> tk n s = (bs, s') \<Longrightarrow> inv s' \<and> content s = bs @ content s' \<and> stable s s'"
    and stable_refl: "stable s s"
    and stable_trans: "stable s t \<Longrightarrow> stable t u \<Longrightarrow> stable s u"
begin

text \<open>Whatever the schedule, the bytes come out in the order they went in, none lost, none twice.\<close>

lemma fifo:
  "inv s \<Longrightarrow> \<forall>bs. Feed bs \<in> set xs \<longrightarrow> okay bs \<Longrightarrow>
     \<exists>i out t. run_stream fd tk xs s = Some (i, out, t) \<and> inv t \<and> out @ content t = content s @ i \<and> stable s t"
proof (induction xs arbitrary: s)
  case Nil
  then show ?case by (simp add: stable_refl)
next
  case (Cons x xs)
  show ?case
  proof (cases x)
    case (Feed bs)
    with Cons.prems have "okay bs" by simp
    from feed_law [OF Cons.prems(1) this] obtain s' where
      s': "fd bs s = Ret () s' \<and> content s' = content s @ bs \<or> (\<exists>e. fd bs s = Exn e s') \<and> content s' = content s"
      "inv s'" "stable s s'" by blast
    from Cons.IH [OF s'(2)] Cons.prems(2) obtain i out t where
      t: "run_stream fd tk xs s' = Some (i, out, t)" "inv t" "out @ content t = content s' @ i" "stable s' t" by auto
    then show ?thesis using Feed s' stable_trans [OF s'(3) t(4)] by auto
  next
    case (Take n)
    obtain bs s' where tk: "tk n s = (bs, s')" by (cases "tk n s")
    from take_law [OF Cons.prems(1) tk] have s': "inv s'" "content s = bs @ content s'" "stable s s'" by auto
    from Cons.IH [OF s'(1)] Cons.prems(2) obtain i out t where
      t: "run_stream fd tk xs s' = Some (i, out, t)" "inv t" "out @ content t = content s' @ i" "stable s' t" by auto
    then show ?thesis using Take tk s' stable_trans [OF s'(3) t(4)] by auto
  qed
qed

end

definition acceptable :: "mem \<Rightarrow> bool" where
  "acceptable bs \<longleftrightarrow> length bs \<le> 1152921504606846976"

lemma feed_returns:
  assumes inv: "sb_inv U s" and "acceptable bs" and "modest n0"
  shows "\<exists>s'. (feed n0 bs s = Ret () s' \<and> stream s' = stream s @ bs \<or>
               feed n0 bs s = Exn Bad_alloc s' \<and> stream s' = stream s) \<and> sb_inv U s' \<and> keeps U s s'"
proof -
  obtain sb h where s: "s = (sb, h)" by (cases s)
  have n: "unat (of_nat (length bs) :: size_t) = length bs" and m: "modest (of_nat (length bs))"
    using assms(2) by (simp_all add: acceptable_def modest_def size_simps)
  from reserve_buffer_grown [OF inv [unfolded s] m assms(3)] obtain t where
    t: "sb_inv U t" "stream t = stream s" "keeps U s t"
       "reserve_buffer (of_nat (length bs)) n0 s = Ret () t \<and> of_nat (length bs) \<le> buffer_capacity (fst t) \<or>
        reserve_buffer (of_nat (length bs)) n0 s = Exn Bad_alloc t"
    by (auto simp: grown_def s)
  from t(4) show ?thesis
  proof
    assume r: "reserve_buffer (of_nat (length bs)) n0 s = Ret () t \<and> of_nat (length bs) \<le> buffer_capacity (fst t)"
    then have "length bs \<le> unat (buffer_capacity (fst t))" using n by (simp add: word_le_nat_alt)
    with fill_returns [of U "fst t" "snd t" bs] t obtain s' where
      "fill bs t = Ret () s'" "sb_inv U s'" "stream s' = stream t @ bs" "keeps U t s'" by auto
    with r t show ?thesis by (auto simp: feed_def intro: keeps_trans)
  qed (use t in \<open>auto simp: feed_def\<close>)
qed

lemma take_data_returns:
  assumes inv: "sb_inv U s" and "take_data n s = (bs, s')"
  shows "sb_inv U s' \<and> stream s = bs @ stream s' \<and> keeps U s s'"
proof -
  obtain sb h where s: "s = (sb, h)" by (cases s)
  define k where "k = min n (unat (data_size sb))"
  obtain b where b: "blocks h (m_buffer sb) = Some b" "counted h (owners sb + U)"
    "unat (m_used sb) + unat (m_free sb) = length b" "4 \<le> unat (m_off sb)"
    "unat (m_off sb) \<le> unat (m_used sb)"
    using inv [unfolded s] by (rule sb_inv_block)
  have l: "length (stream (sb, h)) = unat (data_size sb)"
    using b by (simp add: stream_alt length_chunk data_size_def size_simps)
  have "k < 18446744073709551616" using unat_lt_64 [of "data_size sb"] by (simp add: k_def min_less_iff_disj)
  then have k: "unat (of_nat k :: size_t) = k" by (rule unat_of_nat_64)
  have "unat (of_nat k :: size_t) \<le> length (stream (sb, h))" using k l by (simp add: k_def)
  from data_consumed_returns [OF inv [unfolded s] this] k show ?thesis
    using assms(2) by (auto simp: take_data_def s k_def Let_def)
qed

interpretation sbs: byte_stream "sb_inv U" stream "feed n0" take_data
    "\<lambda>bs. acceptable bs \<and> modest n0" "keeps U" for U n0
proof unfold_locales
  fix s bs assume "sb_inv U s" "acceptable bs \<and> modest n0"
  then show "\<exists>s'. (feed n0 bs s = Ret () s' \<and> stream s' = stream s @ bs \<or>
      (\<exists>e. feed n0 bs s = Exn e s') \<and> stream s' = stream s) \<and> sb_inv U s' \<and> keeps U s s'"
    using feed_returns [of U s bs n0] by blast
next
  fix s n bs s' assume "sb_inv U s" "take_data n s = (bs, s')"
  then show "sb_inv U s' \<and> stream s = bs @ stream s' \<and> keeps U s s'" using take_data_returns by blast
qed (auto intro: keeps_trans)

section \<open>Properties\<close>

text \<open>A small buffer on an empty heap, for the witnesses.\<close>

definition empty_heap :: heap where
  "empty_heap = \<lparr>blocks = Map.empty, calls = 0, grants = (\<lambda>_ _. True), garbage = (\<lambda>_ _. 0)\<rparr>"

definition small_heap :: heap where
  "small_heap = empty_heap\<lparr>blocks := [0 \<mapsto> enc_u32 1 @ [10, 20, 30, 0]], calls := 1\<rparr>"

definition small_buffer :: stream_buffer where
  "small_buffer = \<lparr>m_buffer = 0, m_used = 7, m_free = 1, m_off = 5, m_ref = []\<rparr>"

lemma enc_u32_1: "enc_u32 1 = [1, 0, 0, 0]"
  by (simp add: enc_u32_def le_enc_numeral)

lemma small_inv: "sb_inv {#} (small_buffer, small_heap)"
  by (auto simp: sb_inv_def sb_layout_def counted_def block_counted_def small_buffer_def small_heap_def
      empty_heap_def owners_def get_u32_def chunk_def enc_u32_1)

lemma small_stream: "stream (small_buffer, small_heap) = [20, 30]"
  by (simp add: stream_def data_def data_size_def small_buffer_def small_heap_def empty_heap_def chunk_def
      enc_u32_1)

lemma small_facts:
  "\<not> refuses small_heap" "roomy 100 16 small_buffer" "m_ref small_buffer = []" "m_buffer small_buffer = 0"
  "alloc_ok small_heap 8" "owners small_buffer = {#0#}"
  by (simp_all add: refuses_def roomy_def alloc_ok_def owners_def small_heap_def empty_heap_def small_buffer_def)

text \<open>
  C1. Any interleaving of feeding and reading a stream buffer is a byte queue: no step runs into
  undefined behaviour, the bytes read so far followed by the unread bytes are the initial bytes
  followed by the bytes fed, and the bytes that clients hold through \<open>ref\<close> objects never change.
\<close>

theorem stream_buffer_fifo:
  assumes "sb_inv U s" and "modest n0" and "\<forall>bs. Feed bs \<in> set xs \<longrightarrow> acceptable bs"
  shows "\<exists>i out t. run_stream (feed n0) take_data xs s = Some (i, out, t) \<and> sb_inv U t \<and>
           out @ stream t = stream s @ i \<and> keeps U s t"
  using sbs.fifo [of U s xs n0] assms by blast

theorem stream_buffer_fifo_witness:
  "\<exists>i out t. run_stream (feed 16) take_data [Take 1, Feed [40, 50], Take 2] (small_buffer, small_heap) = Some (i, out, t) \<and>
     sb_inv {#} t \<and> out @ stream t = [20, 30] @ i \<and> keeps {#} (small_buffer, small_heap) t"
  using stream_buffer_fifo [OF small_inv, of 16 "[Take 1, Feed [40, 50], Take 2]"]
  by (simp add: modest_def acceptable_def small_stream)

text \<open>
  C8. \<open>reserve_buffer\<close> either makes room for \<open>len\<close> bytes or throws \<open>bad_alloc\<close>; in both cases the
  class invariant holds (every block counted by exactly its owners, no pointer out of its block),
  the unread bytes are the same and so are the bytes clients still reference. With sizes up to 2
  to the power 54 it throws only if the allocator refused a request.
\<close>

theorem reserve_buffer_correct:
  assumes "sb_inv U (sb, h)" and "modest len" and "modest n0"
  shows "\<exists>s'. (reserve_buffer len n0 (sb, h) = Ret () s' \<and> len \<le> buffer_capacity (fst s') \<or>
               reserve_buffer len n0 (sb, h) = Exn Bad_alloc s' \<and> (roomy len n0 sb \<longrightarrow> refuses h)) \<and>
           sb_inv U s' \<and> stream s' = stream (sb, h) \<and> keeps U (sb, h) s'"
  using reserve_buffer_grown [OF assms] by (auto simp: grown_def)

theorem reserve_buffer_correct_witness:
  "\<exists>s'. reserve_buffer 100 16 (small_buffer, small_heap) = Ret () s' \<and> 100 \<le> buffer_capacity (fst s') \<and>
     sb_inv {#} s' \<and> stream s' = [20, 30]"
  using reserve_buffer_correct [OF small_inv, of 100 16]
  by (auto simp: modest_def small_stream small_facts)

text \<open>
  \<open>retain_to\<close> gives the client references to every block that can hold bytes it has read (the
  blocks left behind and the current one), releases what its \<open>ref\<close> held before, and leaves the
  stream and all remaining blocks as they were.
\<close>

lemma retain_to_correct:
  assumes "sb_inv (mset to + U) (sb, h)" and "alloc_ok h (of_nat (8 * Suc (length (m_ref sb))))"
    and "size (owners sb + (mset to + U)) < 4294967295"
  shows "\<exists>s'. retain_to to (sb, h) = Ret (m_ref sb @ [m_buffer sb]) s' \<and>
           sb_inv (mset (m_ref sb @ [m_buffer sb]) + U) s' \<and> stream s' = stream (sb, h) \<and>
           (\<forall>a \<in># owners sb + U. payload (snd s') a = payload h a)"
  using assms by (rule retain_to_returns)

lemma retain_to_correct_witness:
  "\<exists>s'. retain_to [] (small_buffer, small_heap) = Ret [0] s' \<and> sb_inv {#0#} s' \<and> stream s' = [20, 30]"
  using retain_to_correct [of "[]" "{#}" small_buffer small_heap] small_inv
  by (auto simp: small_stream small_facts)

text \<open>
  The destructor gives up exactly the references the buffer holds: afterwards the heap holds
  exactly the blocks still owned by clients, with their bytes, and nothing else.
\<close>

lemma stream_buffer_delete_correct:
  assumes "sb_inv U (sb, h)"
  shows "\<exists>h'. stream_buffer_delete sb h = Ret () h' \<and> counted h' U \<and> dom (blocks h') = set_mset U \<and>
           (\<forall>a \<in># U. payload h' a = payload h a)"
proof -
  have "dom (blocks h') = set_mset U" if "counted h' U" for h'
    by (rule set_eqI) (metis counted_None [OF that] counted_alive [OF that] domIff)
  then show ?thesis using stream_buffer_delete_releases [OF assms] by blast
qed

lemma stream_buffer_delete_correct_witness:
  "\<exists>h'. stream_buffer_delete small_buffer small_heap = Ret () h' \<and> dom (blocks h') = {}"
  using stream_buffer_delete_correct [OF small_inv] by auto



end
