(* ===== verification/Shared_Buffer.thy ===== *)
theory Shared_Buffer
  imports Counted_Heap
begin

text \<open>
  \<open>mp::shared_buffer\<close> of \<open>src/mp/shared_buffer.h\<close>: a buffer that hands out parts of its block together
  with counted references. The model stands on the counted heap of \<open>stream_buffer\<close>; the class has its
  own copy of the counting functions. The theorem says that parts handed out and still referenced are
  never handed out again, moved or freed.
\<close>

section \<open>The class\<close>

record shared_buffer =
  sh_buffer :: nat
  sh_used :: size_t
  sh_free :: size_t

definition sh_sizeof_count :: size_t where
  "sh_sizeof_count = 4"

definition sh_init_count :: "nat \<Rightarrow> heap \<Rightarrow> (unit, heap) outcome" where
  "sh_init_count d h = store_count d 1 h"

definition sh_decr_count :: "nat \<Rightarrow> heap \<Rightarrow> (unit, heap) outcome" where
  "sh_decr_count d h =
     bind_outcome (load_count d h) (\<lambda>c h.
     bind_outcome (store_count d (c - 1) h) (\<lambda>_ h.
     if c - 1 = 0 then free d h else Ret () h))"

definition sh_incr_count :: "nat \<Rightarrow> heap \<Rightarrow> (unit, heap) outcome" where
  "sh_incr_count d h = bind_outcome (load_count d h) (\<lambda>c h. store_count d (c + 1) h)"

definition sh_get_count :: "nat \<Rightarrow> heap \<Rightarrow> (u32, heap) outcome" where
  "sh_get_count d h = load_count d h"

text \<open>A reference is the pointer \<open>m\<close>. Counting through the null pointer has no defined behaviour.\<close>

definition shref_new :: "nat option" where
  "shref_new = None"

definition incr_ptr :: "nat option \<Rightarrow> heap \<Rightarrow> (unit, heap) outcome" where
  "incr_ptr m h = (case m of None \<Rightarrow> Fault Null_deref | Some d \<Rightarrow> sh_incr_count d h)"

definition shref_of :: "nat option \<Rightarrow> heap \<Rightarrow> (nat option, heap) outcome" where
  "shref_of p h = bind_outcome (incr_ptr p h) (\<lambda>_ h. Ret p h)"

definition shref_copy :: "nat option \<Rightarrow> heap \<Rightarrow> (nat option, heap) outcome" where
  "shref_copy m h = bind_outcome (incr_ptr m h) (\<lambda>_ h. Ret m h)"

definition shref_clear :: "nat option \<Rightarrow> heap \<Rightarrow> (nat option, heap) outcome" where
  "shref_clear m h =
     (case m of None \<Rightarrow> Ret None h | Some d \<Rightarrow> bind_outcome (sh_decr_count d h) (\<lambda>_ h. Ret None h))"

definition shref_reset :: "nat option \<Rightarrow> nat option \<Rightarrow> heap \<Rightarrow> (nat option, heap) outcome" where
  "shref_reset p m h =
     bind_outcome (shref_clear m h) (\<lambda>_ h. bind_outcome (incr_ptr p h) (\<lambda>_ h. Ret p h))"

definition shref_swap :: "nat option \<Rightarrow> nat option \<Rightarrow> nat option \<times> nat option" where
  "shref_swap m x = (x, m)"

definition shared_buffer_new :: "size_t \<Rightarrow> heap \<Rightarrow> (shared_buffer, heap) outcome" where
  "shared_buffer_new init_size h =
     (let initsz = max init_size sh_sizeof_count in
      case malloc initsz h of
        (None, h) \<Rightarrow> Exn Bad_alloc h
      | (Some a, h) \<Rightarrow>
          bind_outcome (sh_init_count a h) (\<lambda>_ h.
          Ret \<lparr>sh_buffer = a, sh_used = sh_sizeof_count, sh_free = initsz - sh_sizeof_count\<rparr> h))"

definition shared_buffer_delete :: "shared_buffer \<Rightarrow> heap \<Rightarrow> (unit, heap) outcome" where
  "shared_buffer_delete sb h = sh_decr_count (sh_buffer sb) h"

definition sh_buffer_ptr :: "shared_buffer \<Rightarrow> nat \<times> size_t" where
  "sh_buffer_ptr sb = (sh_buffer sb, sh_used sb)"

definition sh_buffer_capacity :: "shared_buffer \<Rightarrow> size_t" where
  "sh_buffer_capacity sb = sh_free sb"

definition sh_skip :: "size_t \<Rightarrow> shared_buffer \<Rightarrow> shared_buffer" where
  "sh_skip len sb =
     (let len = (if sh_free sb < len then sh_free sb else len) in
      sb\<lparr>sh_used := sh_used sb + len, sh_free := sh_free sb - len\<rparr>)"

definition sh_hold :: "size_t \<Rightarrow> shared_buffer \<times> heap \<Rightarrow> (nat option, shared_buffer \<times> heap) outcome" where
  "sh_hold len s =
     (let (sb, h) = s;
          len = (if sh_free sb < len then sh_free sb else len);
          sb = sb\<lparr>sh_used := sh_used sb + len, sh_free := sh_free sb - len\<rparr> in
      with_obj sb (shref_of (Some (sh_buffer sb)) h))"

text \<open>\<open>expand_buffer\<close>: the branch that moves the block, and the one that leaves it to its references.\<close>

definition sh_expand_realloc :: "size_t \<Rightarrow> shared_buffer \<times> heap \<Rightarrow> (unit, shared_buffer \<times> heap) outcome" where
  "sh_expand_realloc len s =
     (let (sb, h) = s in
      case grow ((sh_used sb + sh_free sb) * 2) (len + sh_used sb) of
        None \<Rightarrow> Fault No_return
      | Some next_size \<Rightarrow>
          bind_outcome (with_obj sb (realloc (sh_buffer sb) next_size h)) (\<lambda>tmp (sb, h).
          case tmp of
            None \<Rightarrow> Exn Bad_alloc (sb, h)
          | Some tmp \<Rightarrow> Ret () (sb\<lparr>sh_buffer := tmp, sh_free := next_size - sh_used sb\<rparr>, h)))"

definition sh_expand_new :: "size_t \<Rightarrow> size_t \<Rightarrow> shared_buffer \<times> heap \<Rightarrow> (unit, shared_buffer \<times> heap) outcome" where
  "sh_expand_new len init_size s =
     (let (sb, h) = s; initsz = max init_size sh_sizeof_count in
      case grow initsz (len + sh_sizeof_count) of
        None \<Rightarrow> Fault No_return
      | Some next_size \<Rightarrow>
          (case malloc next_size h of
             (None, h) \<Rightarrow> Exn Bad_alloc (sb, h)
           | (Some tmp, h) \<Rightarrow>
               bind_outcome (with_obj sb (sh_init_count tmp h)) (\<lambda>_ (sb, h).
               bind_outcome (with_obj sb (sh_decr_count (sh_buffer sb) h)) (\<lambda>_ (sb, h).
               Ret () (\<lparr>sh_buffer = tmp, sh_used = sh_sizeof_count, sh_free = next_size - sh_sizeof_count\<rparr>, h)))))"

definition sh_expand_buffer :: "size_t \<Rightarrow> size_t \<Rightarrow> shared_buffer \<times> heap \<Rightarrow> (unit, shared_buffer \<times> heap) outcome" where
  "sh_expand_buffer len init_size s =
     (let (sb, h) = s in
      if sh_used sb = sh_sizeof_count
      then bind_outcome (with_obj sb (sh_get_count (sh_buffer sb) h)) (\<lambda>c s.
           if c = 1 then sh_expand_realloc len s else sh_expand_new len init_size s)
      else sh_expand_new len init_size s)"

definition sh_rewind :: "shared_buffer \<Rightarrow> shared_buffer" where
  "sh_rewind sb = sb\<lparr>sh_free := sh_free sb + (sh_used sb - sh_sizeof_count), sh_used := sh_sizeof_count\<rparr>"

definition sh_reserve_buffer :: "size_t \<Rightarrow> size_t \<Rightarrow> shared_buffer \<times> heap \<Rightarrow> (unit, shared_buffer \<times> heap) outcome" where
  "sh_reserve_buffer len init_size s =
     (let (sb, h) = s in
      bind_outcome (with_obj sb (sh_get_count (sh_buffer sb) h)) (\<lambda>c (sb, h).
      let sb = (if c = 1 then sh_rewind sb else sb) in
      if sh_free sb < len then sh_expand_buffer len init_size (sb, h) else Ret () (sb, h)))"

section \<open>The counting functions\<close>

lemma sh_counts_eq: "sh_init_count = init_count" "sh_decr_count = decr_count" "sh_incr_count = incr_count" "sh_get_count = get_count"
  by (simp_all add: fun_eq_iff sh_init_count_def init_count_def sh_decr_count_def decr_count_def sh_incr_count_def incr_count_def
      sh_get_count_def get_count_def)

interpretation shc: refcount sh_incr_count sh_decr_count
  unfolding sh_counts_eq by unfold_locales (use incr_count_counted decr_count_counted in auto)

section \<open>Parts handed out\<close>

text \<open>
  \<open>H\<close> lists the parts clients hold: the block, the offset and the length of each. The invariant: each
  part owns a reference, the buffer owns one; parts of the current block lie before \<open>buffer()\<close>; no two
  parts overlap.
\<close>

type_synonym part = "nat \<times> nat \<times> nat"

definition apart :: "part \<Rightarrow> part \<Rightarrow> bool" where
  "apart x y \<longleftrightarrow> fst x = fst y \<longrightarrow> fst (snd x) + snd (snd x) \<le> fst (snd y) \<or> fst (snd y) + snd (snd y) \<le> fst (snd x)"

definition sh_inv :: "part list \<Rightarrow> shared_buffer \<times> heap \<Rightarrow> bool" where
  "sh_inv H s \<longleftrightarrow>
     (let (sb, h) = s in
      counted h (add_mset (sh_buffer sb) (mset (map fst H))) \<and>
      (\<exists>b. blocks h (sh_buffer sb) = Some b \<and> unat (sh_used sb) + unat (sh_free sb) = length b) \<and> 4 \<le> unat (sh_used sb) \<and>
      (\<forall>x\<in>set H. fst x = sh_buffer sb \<longrightarrow> fst (snd x) + snd (snd x) \<le> unat (sh_used sb)) \<and> sorted_wrt apart H)"

lemma sh_sizeof_simps [simp]: "unat sh_sizeof_count = 4"
  by (simp add: sh_sizeof_count_def)

lemma sh_inv_block:
  assumes "sh_inv H (sb, h)"
  obtains b where "blocks h (sh_buffer sb) = Some b" "counted h (add_mset (sh_buffer sb) (mset (map fst H)))"
    "unat (sh_used sb) + unat (sh_free sb) = length b" "4 \<le> unat (sh_used sb)" "length b \<le> 144115188075855872"
proof -
  have c: "counted h (add_mset (sh_buffer sb) (mset (map fst H)))" using assms by (simp add: sh_inv_def)
  have "sh_buffer sb \<in># add_mset (sh_buffer sb) (mset (map fst H))" by simp
  from counted_block [OF c this] obtain b where
    b: "blocks h (sh_buffer sb) = Some b" "length b \<le> 144115188075855872" by metis
  with assms show ?thesis by (auto simp: sh_inv_def intro: that [OF b(1) c])
qed

definition sh_keeps :: "part list \<Rightarrow> heap \<Rightarrow> heap \<Rightarrow> bool" where
  "sh_keeps H h h' \<longleftrightarrow> (\<forall>x\<in>set H. payload h' (fst x) = payload h (fst x))"

text \<open>The length \<open>hold\<close> and \<open>skip\<close> really take.\<close>

definition clip :: "size_t \<Rightarrow> shared_buffer \<Rightarrow> size_t" where
  "clip len sb = (if sh_free sb < len then sh_free sb else len)"

lemma clip_le: "unat (clip len sb) \<le> unat (sh_free sb)"
  by (auto simp: clip_def word_less_nat_alt)

lemma sh_skip_inv:
  assumes "sh_inv H (sb, h)"
  shows "sh_inv H (sh_skip len sb, h)"
proof -
  from assms obtain b where b: "blocks h (sh_buffer sb) = Some b" "unat (sh_used sb) + unat (sh_free sb) = length b"
    "length b \<le> 144115188075855872" by (rule sh_inv_block)
  have eq: "sh_skip len sb = sb\<lparr>sh_used := sh_used sb + clip len sb, sh_free := sh_free sb - clip len sb\<rparr>"
    by (simp add: sh_skip_def clip_def)
  have n: "unat (sh_used sb + clip len sb) = unat (sh_used sb) + unat (clip len sb)"
    "unat (sh_free sb - clip len sb) = unat (sh_free sb) - unat (clip len sb)"
    using b(2,3) clip_le [of len sb] by (simp_all add: size_simps)
  show ?thesis using assms b(2) n clip_le [of len sb] unfolding eq sh_inv_def by fastforce
qed

lemma sh_hold_inv:
  assumes inv: "sh_inv H (sb, h)" and few: "length H < 4294967294"
  shows "\<exists>h'. sh_hold len (sb, h) = Ret (Some (sh_buffer sb)) (sh_skip len sb, h') \<and>
     sh_inv (H @ [(sh_buffer sb, unat (sh_used sb), unat (clip len sb))]) (sh_skip len sb, h') \<and> payload h' = payload h"
proof -
  let ?a = "sh_buffer sb"
  have c: "counted h (add_mset ?a (mset (map fst H)))" using inv by (simp add: sh_inv_def)
  have "count (add_mset ?a (mset (map fst H))) ?a < 4294967295"
    using few count_le_size [of "image_mset fst (mset H)" ?a] by simp
  from shc.incr_owner [OF c _ this] obtain h' where
    h': "sh_incr_count ?a h = Ret () h'" "counted h' (add_mset ?a (add_mset ?a (mset (map fst H))))" "payload h' = payload h" by auto
  have same: "sh_buffer (sh_skip len sb) = ?a" by (simp add: sh_skip_def)
  have used: "unat (sh_used (sh_skip len sb)) = unat (sh_used sb) + unat (clip len sb)"
  proof -
    from inv obtain b where "blocks h ?a = Some b" "counted h (add_mset ?a (mset (map fst H)))"
      "unat (sh_used sb) + unat (sh_free sb) = length b" "4 \<le> unat (sh_used sb)" "length b \<le> 144115188075855872" by (rule sh_inv_block)
    then show ?thesis using clip_le [of len sb] by (simp add: sh_skip_def clip_def [symmetric] Let_def size_simps)
  qed
  have "sh_hold len (sb, h) = Ret (Some ?a) (sh_skip len sb, h')"
    using h'(1) by (simp add: sh_hold_def sh_skip_def Let_def shref_of_def incr_ptr_def)
  moreover have "sh_inv (H @ [(?a, unat (sh_used sb), unat (clip len sb))]) (sh_skip len sb, h')"
  proof -
    have i: "sh_inv H (sh_skip len sb, h)" by (rule sh_skip_inv [OF inv])
    obtain b' where "blocks h' ?a = Some b'" "\<exists>b. blocks h ?a = Some b \<and> length b' = length b"
    proof -
      obtain b where b: "blocks h ?a = Some b" "4 \<le> length b" using counted_block [OF c, of ?a] by auto
      obtain b' where b': "blocks h' ?a = Some b'" "4 \<le> length b'" using counted_block [OF h'(2), of ?a] by auto
      have "drop 4 b' = drop 4 b" using h'(3) b b' by (auto simp: payload_def fun_eq_iff dest!: spec [of _ ?a])
      then have "length b' - 4 = length b - 4" by (metis length_drop)
      then show thesis using b b' that by simp
    qed
    moreover have "\<forall>x\<in>set H. apart x (?a, unat (sh_used sb), unat (clip len sb))"
      using inv by (auto simp: sh_inv_def apart_def)
    ultimately show ?thesis using i h'(2) used by (auto simp: sh_inv_def same sorted_wrt_append)
  qed
  ultimately show ?thesis using h'(3) by blast
qed

lemma sh_drop_inv:
  assumes inv: "sh_inv (H @ x # H') (sb, h)"
  shows "\<exists>h'. shref_clear (Some (fst x)) h = Ret None h' \<and> sh_inv (H @ H') (sb, h') \<and> sh_keeps (H @ H') h h'"
proof -
  have "counted h (add_mset (fst x) (add_mset (sh_buffer sb) (mset (map fst (H @ H')))))"
    using inv by (simp add: sh_inv_def add_mset_commute)
  from shc.decr_owner [OF this] obtain h' where
    h': "sh_decr_count (fst x) h = Ret () h'" "counted h' (add_mset (sh_buffer sb) (mset (map fst (H @ H'))))"
        "\<forall>y\<in>#add_mset (sh_buffer sb) (mset (map fst (H @ H'))). payload h' y = payload h y" by blast
  from inv obtain b where b: "blocks h (sh_buffer sb) = Some b" "unat (sh_used sb) + unat (sh_free sb) = length b"
    "4 \<le> unat (sh_used sb)" by (rule sh_inv_block)
  obtain b' where b': "blocks h' (sh_buffer sb) = Some b'" "4 \<le> length b'"
    using counted_block [OF h'(2), of "sh_buffer sb"] by auto
  have "drop 4 b' = drop 4 b" using h'(3) b b' by (auto simp: payload_def)
  then have "length b' - 4 = length b - 4" by (metis length_drop)
  then have len: "length b' = length b" using b b'(2) by simp
  have "sh_inv (H @ H') (sb, h')"
    using inv h'(2) b b'(1) len by (auto simp: sh_inv_def sorted_wrt_append)
  then show ?thesis using h'(1,3) by (auto simp: shref_clear_def sh_keeps_def)
qed

section \<open>Reserving\<close>

text \<open>What \<open>reserve_buffer\<close> promises: room for \<open>len\<close> bytes or \<open>bad_alloc\<close>, and held parts untouched either way.\<close>

definition sh_grown :: "part list \<Rightarrow> size_t \<Rightarrow> shared_buffer \<times> heap \<Rightarrow> (unit, shared_buffer \<times> heap) outcome \<Rightarrow> bool" where
  "sh_grown H len s r \<longleftrightarrow>
     (\<exists>s'. (r = Ret () s' \<and> len \<le> sh_buffer_capacity (fst s') \<or> r = Exn Bad_alloc s') \<and> sh_inv H s' \<and> sh_keeps H (snd s) (snd s'))"

definition sh_modest :: "size_t \<Rightarrow> bool" where
  "sh_modest n \<longleftrightarrow> unat n \<le> 1152921504606846976"

lemma sh_refused:
  assumes "sh_inv H (sb, h)" "counted h' (add_mset (sh_buffer sb) (mset (map fst H)))" "blocks h' = blocks h"
  shows "sh_grown H len (sb, h) (Exn Bad_alloc (sb, h'))"
  using assms by (auto simp: sh_grown_def sh_inv_def sh_keeps_def payload_def)

lemma sh_expand_realloc_grown:
  assumes inv: "sh_inv H (sb, h)" and one: "sh_buffer sb \<notin> fst ` set H" and sz: "sh_modest len"
  shows "sh_grown H len (sb, h) (sh_expand_realloc len (sb, h))"
proof -
  obtain b where b: "blocks h (sh_buffer sb) = Some b" "counted h (add_mset (sh_buffer sb) (mset (map fst H)))"
    "unat (sh_used sb) + unat (sh_free sb) = length b" "4 \<le> unat (sh_used sb)" "length b \<le> 144115188075855872"
    using inv by (rule sh_inv_block)
  have req: "unat (len + sh_used sb) = unat len + unat (sh_used sb)"
    and start: "unat ((sh_used sb + sh_free sb) * 2) = length b * 2"
    using sz b(3,5) by (simp_all add: sh_modest_def size_simps)
  have "0 < unat ((sh_used sb + sh_free sb) * 2)" "unat (len + sh_used sb) \<le> 9223372036854775808"
    using start req b(3-5) sz by (auto simp: sh_modest_def)
  from grow_returns [OF this] obtain n where
    n: "grow ((sh_used sb + sh_free sb) * 2) (len + sh_used sb) = Some n" "len + sh_used sb \<le> n"
       "(sh_used sb + sh_free sb) * 2 \<le> n" by blast
  have lo: "unat len + unat (sh_used sb) \<le> unat n" "length b \<le> unat n"
    using n(2,3) req start by (simp_all add: word_le_nat_alt)
  have notin: "sh_buffer sb \<notin># mset (map fst H)" using one by auto
  show ?thesis
  proof (cases "alloc_ok h n")
    case True
    from realloc_counted [OF b(2) notin b(1) True lo(2)] obtain h' g where
      h': "realloc (sh_buffer sb) n h = Ret (Some (calls h)) h'" "counted h' (add_mset (calls h) (mset (map fst H)))"
          "blocks h' = (blocks h)(sh_buffer sb := None, calls h \<mapsto> b @ g)" "length (b @ g) = unat n" by blast
    let ?sb = "sb\<lparr>sh_buffer := calls h, sh_free := n - sh_used sb\<rparr>"
    have free: "unat (n - sh_used sb) = unat n - unat (sh_used sb)" using lo by (simp add: size_simps)
    have fr: "calls h \<notin> fst ` set H" using counted_fresh [OF b(2)] by auto
    have "sh_expand_realloc len (sb, h) = Ret () (?sb, h')" using n(1) h'(1) by (simp add: sh_expand_realloc_def)
    moreover have "sh_inv H (?sb, h')" using inv h' free lo b fr by (auto simp: sh_inv_def image_iff)
    moreover have "sh_keeps H h h'" using h'(3) one fr by (auto simp: sh_keeps_def payload_def image_iff)
    moreover have "len \<le> sh_buffer_capacity ?sb" using free lo by (simp add: sh_buffer_capacity_def word_le_nat_alt)
    ultimately show ?thesis unfolding sh_grown_def by auto
  next
    case False
    from realloc_refused [OF b(2) _ False, of "sh_buffer sb"] obtain h' where
      "realloc (sh_buffer sb) n h = Ret None h'" "counted h' (add_mset (sh_buffer sb) (mset (map fst H)))" "blocks h' = blocks h" by auto
    then show ?thesis using n(1) sh_refused [OF inv] by (simp add: sh_expand_realloc_def)
  qed
qed

lemma sh_expand_new_grown:
  assumes inv: "sh_inv H (sb, h)" and sz: "sh_modest len"
  shows "sh_grown H len (sb, h) (sh_expand_new len n0 (sb, h))"
proof -
  obtain b where b: "blocks h (sh_buffer sb) = Some b" "counted h (add_mset (sh_buffer sb) (mset (map fst H)))"
    using inv by (rule sh_inv_block)
  have req: "unat (len + sh_sizeof_count) = unat len + 4" using sz by (simp add: sh_modest_def size_simps)
  have "0 < unat (max n0 sh_sizeof_count)" "unat (len + sh_sizeof_count) \<le> 9223372036854775808"
    using req sz by (auto simp: sh_modest_def size_simps)
  from grow_returns [OF this] obtain n where
    n: "grow (max n0 sh_sizeof_count) (len + sh_sizeof_count) = Some n" "len + sh_sizeof_count \<le> n" by blast
  have lo: "unat len + 4 \<le> unat n" using n(2) req by (simp add: word_le_nat_alt)
  show ?thesis
  proof (cases "alloc_ok h n")
    case False
    from malloc_refused [OF b(2) False] obtain h' where
      "malloc n h = (None, h')" "counted h' (add_mset (sh_buffer sb) (mset (map fst H)))" "blocks h' = blocks h" by blast
    then show ?thesis using n(1) sh_refused [OF inv] by (simp add: sh_expand_new_def)
  next
    case True
    have "4 \<le> unat n" using lo by simp
    from malloc_init_counted [OF b(2) True this] obtain h1 h2 t where
      h2: "malloc n h = (Some (calls h), h1)" "init_count (calls h) h1 = Ret () h2" "blocks h2 = (blocks h)(calls h \<mapsto> t)"
          "length t = unat n" "counted h2 (add_mset (calls h) (add_mset (sh_buffer sb) (mset (map fst H))))" by blast
    have "counted h2 (add_mset (sh_buffer sb) (add_mset (calls h) (mset (map fst H))))"
      using h2(5) by (simp add: add_mset_commute)
    from shc.decr_owner [OF this] obtain h3 where
      h3: "sh_decr_count (sh_buffer sb) h2 = Ret () h3" "counted h3 (add_mset (calls h) (mset (map fst H)))"
          "\<forall>y\<in>#add_mset (calls h) (mset (map fst H)). payload h3 y = payload h2 y" by blast
    let ?sb = "\<lparr>sh_buffer = calls h, sh_used = sh_sizeof_count, sh_free = n - sh_sizeof_count\<rparr>"
    have free: "unat (n - sh_sizeof_count) = unat n - 4" using lo by (simp add: size_simps)
    have fr: "calls h \<notin> fst ` set H" using counted_fresh [OF b(2)] by auto
    obtain t' where t': "blocks h3 (calls h) = Some t'" "4 \<le> length t'" using counted_block [OF h3(2), of "calls h"] by auto
    have "drop 4 t' = drop 4 t" using h3(3) h2(3) t' by (auto simp: payload_def)
    then have "length t' - 4 = length t - 4" by (metis length_drop)
    then have len: "length t' = unat n" using t'(2) h2(4) lo by simp
    have "sh_expand_new len n0 (sb, h) = Ret () (?sb, h3)"
      using n(1) h2(1,2) h3(1) by (simp add: sh_expand_new_def sh_counts_eq)
    moreover have "sh_inv H (?sb, h3)" using inv h3(2) t'(1) len free lo fr by (auto simp: sh_inv_def image_iff)
    moreover have "sh_keeps H h h3" using h3(3) h2(3) fr by (auto simp: sh_keeps_def payload_def image_iff)
    moreover have "len \<le> sh_buffer_capacity ?sb" using free lo by (simp add: sh_buffer_capacity_def word_le_nat_alt)
    ultimately show ?thesis unfolding sh_grown_def by auto
  qed
qed

lemma sh_count_one:
  assumes "sh_inv H (sb, h)"
  shows "\<exists>c. sh_get_count (sh_buffer sb) h = Ret c h \<and> (c = 1 \<longleftrightarrow> sh_buffer sb \<notin> fst ` set H)"
proof -
  have "counted h (add_mset (sh_buffer sb) (mset (map fst H)))" using assms by (simp add: sh_inv_def)
  from get_count_counted [OF this, of "sh_buffer sb"] obtain c where
    c: "sh_get_count (sh_buffer sb) h = Ret c h" "unat c = Suc (count (mset (map fst H)) (sh_buffer sb))" by (auto simp: sh_counts_eq)
  have "c = 1 \<longleftrightarrow> unat c = 1" by (simp add: word_unat_eq_iff)
  then show ?thesis using c by (auto simp: count_eq_zero_iff)
qed

lemma sh_rewind_inv:
  assumes "sh_inv H (sb, h)" "sh_buffer sb \<notin> fst ` set H"
  shows "sh_inv H (sh_rewind sb, h)"
proof -
  from assms(1) obtain b where b: "blocks h (sh_buffer sb) = Some b" "counted h (add_mset (sh_buffer sb) (mset (map fst H)))"
    "unat (sh_used sb) + unat (sh_free sb) = length b" "4 \<le> unat (sh_used sb)" "length b \<le> 144115188075855872"
    by (rule sh_inv_block)
  then have "4 + unat (sh_free sb + (sh_used sb - sh_sizeof_count)) = unat (sh_used sb) + unat (sh_free sb)"
    by (simp add: size_simps)
  then show ?thesis using assms by (auto simp: sh_inv_def sh_rewind_def image_iff)
qed

lemma sh_reserve_grown:
  assumes inv: "sh_inv H (sb, h)" and sz: "sh_modest len"
  shows "sh_grown H len (sb, h) (sh_reserve_buffer len n0 (sb, h))"
proof -
  from sh_count_one [OF inv] obtain c where
    c: "sh_get_count (sh_buffer sb) h = Ret c h" "c = 1 \<longleftrightarrow> sh_buffer sb \<notin> fst ` set H" by blast
  define t where "t = (if c = 1 then sh_rewind sb else sb)"
  have t: "sh_inv H (t, h)" "sh_buffer t = sb_buffer" if "sb_buffer = sh_buffer sb" for sb_buffer
    using inv sh_rewind_inv [OF inv] c(2) that by (auto simp: t_def sh_rewind_def)
  have e: "sh_grown H len (t, h) (sh_expand_buffer len n0 (t, h))"
    using sh_expand_realloc_grown [OF t(1) _ sz] sh_expand_new_grown [OF t(1) sz] c t(2) by (auto simp: sh_expand_buffer_def)
  have "sh_reserve_buffer len n0 (sb, h) = (if sh_free t < len then sh_expand_buffer len n0 (t, h) else Ret () (t, h))"
    using c(1) by (simp add: sh_reserve_buffer_def t_def)
  then show ?thesis using e t(1) by (auto simp: sh_grown_def sh_keeps_def sh_buffer_capacity_def not_less)
qed

section \<open>Runs\<close>

text \<open>What clients do: reserve room, take a part, skip bytes, drop the reference of the \<open>i\<close>-th part.\<close>

datatype sh_op = Reserve size_t size_t | Hold size_t | Skip size_t | Drop nat

fun sh_step :: "sh_op \<Rightarrow> part list \<times> shared_buffer \<times> heap \<Rightarrow> (unit, part list \<times> shared_buffer \<times> heap) outcome" where
  "sh_step (Reserve len n0) (H, s) =
     (case sh_reserve_buffer len n0 s of
        Ret _ s \<Rightarrow> Ret () (H, s) | Exn e s \<Rightarrow> Ret () (H, s) | Fault f \<Rightarrow> Fault f)"
| "sh_step (Hold len) (H, s) =
     (case sh_hold len s of
        Ret _ s' \<Rightarrow> Ret () (H @ [(sh_buffer (fst s), unat (sh_used (fst s)), unat (clip len (fst s)))], s')
      | Exn e s \<Rightarrow> Exn e (H, s) | Fault f \<Rightarrow> Fault f)"
| "sh_step (Skip len) (H, s) = Ret () (H, sh_skip len (fst s), snd s)"
| "sh_step (Drop i) (H, s) =
     (if i < length H then
        (case shref_clear (Some (fst (H ! i))) (snd s) of
           Ret _ h \<Rightarrow> Ret () (take i H @ drop (Suc i) H, fst s, h) | Exn e h \<Rightarrow> Exn e (H, fst s, h) | Fault f \<Rightarrow> Fault f)
      else Ret () (H, s))"

fun sh_run :: "sh_op list \<Rightarrow> part list \<times> shared_buffer \<times> heap \<Rightarrow> (unit, part list \<times> shared_buffer \<times> heap) outcome" where
  "sh_run [] s = Ret () s"
| "sh_run (op # ops) s = bind_outcome (sh_step op s) (\<lambda>_ s. sh_run ops s)"

fun sh_op_ok :: "sh_op \<Rightarrow> bool" where
  "sh_op_ok (Reserve len n0) = sh_modest len"
| "sh_op_ok _ = True"

lemma sh_step_inv:
  assumes "sh_inv H s" "sh_op_ok op" "length H < 4294967294"
  shows "\<exists>H' s'. sh_step op (H, s) = Ret () (H', s') \<and> sh_inv H' s' \<and> length H' \<le> Suc (length H) \<and>
     sh_keeps (filter (\<lambda>x. x \<in> set H) H') (snd s) (snd s')"
proof -
  obtain sb h where s: "s = (sb, h)" by fastforce
  show ?thesis
  proof (cases op)
    case (Reserve len n0)
    then have "sh_grown H len (sb, h) (sh_reserve_buffer len n0 (sb, h))" using assms s by (intro sh_reserve_grown) simp_all
    then obtain s' where g: "sh_reserve_buffer len n0 (sb, h) = Ret () s' \<or> sh_reserve_buffer len n0 (sb, h) = Exn Bad_alloc s'"
      "sh_inv H s'" "sh_keeps H h (snd s')" by (auto simp: sh_grown_def)
    then have "sh_step op (H, s) = Ret () (H, s')" using Reserve s by auto
    moreover have "filter (\<lambda>x. x \<in> set H) H = H" by simp
    ultimately show ?thesis using g s by auto
  next
    case (Hold len)
    then show ?thesis using sh_hold_inv [of H sb h len] assms s by (auto simp: sh_keeps_def)
  next
    case (Skip len)
    then show ?thesis using sh_skip_inv [of H sb h len] assms s by (auto simp: sh_keeps_def)
  next
    case (Drop i)
    show ?thesis
    proof (cases "i < length H")
      case True
      then have "H = take i H @ H ! i # drop (Suc i) H" by (rule id_take_nth_drop)
      then have "sh_inv (take i H @ H ! i # drop (Suc i) H) (sb, h)" using assms(1) s by simp
      from sh_drop_inv [OF this] obtain h' where h': "shref_clear (Some (fst (H ! i))) h = Ret None h'"
        "sh_inv (take i H @ drop (Suc i) H) (sb, h')" "sh_keeps (take i H @ drop (Suc i) H) h h'" by blast
      have "length (take i H @ drop (Suc i) H) \<le> Suc (length H)" by simp
      moreover have "sh_keeps (filter (\<lambda>x. x \<in> set H) (take i H @ drop (Suc i) H)) h h'"
        using h'(3) unfolding sh_keeps_def filter_append set_append set_filter by blast
      ultimately show ?thesis using h' Drop True s
        by (intro exI [of _ "take i H @ drop (Suc i) H"] exI [of _ "(sb, h')"]) simp
    next
      case False
      then show ?thesis using Drop s assms(1) by (auto simp: sh_keeps_def)
    qed
  qed
qed

text \<open>
  C18. However clients of a \<open>shared_buffer\<close> reserve room, hold parts, skip bytes and drop references, no
  operation runs into undefined behaviour, the counters match the references, every part that is still
  referenced lies in an allocated block before \<open>buffer()\<close>, and no two of them overlap: bytes that are
  held are never handed out a second time.
\<close>
theorem shared_buffer_regions:
  assumes "sh_inv H s" and "list_all sh_op_ok ops" and "length H + length ops < 4294967294"
  shows "\<exists>H' s'. sh_run ops (H, s) = Ret () (H', s') \<and> sh_inv H' s' \<and> sorted_wrt apart H' \<and>
     (\<forall>x\<in>set H'. blocks (snd s') (fst x) \<noteq> None)"
  using assms
proof (induction ops arbitrary: H s)
  case Nil
  have "blocks (snd s) (fst x) \<noteq> None" if "x \<in> set H" for x
    using Nil(1) that counted_alive by (fastforce simp: sh_inv_def)
  then show ?case using Nil by (auto simp: sh_inv_def)
next
  case (Cons op ops)
  from sh_step_inv [OF Cons.prems(1), of op] Cons.prems(2,3) obtain H1 s1 where
    1: "sh_step op (H, s) = Ret () (H1, s1)" "sh_inv H1 s1" "length H1 \<le> Suc (length H)" by auto
  from Cons.IH [OF 1(2)] Cons.prems(2,3) 1(3) show ?case using 1(1) by auto
qed

definition sample_shared :: "shared_buffer \<times> heap" where
  "sample_shared =
     (\<lparr>sh_buffer = 0, sh_used = 4, sh_free = 12\<rparr>,
      \<lparr>blocks = [0 \<mapsto> enc_u32 1 @ replicate 12 0], calls = 1, grants = (\<lambda>_ _. True), garbage = (\<lambda>_ _. 0)\<rparr>)"

lemma sample_shared_inv: "sh_inv [] sample_shared"
proof -
  have "get_u32 (enc_u32 1 @ replicate 12 0) 0 = 1" by code_simp
  then show ?thesis by (auto simp: sh_inv_def sample_shared_def counted_def block_counted_def)
qed

theorem shared_buffer_regions_witness:
  "\<exists>H' s'. sh_run [Hold 5, Hold 3, Skip 1] ([], sample_shared) = Ret () (H', s') \<and>
     H' = [(0, 4, 5), (0, 9, 3)] \<and> sorted_wrt apart H'"
proof -
  let ?ops = "[Hold 5, Hold 3, Skip 1]"
  have "length ([] :: part list) + length ?ops < 4294967294" "list_all sh_op_ok ?ops" by simp_all
  from shared_buffer_regions [OF sample_shared_inv this(2,1)] obtain H' s' where
    r: "sh_run ?ops ([], sample_shared) = Ret () (H', s')" "sorted_wrt apart H'" by blast
  have "case sh_run ?ops ([], sample_shared) of Ret u (H', s') \<Rightarrow> H' = [(0, 4, 5), (0, 9, 3)] | _ \<Rightarrow> False" by code_simp
  then show ?thesis using r by simp
qed

text \<open>Copying a reference that was default-constructed counts through the null pointer.\<close>

lemma shref_copy_null: "shref_copy shref_new h = Fault Null_deref"
  by (simp add: shref_copy_def shref_new_def incr_ptr_def)

end
