(* ===== verification/Xfer.thy ===== *)
theory Xfer
  imports Prelude
begin

text \<open>
  The transfer list of \<open>src/mpsrc/wavy_out.cc\<close>: \<open>xfer_impl\<close>'s encoding of pending output as a run of
  tagged records in one block of memory, the interpreter \<open>xfer_impl::execute\<close> that performs it on a
  file descriptor, and the public class \<open>xfer\<close> (\<open>src/mp/wavy.hmpl\<close>) that builds it. Output is
  described by atoms: one byte of a client's memory, one byte of a file, or one call of a
  finalizer. The system calls \<open>writev\<close> and \<open>sendfile\<close> answer from a script, a list of results
  chosen by the environment. \<open>decode\<close> reads a block back as a list of items and \<open>exec_items\<close> is the
  specification of \<open>execute\<close> on items.
\<close>

unbundle bit_operations_syntax

section \<open>Records of the transfer list\<close>

type_synonym xfer_type = u32

definition XF_IOVEC :: xfer_type where
  "XF_IOVEC = 0"

definition XF_SENDFILE :: xfer_type where
  "XF_SENDFILE = 1"

definition XF_FINALIZE :: xfer_type where
  "XF_FINALIZE = 3"

record xfer_sendfile =
  sf_infd :: u32
  sf_off :: u64
  sf_len :: size_t

record xfer_finalize =
  fz_finalize :: u64
  fz_user :: u64

text \<open>
  Sizes on LP64: a tag has 4 bytes, \<open>struct iovec\<close> 16, \<open>xfer_sendfile\<close> 24 (4 of them padding
  after \<open>infd\<close>) and \<open>xfer_finalize\<close> 16.
\<close>

definition sizeof_mem :: size_t where
  "sizeof_mem = 4 + 16 * 1"

definition sizeof_iovec :: "size_t \<Rightarrow> size_t" where
  "sizeof_iovec veclen = 4 + 16 * veclen"

definition sizeof_sendfile :: size_t where
  "sizeof_sendfile = 4 + 24"

definition sizeof_finalize :: size_t where
  "sizeof_finalize = 4 + 16"

text \<open>
  The \<open>fill\<close> functions return the bytes they store at \<open>from\<close>. The padding of \<open>xfer_sendfile\<close> is
  never read; it is stored as zero.
\<close>

definition fill_mem :: "u64 \<Rightarrow> size_t \<Rightarrow> mem" where
  "fill_mem buf sz = enc_u32 (push_bit 1 1) @ enc_u64 buf @ enc_u64 sz"

definition fill_iovec :: "mem \<Rightarrow> size_t \<Rightarrow> mem" where
  "fill_iovec vec veclen = enc_u32 (ucast (push_bit 1 veclen)) @ take (16 * unat veclen) vec"

definition fill_sendfile :: "u32 \<Rightarrow> u64 \<Rightarrow> size_t \<Rightarrow> mem" where
  "fill_sendfile infd off len = enc_u32 XF_SENDFILE @ enc_u32 infd @ enc_u32 0 @ enc_u64 off @ enc_u64 len"

definition fill_finalize :: "u64 \<Rightarrow> u64 \<Rightarrow> mem" where
  "fill_finalize fin user = enc_u32 XF_FINALIZE @ enc_u64 fin @ enc_u64 user"

text \<open>The array of \<open>struct iovec\<close> in memory.\<close>

definition iovec_bytes :: "(u64 \<times> size_t) list \<Rightarrow> mem" where
  "iovec_bytes vec = concat (map (\<lambda>(base, n). enc_u64 base @ enc_u64 n) vec)"

section \<open>Output\<close>

datatype atom = MemB u64 | FileB u32 u64 | Fin u64 u64

datatype sysret = Wrote nat | Failed errno

type_synonym io = "atom list \<times> sysret list"

text \<open>
  A write-like system call that is asked for \<open>req\<close> bytes: the kernel writes some of them, at
  most \<open>req\<close>, or fails. Beyond the end of the script the descriptor would block.
\<close>

fun sys_write :: "nat \<Rightarrow> sysret list \<Rightarrow> sysret \<times> sysret list" where
  "sys_write req [] = (Failed EAGAIN, [])"
| "sys_write req (Wrote n # s) = (Wrote (min n req), s)"
| "sys_write req (Failed e # s) = (Failed e, s)"

definition mem_atoms :: "u64 \<Rightarrow> size_t \<Rightarrow> atom list" where
  "mem_atoms base n = map (\<lambda>k. MemB (base + of_nat k)) [0..<unat n]"

definition file_atoms :: "u32 \<Rightarrow> u64 \<Rightarrow> size_t \<Rightarrow> atom list" where
  "file_atoms fd pos n = map (\<lambda>k. FileB fd (pos + of_nat k)) [0..<unat n]"

definition fin_atoms :: "u64 \<Rightarrow> u64 \<Rightarrow> atom list" where
  "fin_atoms f u = (if f = 0 then [] else [Fin f u])"

section \<open>The interpreter\<close>

text \<open>\<open>vec[i]\<close> of the iovec array at offset \<open>v\<close>.\<close>

definition iov_base :: "mem \<Rightarrow> nat \<Rightarrow> nat \<Rightarrow> u64" where
  "iov_base b v i = get_u64 b (v + 16 * i)"

definition iov_len :: "mem \<Rightarrow> nat \<Rightarrow> nat \<Rightarrow> size_t" where
  "iov_len b v i = get_u64 b (v + 16 * i + 8)"

definition iov_atoms :: "mem \<Rightarrow> nat \<Rightarrow> nat \<Rightarrow> atom list" where
  "iov_atoms b v n = concat (map (\<lambda>i. mem_atoms (iov_base b v i) (iov_len b v i)) [0..<n])"

text \<open>
  The loop that subtracts the written bytes from the vector: \<open>None\<close> when every entry was
  written, otherwise the entry \<open>i\<close> that was cut and the bytes of it that were written.
\<close>

function iov_advance :: "mem \<Rightarrow> nat \<Rightarrow> nat \<Rightarrow> nat \<Rightarrow> nat \<Rightarrow> (nat \<times> nat) option" where
  "iov_advance b v veclen i wl =
     (if i < veclen
      then if unat (iov_len b v i) \<le> wl then iov_advance b v veclen (Suc i) (wl - unat (iov_len b v i))
           else Some (i, wl)
      else None)"
  by pat_completeness auto
termination
  by (relation "measure (\<lambda>(b, v, n, i, wl). n - i)") auto

declare iov_advance.simps [simp del]

text \<open>\<open>MP_WAVY_XFER_CONSUMED\<close>: what is left from \<open>p\<close> moves to the head.\<close>

definition consumed :: "mem \<Rightarrow> nat \<Rightarrow> mem" where
  "consumed b p = drop p b"

definition would_block :: "errno \<Rightarrow> bool" where
  "would_block e \<longleftrightarrow> e = EAGAIN \<or> e = EINTR"

definition put_u64 :: "nat \<Rightarrow> u64 \<Rightarrow> mem \<Rightarrow> mem" where
  "put_u64 p x b = patch p (enc_u64 x) b"

text \<open>
  \<open>xfer_impl::execute\<close> on the bytes between \<open>head\<close> and \<open>*tail\<close>. The result is the return value
  and the bytes that remain there. A record that reaches beyond \<open>*tail\<close> would be read out of
  bounds.
\<close>

function execute_from :: "mem \<Rightarrow> nat \<Rightarrow> io \<Rightarrow> (bool \<times> mem, io) outcome" where
  "execute_from b p io =
     (if p < length b then
        if length b < p + 4 then Fault Out_of_bounds else
        let tag = get_u32 b p; (tr, sc) = io in
        if tag = XF_SENDFILE then
          if length b < p + unat sizeof_sendfile then Fault Out_of_bounds else
          let x = \<lparr>sf_infd = get_u32 b (p + 4), sf_off = get_u64 b (p + 12), sf_len = get_u64 b (p + 20)\<rparr> in
          (case sys_write (unat (sf_len x)) sc of
             (Failed e, sc) \<Rightarrow> Ret (would_block e, consumed b p) (tr, sc)
           | (Wrote wl, sc) \<Rightarrow>
               if wl = 0 then Ret (False, consumed b p) (tr, sc)
               else let tr = tr @ take wl (file_atoms (sf_infd x) (sf_off x) (sf_len x)) in
                 if wl < unat (sf_len x)
                 then Ret (True, consumed (put_u64 (p + 20) (sf_len x - of_nat wl)
                                           (put_u64 (p + 12) (sf_off x + of_nat wl) b)) p) (tr, sc)
                 else execute_from b (p + unat sizeof_sendfile) (tr, sc))
        else if tag = XF_FINALIZE then
          if length b < p + unat sizeof_finalize then Fault Out_of_bounds else
          let x = \<lparr>fz_finalize = get_u64 b (p + 4), fz_user = get_u64 b (p + 12)\<rparr> in
          execute_from b (p + unat sizeof_finalize) (tr @ fin_atoms (fz_finalize x) (fz_user x), sc)
        else
          let veclen = unat (drop_bit 1 tag); v = p + 4 in
          if length b < v + 16 * veclen then Fault Out_of_bounds else
          (case sys_write (length (iov_atoms b v veclen)) sc of
             (Failed e, sc) \<Rightarrow> Ret (would_block e, consumed b p) (tr, sc)
           | (Wrote wl, sc) \<Rightarrow>
               if wl = 0 then Ret (False, consumed b p) (tr, sc)
               else let tr = tr @ take wl (iov_atoms b v veclen) in
                 (case iov_advance b v veclen 0 wl of
                    None \<Rightarrow> execute_from b (v + 16 * veclen) (tr, sc)
                  | Some (i, wl) \<Rightarrow>
                      let b' = put_u64 (v + 16 * i + 8) (iov_len b v i - of_nat wl)
                                 (put_u64 (v + 16 * i) (iov_base b v i + of_nat wl) b) in
                      if i = 0 then Ret (True, consumed b' p) (tr, sc)
                      else Ret (True, fill_iovec (drop (v + 16 * i) b') (of_nat (veclen - i))
                                      @ drop (v + 16 * veclen) b') (tr, sc)))
      else Ret (False, []) io)"
  by pat_completeness auto
termination
  by (relation "measure (\<lambda>(b, p, io). length b - p)") (auto simp: sizeof_sendfile_def sizeof_finalize_def)

declare execute_from.simps [simp del]

definition execute :: "mem \<Rightarrow> io \<Rightarrow> (bool \<times> mem, io) outcome" where
  "execute b io = execute_from b 0 io"


section \<open>Items: what a transfer list means\<close>

datatype item = Iovec "(u64 \<times> size_t) list" | Sendfile u32 u64 size_t | Finalize u64 u64

primrec item_atoms :: "item \<Rightarrow> atom list" where
  "item_atoms (Iovec vec) = concat (map (\<lambda>(base, n). mem_atoms base n) vec)"
| "item_atoms (Sendfile fd pos n) = file_atoms fd pos n"
| "item_atoms (Finalize f u) = fin_atoms f u"

definition atoms :: "item list \<Rightarrow> atom list" where
  "atoms its = concat (map item_atoms its)"

definition parse_iovs :: "mem \<Rightarrow> nat \<Rightarrow> nat \<Rightarrow> (u64 \<times> size_t) list" where
  "parse_iovs b v n = map (\<lambda>i. (iov_base b v i, iov_len b v i)) [0..<n]"

text \<open>The first record of a block and the bytes after it.\<close>

definition parse_item :: "mem \<Rightarrow> (item \<times> mem) option" where
  "parse_item b =
     (if length b < 4 then None else
      let tag = get_u32 b 0 in
      if tag = XF_SENDFILE then
        if length b < 28 then None
        else Some (Sendfile (get_u32 b 4) (get_u64 b 12) (get_u64 b 20), drop 28 b)
      else if tag = XF_FINALIZE then
        if length b < 20 then None
        else Some (Finalize (get_u64 b 4) (get_u64 b 12), drop 20 b)
      else let n = unat (drop_bit 1 tag) in
        if length b < 4 + 16 * n then None
        else Some (Iovec (parse_iovs b 4 n), drop (4 + 16 * n) b))"

lemma parse_item_shorter: "parse_item b = Some (it, r) \<Longrightarrow> length r < length b"
  by (auto simp: parse_item_def Let_def split: if_splits)

function decode :: "mem \<Rightarrow> item list option" where
  "decode b =
     (if b = [] then Some []
      else case parse_item b of
             None \<Rightarrow> None
           | Some (it, r) \<Rightarrow> map_option ((#) it) (decode r))"
  by pat_completeness auto
termination
  by (relation "measure length") (auto dest: parse_item_shorter)

declare decode.simps [simp del]

lemma decode_Nil [simp]: "decode [] = Some []"
  by (simp add: decode.simps)

lemma decode_parse:
  "parse_item b = Some (it, r) \<Longrightarrow> decode b = map_option ((#) it) (decode r)"
  by (subst decode.simps) (auto simp: parse_item_def)

text \<open>What is left of an item after the first \<open>n\<close> of its bytes are written.\<close>

fun drop_iov :: "nat \<Rightarrow> (u64 \<times> size_t) list \<Rightarrow> (u64 \<times> size_t) list" where
  "drop_iov n [] = []"
| "drop_iov n ((base, l) # vec) =
     (if unat l \<le> n then drop_iov (n - unat l) vec else (base + of_nat n, l - of_nat n) # vec)"

primrec item_drop :: "nat \<Rightarrow> item \<Rightarrow> item" where
  "item_drop n (Iovec vec) = Iovec (drop_iov n vec)"
| "item_drop n (Sendfile fd pos l) = Sendfile fd (pos + of_nat n) (l - of_nat n)"
| "item_drop n (Finalize f u) = Finalize f u"

text \<open>One write call for a data item; whether to go on, what is left of the item, what was written.\<close>

fun exec_items :: "item list \<Rightarrow> io \<Rightarrow> bool \<times> item list \<times> io" where
  "exec_items [] io = (False, [], io)"
| "exec_items (it # its) (tr, sc) =
     (case it of
        Finalize f u \<Rightarrow> exec_items its (tr @ fin_atoms f u, sc)
      | _ \<Rightarrow>
          (case sys_write (length (item_atoms it)) sc of
             (Failed e, sc) \<Rightarrow> (would_block e, it # its, (tr, sc))
           | (Wrote n, sc) \<Rightarrow>
               if n = 0 then (False, it # its, (tr, sc))
               else if n < length (item_atoms it)
               then (True, item_drop n it # its, (tr @ take n (item_atoms it), sc))
               else exec_items its (tr @ item_atoms it, sc)))"

section \<open>Round trip\<close>

lemma chunk_drop: "chunk p n (drop q b) = chunk (q + p) n b"
  by (simp add: chunk_def add.commute)

lemma get_drop [simp]: "get_u32 (drop q b) p = get_u32 b (q + p)" "get_u64 (drop q b) p = get_u64 b (q + p)"
  by (simp_all add: get_u32_def get_u64_def chunk_drop)

lemma get_u32_append [simp]: "get_u32 (enc_u32 x @ r) 0 = x"
  by (simp add: get_u32_def chunk_def)

lemma get_u64_append [simp]: "get_u64 (enc_u64 x @ r) 0 = x"
  by (simp add: get_u64_def chunk_def)

lemma get_skip:
  "length a \<le> p \<Longrightarrow> get_u32 (a @ b) p = get_u32 b (p - length a)"
  "length a \<le> p \<Longrightarrow> get_u64 (a @ b) p = get_u64 b (p - length a)"
  by (simp_all add: get_u32_def get_u64_def chunk_def)

lemma length_iovec_bytes [simp]: "length (iovec_bytes vec) = 16 * length vec"
  by (induction vec) (auto simp: iovec_bytes_def)

lemma parse_iovs_bytes: "length pre = v \<Longrightarrow> parse_iovs (pre @ iovec_bytes vec @ r) v (length vec) = vec"
proof (induction vec arbitrary: pre v)
  case Nil
  then show ?case by (simp add: parse_iovs_def)
next
  case (Cons x vec)
  obtain base n where x: "x = (base, n)" by (cases x)
  let ?pre = "pre @ enc_u64 base @ enc_u64 n"
  let ?b = "pre @ iovec_bytes (x # vec) @ r"
  have split: "?b = ?pre @ iovec_bytes vec @ r" by (simp add: iovec_bytes_def x)
  have "parse_iovs ?b v (length (x # vec)) =
      (iov_base ?b v 0, iov_len ?b v 0) # parse_iovs ?b (v + 16) (length vec)"
    by (simp add: parse_iovs_def upt_conv_Cons map_Suc_upt [symmetric] iov_base_def iov_len_def
        add.assoc del: upt_Suc)
  moreover have "parse_iovs ?b (v + 16) (length vec) = vec"
    unfolding split using Cons.prems by (intro Cons.IH) simp
  moreover have "iov_base ?b v 0 = base" "iov_len ?b v 0 = n"
    using Cons.prems by (simp_all add: iov_base_def iov_len_def iovec_bytes_def x get_skip)
  ultimately show ?case by (simp add: x)
qed


lemma unat_tag:
  "n < 2147483648 \<Longrightarrow> unat (ucast (push_bit 1 (of_nat n :: size_t)) :: u32) = 2 * n"
  by (simp add: unsigned_ucast_eq push_bit_eq_mult take_bit_eq_mod unat_word_ariths unat_of_nat)

lemma unat_veclen [simp]: "unat (drop_bit (Suc 0) (x :: u32)) = unat x div 2"
  by (simp add: drop_bit_eq_div unat_div_distrib)

lemma even_tag: "unat (x :: u32) = 2 * n \<Longrightarrow> x \<noteq> XF_SENDFILE \<and> x \<noteq> XF_FINALIZE"
  by (auto simp: XF_SENDFILE_def XF_FINALIZE_def) presburger+

lemma tags [simp]: "XF_FINALIZE \<noteq> XF_SENDFILE" "XF_SENDFILE \<noteq> XF_FINALIZE"
  by (simp_all add: XF_SENDFILE_def XF_FINALIZE_def)

definition iovec_tag :: "u32 \<Rightarrow> nat \<Rightarrow> bool" where
  "iovec_tag x n \<longleftrightarrow> x \<noteq> XF_SENDFILE \<and> x \<noteq> XF_FINALIZE \<and> unat x div 2 = n"

lemma iovec_tag_fill: "n < 2147483648 \<Longrightarrow> iovec_tag (ucast (push_bit 1 (of_nat n :: size_t))) n"
  using unat_tag [of n] even_tag by (simp add: iovec_tag_def)

lemma parse_iovec:
  "iovec_tag (get_u32 b 0) n \<Longrightarrow> 4 + 16 * n \<le> length b \<Longrightarrow>
     parse_item b = Some (Iovec (parse_iovs b 4 n), drop (4 + 16 * n) b)"
  by (simp add: parse_item_def Let_def iovec_tag_def)

lemma decode_fill_iovec [simp]:
  assumes "length vec < 2147483648"
  shows "decode (fill_iovec (iovec_bytes vec) (of_nat (length vec)) @ r) = map_option ((#) (Iovec vec)) (decode r)"
proof -
  let ?t = "enc_u32 (ucast (push_bit 1 (of_nat (length vec) :: size_t)))"
  have n: "unat (of_nat (length vec) :: size_t) = length vec" using assms by (simp add: size_simps)
  have b: "fill_iovec (iovec_bytes vec) (of_nat (length vec)) @ r = ?t @ iovec_bytes vec @ r"
    by (simp add: fill_iovec_def n)
  have "parse_item (?t @ iovec_bytes vec @ r) = Some (Iovec vec, r)"
    using parse_iovec [of "?t @ iovec_bytes vec @ r" "length vec"] iovec_tag_fill [OF assms]
    by (simp add: parse_iovs_bytes)
  then show ?thesis unfolding b by (rule decode_parse)
qed

lemma fill_mem_iovec: "fill_mem buf sz = fill_iovec (iovec_bytes [(buf, sz)]) (of_nat (length [(buf, sz)]))"
  by (simp add: fill_mem_def fill_iovec_def iovec_bytes_def)

lemma decode_fill_mem [simp]: "decode (fill_mem buf sz @ r) = map_option ((#) (Iovec [(buf, sz)])) (decode r)"
  unfolding fill_mem_iovec by (rule decode_fill_iovec) simp

lemma decode_fill_sendfile [simp]:
  "decode (fill_sendfile fd pos n @ r) = map_option ((#) (Sendfile fd pos n)) (decode r)"
  by (rule decode_parse) (simp add: parse_item_def fill_sendfile_def get_skip)

lemma decode_fill_finalize [simp]:
  "decode (fill_finalize f u @ r) = map_option ((#) (Finalize f u)) (decode r)"
  by (rule decode_parse) (simp add: parse_item_def fill_finalize_def get_skip)

lemma get_append_left:
  "p + 4 \<le> length a \<Longrightarrow> get_u32 (a @ b) p = get_u32 a p"
  "p + 8 \<le> length a \<Longrightarrow> get_u64 (a @ b) p = get_u64 a p"
  by (simp_all add: get_u32_def get_u64_def chunk_append_left)

lemma parse_iovs_append: "v + 16 * n \<le> length a \<Longrightarrow> parse_iovs (a @ b) v n = parse_iovs a v n"
  by (auto simp: parse_iovs_def iov_base_def iov_len_def get_append_left)

lemma parse_item_append: "parse_item a = Some (it, r) \<Longrightarrow> parse_item (a @ b) = Some (it, r @ b)"
  by (auto simp: parse_item_def Let_def get_append_left parse_iovs_append split: if_splits)

lemma decode_append: "decode a = Some its \<Longrightarrow> decode (a @ b) = map_option ((@) its) (decode b)"
proof (induction a arbitrary: its rule: decode.induct)
  case (1 a)
  show ?case
  proof (cases "a = []")
    case True
    then show ?thesis using "1.prems" by (simp add: option.map_ident)
  next
    case False
    then obtain it r where p: "parse_item a = Some (it, r)"
      using "1.prems" by (subst (asm) decode.simps) (auto split: option.splits)
    then obtain rest where r: "decode r = Some rest" "its = it # rest"
      using "1.prems" by (auto simp: decode_parse)
    from "1.IH" [OF False p refl r(1)] r(2) show ?thesis
      using decode_parse [OF parse_item_append [OF p], of b] by (simp add: option.map_comp comp_def)
  qed
qed


section \<open>Items lose their bytes from the front\<close>

lemma length_mem_atoms [simp]: "length (mem_atoms base n) = unat n"
  by (simp add: mem_atoms_def)

lemma length_file_atoms [simp]: "length (file_atoms fd pos n) = unat n"
  by (simp add: file_atoms_def)

lemma drop_mem_atoms:
  "k \<le> unat n \<Longrightarrow> drop k (mem_atoms base n) = mem_atoms (base + of_nat k) (n - of_nat k)"
proof -
  assume k: "k \<le> unat n"
  then have "unat (of_nat k :: size_t) = k" using unat_lt_64 [of n] by (simp add: size_simps del: unat_lt_64)
  then have "unat (n - of_nat k) = unat n - k" using k by (simp add: size_simps)
  then show ?thesis using k by (auto simp: mem_atoms_def intro!: nth_equalityI)
qed

lemma drop_file_atoms:
  "k \<le> unat n \<Longrightarrow> drop k (file_atoms fd pos n) = file_atoms fd (pos + of_nat k) (n - of_nat k)"
proof -
  assume k: "k \<le> unat n"
  then have "unat (of_nat k :: size_t) = k" using unat_lt_64 [of n] by (simp add: size_simps del: unat_lt_64)
  then have "unat (n - of_nat k) = unat n - k" using k by (simp add: size_simps)
  then show ?thesis using k by (auto simp: file_atoms_def intro!: nth_equalityI)
qed

lemma drop_iov_atoms: "item_atoms (Iovec (drop_iov n vec)) = drop n (item_atoms (Iovec vec))"
  by (induction n vec rule: drop_iov.induct) (auto simp: drop_mem_atoms)

lemma item_drop_atoms:
  "n < length (item_atoms it) \<Longrightarrow> \<forall>f u. it \<noteq> Finalize f u \<Longrightarrow> item_atoms (item_drop n it) = drop n (item_atoms it)"
  by (cases it) (simp_all add: drop_iov_atoms [simplified] drop_file_atoms)

text \<open>
  The specification of the interpreter: what it outputs followed by what is left pending is what
  was pending, whatever the system calls answer; and it asks to be called again only with
  something left.
\<close>

lemma exec_items_conserves:
  "exec_items its (tr, sc) = (c, its', (tr', sc')) \<Longrightarrow> tr' @ atoms its' = tr @ atoms its \<and> (c \<longrightarrow> its' \<noteq> [])"
proof (induction its arbitrary: tr sc)
  case Nil
  then show ?case by simp
next
  case (Cons it its)
  show ?case
  proof (cases "\<exists>f u. it = Finalize f u")
    case True
    then obtain f u where it: "it = Finalize f u" by blast
    then have "exec_items its (tr @ fin_atoms f u, sc) = (c, its', (tr', sc'))" using Cons.prems by simp
    from Cons.IH [OF this] it show ?thesis by (simp add: atoms_def)
  next
    case False
    obtain r sc1 where w: "sys_write (length (item_atoms it)) sc = (r, sc1)" by fastforce
    from False have run: "exec_items (it # its) (tr, sc) =
      (case r of
         Failed e \<Rightarrow> (would_block e, it # its, (tr, sc1))
       | Wrote n \<Rightarrow> if n = 0 then (False, it # its, (tr, sc1))
           else if n < length (item_atoms it)
           then (True, item_drop n it # its, (tr @ take n (item_atoms it), sc1))
           else exec_items its (tr @ item_atoms it, sc1))"
      using w by (cases it) (auto split: sysret.split)
    show ?thesis
      using Cons.prems run False item_drop_atoms [of _ it] Cons.IH [of "tr @ item_atoms it" sc1]
      by (auto simp: atoms_def split: sysret.splits if_splits)
  qed
qed

section \<open>The interpreter refines the items\<close>

lemma iov_atoms_parse: "iov_atoms b v n = item_atoms (Iovec (parse_iovs b v n))"
  by (simp add: iov_atoms_def parse_iovs_def comp_def)

lemma length_parse_iovs [simp]: "length (parse_iovs b v n) = n"
  by (simp add: parse_iovs_def)

lemma drop_parse_iovs: "drop i (parse_iovs b v n) = map (\<lambda>i. (iov_base b v i, iov_len b v i)) [i..<n]"
  by (simp add: parse_iovs_def drop_map)

text \<open>The advance loop finds the entry at which the written bytes end.\<close>

lemma iov_advance_drop:
  "i \<le> n \<Longrightarrow>
   (case iov_advance b v n i wl of
      None \<Rightarrow> drop_iov wl (drop i (parse_iovs b v n)) = []
    | Some (j, w) \<Rightarrow> i \<le> j \<and> j < n \<and> w < unat (iov_len b v j) \<and>
        drop_iov wl (drop i (parse_iovs b v n)) =
          (iov_base b v j + of_nat w, iov_len b v j - of_nat w) # drop (Suc j) (parse_iovs b v n))"
proof (induction b v n i wl rule: iov_advance.induct)
  case (1 b v n i wl)
  show ?case
  proof (cases "i < n")
    case False
    then show ?thesis by (simp add: iov_advance.simps [of b v n i wl] drop_parse_iovs)
  next
    case True
    then have d: "drop i (parse_iovs b v n) = (iov_base b v i, iov_len b v i) # drop (Suc i) (parse_iovs b v n)"
      by (simp add: drop_parse_iovs upt_conv_Cons)
    show ?thesis
    proof (cases "unat (iov_len b v i) \<le> wl")
      case le: True
      with "1.IH" [OF True le] True show ?thesis
        by (auto simp: iov_advance.simps [of b v n i wl] d split: option.splits)
    next
      case False
      with True show ?thesis by (simp add: iov_advance.simps [of b v n i wl] d)
    qed
  qed
qed

lemma drop_iov_all: "drop_iov n vec = [] \<longleftrightarrow> length (item_atoms (Iovec vec)) \<le> n"
  by (induction n vec rule: drop_iov.induct) auto


text \<open>Storing into a record.\<close>

lemma length_put_u64 [simp]: "p + 8 \<le> length b \<Longrightarrow> length (put_u64 p x b) = length b"
  by (simp add: put_u64_def length_patch)

lemma drop_put_u64: "q + k + 8 \<le> length b \<Longrightarrow> drop q (put_u64 (q + k) x b) = put_u64 k x (drop q b)"
  by (simp add: put_u64_def patch_def drop_take ac_simps)

lemma drop_after_put_u64: "p + 8 \<le> q \<Longrightarrow> q \<le> length b \<Longrightarrow> drop q (put_u64 p x b) = drop q b"
  by (simp add: put_u64_def patch_def)

lemma get_put_u64 [simp]: "p + 8 \<le> length b \<Longrightarrow> get_u64 (put_u64 p x b) p = x"
  using chunk_patch_same [of p "enc_u64 x" b] by (simp add: get_u64_def put_u64_def)

lemma get_put_other:
  "p + 8 \<le> length b \<Longrightarrow> q + 8 \<le> length b \<Longrightarrow> q + 8 \<le> p \<or> p + 8 \<le> q \<Longrightarrow> get_u64 (put_u64 p x b) q = get_u64 b q"
  "p + 8 \<le> length b \<Longrightarrow> q + 4 \<le> length b \<Longrightarrow> q + 4 \<le> p \<or> p + 8 \<le> q \<Longrightarrow> get_u32 (put_u64 p x b) q = get_u32 b q"
  by (simp_all add: get_u64_def get_u32_def put_u64_def chunk_patch_other)

lemma sys_write_bound: "sys_write k sc = (Wrote n, sc') \<Longrightarrow> n \<le> k"
  by (induction k sc rule: sys_write.induct) auto

lemma parse_put_sendfile:
  assumes "parse_item c = Some (Sendfile fd pos l, r)"
  shows "parse_item (put_u64 20 l' (put_u64 12 pos' c)) = Some (Sendfile fd pos' l', r)"
proof -
  have c: "28 \<le> length c" "get_u32 c 0 = XF_SENDFILE" "get_u32 c 4 = fd" "r = drop 28 c"
    using assms by (auto simp: parse_item_def Let_def split: if_splits)
  then show ?thesis
    by (simp add: parse_item_def get_put_other drop_after_put_u64)
qed

lemma parse_iovs_put:
  assumes "j < n" and "v + 16 * n \<le> length c"
  shows "parse_iovs (put_u64 (v + 16 * j + 8) l (put_u64 (v + 16 * j) ba c)) v n =
         (parse_iovs c v n)[j := (ba, l)]"
proof (rule nth_equalityI)
  fix i assume "i < length (parse_iovs (put_u64 (v + 16 * j + 8) l (put_u64 (v + 16 * j) ba c)) v n)"
  then have i: "i < n" by simp
  have fit: "v + 16 * j + 16 \<le> length c" "v + 16 * i + 16 \<le> length c" using assms i by auto
  show "parse_iovs (put_u64 (v + 16 * j + 8) l (put_u64 (v + 16 * j) ba c)) v n ! i =
      (parse_iovs c v n)[j := (ba, l)] ! i"
  proof (cases "i = j")
    case True
    then show ?thesis using fit assms(1)
      by (simp add: parse_iovs_def iov_base_def iov_len_def get_put_other)
  next
    case False
    then have "i < j \<or> j < i" by auto
    then show ?thesis using fit i
      by (auto simp: parse_iovs_def iov_base_def iov_len_def get_put_other)
  qed
qed simp

lemma parse_iovec_prefix:
  assumes "iovec_tag (get_u32 c 0) n" and "4 + 16 * n \<le> length c" and "j < n"
    and vs: "drop_iov wl (parse_iovs c 4 n) = (ba, l) # drop (Suc j) (parse_iovs c 4 n)"
    and c': "c' = put_u64 (4 + 16 * j + 8) l (put_u64 (4 + 16 * j) ba c)"
  shows "parse_item (if j = 0 then c' else fill_iovec (drop (4 + 16 * j) c') (of_nat (n - j)) @ drop (4 + 16 * n) c')
           = Some (Iovec (drop_iov wl (parse_iovs c 4 n)), drop (4 + 16 * n) c)"
proof -
  have len: "length c' = length c" using assms(2,3) by (simp add: c')
  have ps: "parse_iovs c' 4 n = (parse_iovs c 4 n)[j := (ba, l)]"
    unfolding c' using assms(2,3) by (intro parse_iovs_put) auto
  then have tail: "drop j (parse_iovs c' 4 n) = drop_iov wl (parse_iovs c 4 n)"
    using assms(3) vs by (simp add: drop_update_swap Cons_nth_drop_Suc [symmetric])
  have rest: "drop (4 + 16 * n) c' = drop (4 + 16 * n) c"
    using assms(2,3) by (simp add: c' drop_after_put_u64)
  show ?thesis
  proof (cases "j = 0")
    case True
    then have "iovec_tag (get_u32 c' 0) n" using assms by (simp add: c' get_put_other)
    then show ?thesis using True parse_iovec [of c' n] len assms(2) tail rest by simp
  next
    case False
    have n31: "n < 2147483648" using assms(1) unat_lt_32 [of "get_u32 c 0"]
      by (auto simp: iovec_tag_def simp del: unat_lt_32)
    let ?t = "enc_u32 (ucast (push_bit 1 (of_nat (n - j) :: size_t)))"
    let ?d = "?t @ take (16 * (n - j)) (drop (4 + 16 * j) c') @ drop (4 + 16 * n) c'"
    have "unat (of_nat (n - j) :: size_t) = n - j" using n31 by (simp add: size_simps)
    then have d: "fill_iovec (drop (4 + 16 * j) c') (of_nat (n - j)) @ drop (4 + 16 * n) c' = ?d"
      by (simp add: fill_iovec_def)
    have ld: "length (take (16 * (n - j)) (drop (4 + 16 * j) c')) = 16 * (n - j)"
      using len assms(2,3) by auto
    have "parse_item ?d = Some (Iovec (parse_iovs ?d 4 (n - j)), drop (4 + 16 * (n - j)) ?d)"
      using ld iovec_tag_fill [of "n - j"] n31 by (intro parse_iovec) auto
    moreover have "drop (4 + 16 * (n - j)) ?d = drop (4 + 16 * n) c" using ld rest by simp
    moreover have "parse_iovs ?d 4 (n - j) = drop j (parse_iovs c' 4 n)"
    proof (rule nth_equalityI)
      fix i assume "i < length (parse_iovs ?d 4 (n - j))"
      then have i: "i < n - j" by simp
      have "get_u64 ?d (4 + 16 * i + k) = get_u64 c' (4 + 16 * (j + i) + k)" if "k \<le> 8" for k
        using i that ld
        by (simp add: get_skip get_append_left get_u64_def chunk_append_left)
           (simp add: chunk_def take_drop algebra_simps)
      moreover have "j + i < n" using i by simp
      ultimately show "parse_iovs ?d 4 (n - j) ! i = drop j (parse_iovs c' 4 n) ! i"
        using i by (fastforce simp: parse_iovs_def iov_base_def iov_len_def)
    qed simp
    ultimately show ?thesis using False d tail by simp
  qed
qed


lemma sizeof_simps [simp]: "unat sizeof_sendfile = 28" "unat sizeof_finalize = 20" "unat sizeof_mem = 20"
  by (simp_all add: sizeof_sendfile_def sizeof_finalize_def sizeof_mem_def)

lemma execute_finalize:
  assumes "parse_item (drop p b) = Some (Finalize f u, r)"
  shows "r = drop (p + 20) b \<and> execute_from b p (tr, sc) = execute_from b (p + 20) (tr @ fin_atoms f u, sc)"
proof -
  have c: "p + 20 \<le> length b" "get_u32 b p = XF_FINALIZE" "get_u64 b (p + 4) = f" "get_u64 b (p + 12) = u"
    "r = drop (p + 20) b"
    using assms by (auto simp: parse_item_def Let_def add.commute split: if_splits)
  then show ?thesis by (subst execute_from.simps) simp
qed

text \<open>What one data record does, in terms of its item.\<close>

definition data_step :: "mem \<Rightarrow> nat \<Rightarrow> item \<Rightarrow> mem \<Rightarrow> atom list \<Rightarrow> sysret list \<Rightarrow> bool" where
  "data_step b p it r tr sc \<longleftrightarrow>
     (case sys_write (length (item_atoms it)) sc of
        (Failed e, sc') \<Rightarrow> execute_from b p (tr, sc) = Ret (would_block e, drop p b) (tr, sc')
      | (Wrote n, sc') \<Rightarrow>
          if n = 0 then execute_from b p (tr, sc) = Ret (False, drop p b) (tr, sc')
          else if n < length (item_atoms it)
          then \<exists>b'. execute_from b p (tr, sc) = Ret (True, b') (tr @ take n (item_atoms it), sc') \<and>
                    parse_item b' = Some (item_drop n it, r)
          else \<exists>q. q \<le> length b \<and> r = drop q b \<and>
                   execute_from b p (tr, sc) = execute_from b q (tr @ item_atoms it, sc'))"

lemma execute_sendfile:
  assumes "parse_item (drop p b) = Some (Sendfile fd pos l, r)"
  shows "data_step b p (Sendfile fd pos l) r tr sc"
proof -
  have c: "p + 28 \<le> length b" "get_u32 b p = XF_SENDFILE" "get_u32 b (p + 4) = fd"
    "get_u64 b (p + 12) = pos" "get_u64 b (p + 20) = l" "r = drop (p + 28) b"
    using assms by (auto simp: parse_item_def Let_def add.commute split: if_splits)
  obtain w sc' where w: "sys_write (unat l) sc = (w, sc')" by fastforce
  have run: "execute_from b p (tr, sc) =
      (case w of
         Failed e \<Rightarrow> Ret (would_block e, drop p b) (tr, sc')
       | Wrote n \<Rightarrow>
           if n = 0 then Ret (False, drop p b) (tr, sc')
           else if n < unat l
           then Ret (True, drop p (put_u64 (p + 20) (l - of_nat n) (put_u64 (p + 12) (pos + of_nat n) b)))
                  (tr @ take n (file_atoms fd pos l), sc')
           else execute_from b (p + 28) (tr @ take n (file_atoms fd pos l), sc'))"
    using c w by (subst execute_from.simps) (simp add: consumed_def split: sysret.split)
  have "parse_item (drop p (put_u64 (p + 20) (l - of_nat n) (put_u64 (p + 12) (pos + of_nat n) b))) =
      Some (Sendfile fd (pos + of_nat n) (l - of_nat n), r)" for n
    using c(1) parse_put_sendfile [OF assms] by (simp add: drop_put_u64)
  then show ?thesis using run w c(1,6) by (auto simp: data_step_def split: sysret.split)
qed

lemma execute_iovec:
  assumes "parse_item (drop p b) = Some (Iovec vec, r)"
  shows "data_step b p (Iovec vec) r tr sc"
proof -
  let ?c = "drop p b"
  define n where "n = unat (get_u32 b p) div 2"
  have c: "p + 4 + 16 * n \<le> length b" "iovec_tag (get_u32 b p) n"
    "vec = parse_iovs ?c 4 n" "r = drop (p + 4 + 16 * n) b"
    using assms by (auto simp: parse_item_def Let_def n_def iovec_tag_def ac_simps split: if_splits)
  have vec: "vec = parse_iovs b (p + 4) n"
    by (simp add: c(3) parse_iovs_def iov_base_def iov_len_def add.assoc)
  have at: "iov_atoms b (p + 4) n = item_atoms (Iovec vec)" unfolding vec by (rule iov_atoms_parse)
  obtain w sc' where w: "sys_write (length (item_atoms (Iovec vec))) sc = (w, sc')" by fastforce
  define cut where "cut = (\<lambda>(i, k). put_u64 (p + 4 + 16 * i + 8) (iov_len b (p + 4) i - of_nat k)
    (put_u64 (p + 4 + 16 * i) (iov_base b (p + 4) i + of_nat k) b))"
  have run: "execute_from b p (tr, sc) =
      (case w of
         Failed e \<Rightarrow> Ret (would_block e, drop p b) (tr, sc')
       | Wrote m \<Rightarrow>
           if m = 0 then Ret (False, drop p b) (tr, sc')
           else case iov_advance b (p + 4) n 0 m of
                  None \<Rightarrow> execute_from b (p + 4 + 16 * n) (tr @ take m (item_atoms (Iovec vec)), sc')
                | Some (i, k) \<Rightarrow>
                    Ret (True, if i = 0 then drop p (cut (i, k))
                               else fill_iovec (drop (p + 4 + 16 * i) (cut (i, k))) (of_nat (n - i))
                                    @ drop (p + 4 + 16 * n) (cut (i, k)))
                      (tr @ take m (item_atoms (Iovec vec)), sc'))"
    using c(1,2) w by (subst execute_from.simps)
      (auto simp: consumed_def iovec_tag_def at cut_def Let_def split: sysret.split option.split)
  have adv: "case iov_advance b (p + 4) n 0 m of
      None \<Rightarrow> drop_iov m vec = []
    | Some (j, k) \<Rightarrow> j < n \<and> drop_iov m vec =
        (iov_base b (p + 4) j + of_nat k, iov_len b (p + 4) j - of_nat k) # drop (Suc j) vec" for m
    using iov_advance_drop [where i = 0 and n = n and b = b and v = "p + 4" and wl = m] by (auto simp: vec split: option.splits)
  have part: "parse_item (if i = 0 then drop p (cut (i, k))
      else fill_iovec (drop (p + 4 + 16 * i) (cut (i, k))) (of_nat (n - i)) @ drop (p + 4 + 16 * n) (cut (i, k))) =
      Some (Iovec (drop_iov m vec), r)" if "iov_advance b (p + 4) n 0 m = Some (i, k)" for m i k
  proof -
    let ?c' = "put_u64 (4 + 16 * i + 8) (iov_len b (p + 4) i - of_nat k)
      (put_u64 (4 + 16 * i) (iov_base b (p + 4) i + of_nat k) ?c)"
    have i: "i < n" and d: "drop_iov m vec =
        (iov_base b (p + 4) i + of_nat k, iov_len b (p + 4) i - of_nat k) # drop (Suc i) vec"
      using adv [of m] that by simp_all
    have cut: "drop p (cut (i, k)) = ?c'"
      using c(1) i drop_put_u64 [of p "4 + 16 * i + 8"] drop_put_u64 [of p "4 + 16 * i" b]
      by (simp add: cut_def add.assoc)
    have shift: "drop (p + 4 + 16 * x) (cut (i, k)) = drop (4 + 16 * x) ?c'" for x
      by (simp only: cut [symmetric] drop_drop) (simp add: ac_simps)
    have r: "r = drop (4 + 16 * n) ?c" using c(4) by (simp add: ac_simps)
    have "parse_item (if i = 0 then ?c' else fill_iovec (drop (4 + 16 * i) ?c') (of_nat (n - i)) @ drop (4 + 16 * n) ?c') =
        Some (Iovec (drop_iov m vec), drop (4 + 16 * n) ?c)"
      unfolding c(3) by (rule parse_iovec_prefix [OF _ _ i d [unfolded c(3)] refl]) (use c(1,2) in simp_all)
    then show ?thesis unfolding shift cut r .
  qed
  show ?thesis
  proof (cases w)
    case (Failed e)
    then show ?thesis using run w by (simp add: data_step_def)
  next
    case (Wrote m)
    have m: "m \<le> length (item_atoms (Iovec vec))" using sys_write_bound w Wrote by blast
    show ?thesis
    proof (cases "iov_advance b (p + 4) n 0 m")
      case None
      then have "length (item_atoms (Iovec vec)) \<le> m" using adv [of m] drop_iov_all by simp
      then show ?thesis using run w Wrote None m c(1,4) by (auto simp: data_step_def)
    next
      case (Some ik)
      obtain i k where ik: "ik = (i, k)" by (cases ik)
      have "m < length (item_atoms (Iovec vec))"
        using adv [of m] Some ik drop_iov_all [of m vec] by (simp add: not_le)
      then show ?thesis using run w Wrote Some ik part [of m i k] by (auto simp: data_step_def)
    qed
  qed
qed


lemma decode_Cons:
  assumes "decode b = Some (it # its)"
  obtains r where "parse_item b = Some (it, r)" "decode r = Some its"
  using assms by (subst (asm) decode.simps) (auto split: if_splits option.splits intro: that)

lemma decode_NilD: "decode b = Some [] \<Longrightarrow> b = []"
  by (subst (asm) decode.simps) (auto split: if_splits option.splits)

lemma exec_items_data:
  "\<forall>f u. it \<noteq> Finalize f u \<Longrightarrow>
   exec_items (it # its) (tr, sc) =
     (case sys_write (length (item_atoms it)) sc of
        (Failed e, sc) \<Rightarrow> (would_block e, it # its, (tr, sc))
      | (Wrote n, sc) \<Rightarrow>
          if n = 0 then (False, it # its, (tr, sc))
          else if n < length (item_atoms it)
          then (True, item_drop n it # its, (tr @ take n (item_atoms it), sc))
          else exec_items its (tr @ item_atoms it, sc))"
  by (cases it) auto

lemma exec_items_finalize [simp]: "exec_items (Finalize f u # its) (tr, sc) = exec_items its (tr @ fin_atoms f u, sc)"
  by simp

declare exec_items.simps(2) [simp del]

lemma execute_from_refines:
  "p \<le> length b \<Longrightarrow> decode (drop p b) = Some its \<Longrightarrow> exec_items its (tr, sc) = (c, its', io') \<Longrightarrow>
     \<exists>b'. execute_from b p (tr, sc) = Ret (c, b') io' \<and> decode b' = Some its'"
proof (induction its arbitrary: p tr sc)
  case Nil
  then have "p = length b" using decode_NilD [of "drop p b"] by simp
  with Nil.prems show ?case by (subst execute_from.simps) auto
next
  case (Cons it its)
  from Cons.prems(2) obtain r where r: "parse_item (drop p b) = Some (it, r)" "decode r = Some its"
    by (rule decode_Cons)
  show ?case
  proof (cases "\<exists>f u. it = Finalize f u")
    case True
    then obtain f u where it: "it = Finalize f u" by blast
    from execute_finalize [OF r(1) [unfolded it]] have
      q: "r = drop (p + 20) b" "execute_from b p (tr, sc) = execute_from b (p + 20) (tr @ fin_atoms f u, sc)"
      by auto
    have "p + 20 \<le> length b" using r(1) it by (auto simp: parse_item_def Let_def split: if_splits)
    from Cons.IH [OF this] q r(2) Cons.prems(3) it show ?thesis by simp
  next
    case False
    then have step: "data_step b p it r tr sc"
      using r(1) execute_sendfile execute_iovec by (cases it) auto
    have data: "\<forall>f u. it \<noteq> Finalize f u" using False by blast
    obtain w sc1 where w: "sys_write (length (item_atoms it)) sc = (w, sc1)" by fastforce
    show ?thesis
    proof (cases "\<exists>n. w = Wrote n \<and> n \<noteq> 0 \<and> \<not> n < length (item_atoms it)")
      case True
      then obtain q where q: "q \<le> length b" "r = drop q b"
        "execute_from b p (tr, sc) = execute_from b q (tr @ item_atoms it, sc1)"
        using step w by (auto simp: data_step_def)
      have "exec_items its (tr @ item_atoms it, sc1) = (c, its', io')"
        using Cons.prems(3) True w by (auto simp: exec_items_data [OF data])
      from Cons.IH [OF q(1) _ this] r(2) q show ?thesis by simp
    next
      case whole: False
      then show ?thesis
        using step w Cons.prems(2,3) r(2) decode_parse
        by (auto simp: data_step_def exec_items_data [OF data] split: sysret.splits if_splits)
    qed
  qed
qed

text \<open>The size of the encoding, which never grows.\<close>

primrec item_size :: "item \<Rightarrow> nat" where
  "item_size (Iovec vec) = 4 + 16 * length vec"
| "item_size (Sendfile fd pos n) = 28"
| "item_size (Finalize f u) = 20"

lemma parse_item_size: "parse_item b = Some (it, r) \<Longrightarrow> length b = item_size it + length r"
  by (auto simp: parse_item_def Let_def split: if_splits)

lemma decode_size: "decode b = Some its \<Longrightarrow> length b = sum_list (map item_size its)"
proof (induction its arbitrary: b)
  case Nil
  then show ?case using decode_NilD by simp
next
  case (Cons it its)
  then obtain r where "parse_item b = Some (it, r)" "decode r = Some its" using decode_Cons by blast
  with Cons.IH parse_item_size show ?case by simp
qed

lemma length_drop_iov: "length (drop_iov n vec) \<le> length vec"
  by (induction n vec rule: drop_iov.induct) auto

lemma item_drop_size: "item_size (item_drop n it) \<le> item_size it"
  by (cases it) (simp_all add: length_drop_iov)

lemma exec_items_size:
  "exec_items its (tr, sc) = (c, its', io') \<Longrightarrow> sum_list (map item_size its') \<le> sum_list (map item_size its)"
proof (induction its arbitrary: tr sc)
  case (Cons it its)
  show ?case
  proof (cases "\<exists>f u. it = Finalize f u")
    case True
    then show ?thesis using Cons by fastforce
  next
    case False
    then have data: "\<forall>f u. it \<noteq> Finalize f u" by blast
    obtain w sc1 where w: "sys_write (length (item_atoms it)) sc = (w, sc1)" by fastforce
    show ?thesis
      using Cons.prems Cons.IH [of "tr @ item_atoms it" sc1] w item_drop_size [of _ it]
      by (auto simp: exec_items_data [OF data] split: sysret.splits if_splits)
  qed
qed simp

text \<open>The interpreter on a whole block.\<close>

lemma execute_refines:
  assumes "decode b = Some its" and "exec_items its (tr, sc) = (c, its', (tr', sc'))"
  shows "\<exists>b'. execute b (tr, sc) = Ret (c, b') (tr', sc') \<and> decode b' = Some its' \<and> length b' \<le> length b \<and>
           tr' @ atoms its' = tr @ atoms its \<and> (c \<longrightarrow> its' \<noteq> [])"
proof -
  have "decode (drop 0 b) = Some its" using assms(1) by simp
  from execute_from_refines [OF _ this assms(2)] obtain b' where
    "execute b (tr, sc) = Ret (c, b') (tr', sc')" "decode b' = Some its'" by (auto simp: execute_def)
  with exec_items_size [OF assms(2)] exec_items_conserves [OF assms(2)] show ?thesis
    by (auto simp: decode_size assms(1))
qed

end
