(* ===== verification/Xfer_Class.thy ===== *)
theory Xfer_Class
  imports Xfer
begin

text \<open>
  The class \<open>xfer\<close> (declared in \<open>src/mp/wavy.hmpl\<close>, defined in \<open>src/mpsrc/wavy_out.cc\<close>) and the two
  members \<open>push_xfraw\<close> and \<open>try_write\<close> of \<open>xfer_impl\<close>. An object owns one block: \<open>xf_head\<close> holds the
  bytes between \<open>m_head\<close> and \<open>m_tail\<close>, or \<open>None\<close> for the null pointer, and \<open>xf_free\<close> is \<open>m_free\<close>. The
  argument \<open>alloc\<close> says which sizes \<open>realloc\<close> grants. The locale \<open>transfer_store\<close> is the interface
  of a list of transfers; its interpretation \<open>xs\<close> discharges it for the class.
\<close>

section \<open>The class\<close>

record xfer =
  xf_head :: "mem option"
  xf_free :: size_t

definition xfer_new :: xfer where
  "xfer_new = \<lparr>xf_head = None, xf_free = 0\<rparr>"

definition xf_bytes :: "xfer \<Rightarrow> mem" where
  "xf_bytes x = (case xf_head x of None \<Rightarrow> [] | Some b \<Rightarrow> b)"

definition used :: "xfer \<Rightarrow> size_t" where
  "used x = of_nat (length (xf_bytes x))"

definition xfer_empty :: "xfer \<Rightarrow> bool" where
  "xfer_empty x \<longleftrightarrow> xf_bytes x = []"

definition reserve :: "(size_t \<Rightarrow> bool) \<Rightarrow> size_t \<Rightarrow> xfer \<Rightarrow> (unit, xfer) outcome" where
  "reserve alloc reqsz x =
     (case grow ((used x + xf_free x) * 2 + 72) (reqsz + used x) of
        None \<Rightarrow> Fault No_return
      | Some nsize \<Rightarrow>
          if alloc nsize then Ret () \<lparr>xf_head = Some (xf_bytes x), xf_free = nsize - used x\<rparr>
          else Exn Bad_alloc x)"

text \<open>The bytes \<open>bs\<close> are stored at \<open>m_tail\<close>, after \<open>if(m_free < sz) reserve(sz)\<close>.\<close>

definition store_record :: "size_t \<Rightarrow> mem \<Rightarrow> xfer \<Rightarrow> (unit, xfer) outcome" where
  "store_record sz bs x =
     (case xf_head x of
        None \<Rightarrow> if bs = [] then Ret () x else Fault Null_deref
      | Some b \<Rightarrow> Ret () \<lparr>xf_head = Some (b @ bs), xf_free = xf_free x - sz\<rparr>)"

definition append_record :: "(size_t \<Rightarrow> bool) \<Rightarrow> size_t \<Rightarrow> mem \<Rightarrow> xfer \<Rightarrow> (unit, xfer) outcome" where
  "append_record alloc sz bs x =
     bind_outcome (if xf_free x < sz then reserve alloc sz x else Ret () x) (\<lambda>_ x. store_record sz bs x)"

definition push_write :: "(size_t \<Rightarrow> bool) \<Rightarrow> u64 \<Rightarrow> size_t \<Rightarrow> xfer \<Rightarrow> (unit, xfer) outcome" where
  "push_write alloc buf sz x = append_record alloc sizeof_mem (fill_mem buf sz) x"

definition push_writev :: "(size_t \<Rightarrow> bool) \<Rightarrow> (u64 \<times> size_t) list \<Rightarrow> xfer \<Rightarrow> (unit, xfer) outcome" where
  "push_writev alloc vec x =
     (let veclen = of_nat (length vec) in
      append_record alloc (sizeof_iovec veclen) (fill_iovec (iovec_bytes vec) veclen) x)"

definition push_sendfile :: "(size_t \<Rightarrow> bool) \<Rightarrow> u32 \<Rightarrow> u64 \<Rightarrow> size_t \<Rightarrow> xfer \<Rightarrow> (unit, xfer) outcome" where
  "push_sendfile alloc fd pos n x = append_record alloc sizeof_sendfile (fill_sendfile fd pos n) x"

definition push_finalize :: "(size_t \<Rightarrow> bool) \<Rightarrow> u64 \<Rightarrow> u64 \<Rightarrow> xfer \<Rightarrow> (unit, xfer) outcome" where
  "push_finalize alloc f u x = append_record alloc sizeof_finalize (fill_finalize f u) x"

definition push_xfraw :: "(size_t \<Rightarrow> bool) \<Rightarrow> mem \<Rightarrow> xfer \<Rightarrow> (unit, xfer) outcome" where
  "push_xfraw alloc buf x = append_record alloc (of_nat (length buf)) buf x"

text \<open>\<open>from->migrate(to)\<close>; the state is the pair of both objects.\<close>

definition migrate :: "(size_t \<Rightarrow> bool) \<Rightarrow> xfer \<times> xfer \<Rightarrow> (unit, xfer \<times> xfer) outcome" where
  "migrate alloc s =
     (let (from, to) = s in
      case xf_head to of
        None \<Rightarrow> Ret () (xfer_new, from)
      | Some _ \<Rightarrow>
          bind_outcome (with_obj from (append_record alloc (used from) (xf_bytes from) to)) (\<lambda>_ (from, to).
          Ret () (from\<lparr>xf_head := map_option (\<lambda>_. []) (xf_head from), xf_free := xf_free from + used from\<rparr>, to)))"

lemma unat_sizeof_iovec: "unat n < 1073741824 * 1073741824 \<Longrightarrow> unat (sizeof_iovec n) = 4 + 16 * unat n"
  by (simp add: sizeof_iovec_def unat_word_ariths)

lemma unat_sizeof_iovec_tag [simp]:
  "unat (sizeof_iovec (ucast (drop_bit (Suc 0) (x :: u32)))) = 4 + 16 * (unat x div 2)"
proof -
  have lt: "unat x div 2 < 1073741824 * 1073741824" using unat_lt_32 [of x] by linarith
  then have u: "unat (ucast (drop_bit (Suc 0) x) :: u64) = unat x div 2"
    by (simp add: unsigned_ucast_eq take_bit_eq_mod)
  note lt
  then show ?thesis by (simp add: unat_sizeof_iovec u)
qed

text \<open>\<open>clear\<close> runs the finalizers that are still pending; \<open>tr\<close> are the calls made.\<close>

function clear_from :: "mem \<Rightarrow> nat \<Rightarrow> atom list \<Rightarrow> (unit, atom list) outcome" where
  "clear_from b p tr =
     (if p < length b then
        if length b < p + 4 then Fault Out_of_bounds else
        let tag = get_u32 b p in
        if tag = XF_SENDFILE then clear_from b (p + unat sizeof_sendfile) tr
        else if tag = XF_FINALIZE then
          if length b < p + unat sizeof_finalize then Fault Out_of_bounds
          else clear_from b (p + unat sizeof_finalize) (tr @ fin_atoms (get_u64 b (p + 4)) (get_u64 b (p + 12)))
        else clear_from b (p + unat (sizeof_iovec (ucast (drop_bit 1 tag)))) tr
      else Ret () tr)"
  by pat_completeness auto
termination
  by (relation "measure (\<lambda>(b, p, tr). length b - p)") auto

declare clear_from.simps [simp del]

definition clear :: "xfer \<Rightarrow> (xfer, atom list) outcome" where
  "clear x =
     bind_outcome (clear_from (xf_bytes x) 0 []) (\<lambda>_ tr.
     Ret (x\<lparr>xf_free := xf_free x + used x, xf_head := map_option (\<lambda>_. []) (xf_head x)\<rparr>) tr)"

definition xfer_delete :: "xfer \<Rightarrow> (unit, atom list) outcome" where
  "xfer_delete x = (if xf_head x = None then Ret () [] else bind_outcome (clear x) (\<lambda>_ tr. Ret () tr))"

text \<open>\<open>try_write\<close>: the result also says whether \<open>shutdown(fd, SHUT_RD)\<close> was called.\<close>

definition try_write :: "xfer \<times> io \<Rightarrow> (bool \<times> bool, xfer \<times> io) outcome" where
  "try_write s =
     (let (x, io) = s in
      case execute (xf_bytes x) io of
        Fault f \<Rightarrow> Fault f
      | Exn e io \<Rightarrow> Exn e (x, io)
      | Ret (cont, b) io \<Rightarrow>
          let x' = x\<lparr>xf_head := map_option (\<lambda>_. b) (xf_head x),
                     xf_free := xf_free x + used x - of_nat (length b)\<rparr> in
          Ret (cont, \<not> cont \<and> \<not> xfer_empty x') (x', io))"

section \<open>Invariant and items\<close>

text \<open>
  A block holds whole records, and its used and free part stay below the size of the address
  space.
\<close>

definition xf_inv :: "xfer \<Rightarrow> bool" where
  "xf_inv x \<longleftrightarrow> (\<exists>its. decode (xf_bytes x) = Some its) \<and> (xf_head x = None \<longrightarrow> xf_free x = 0) \<and>
     length (xf_bytes x) + unat (xf_free x) \<le> 144115188075855872"

definition items :: "xfer \<Rightarrow> item list" where
  "items x = (case decode (xf_bytes x) of None \<Rightarrow> [] | Some its \<Rightarrow> its)"

definition alloc_bounded :: "(size_t \<Rightarrow> bool) \<Rightarrow> bool" where
  "alloc_bounded alloc \<longleftrightarrow> (\<forall>n. alloc n \<longrightarrow> unat n \<le> 144115188075855872)"

lemma items_decode: "xf_inv x \<Longrightarrow> decode (xf_bytes x) = Some (items x)"
  by (auto simp: xf_inv_def items_def)

lemma xfer_empty_items: "xf_inv x \<Longrightarrow> xfer_empty x \<longleftrightarrow> items x = []"
  using items_decode [of x] decode_NilD by (auto simp: xfer_empty_def)

lemma unat_used: "xf_inv x \<Longrightarrow> unat (used x) = length (xf_bytes x)"
  by (simp add: used_def xf_inv_def size_simps)

lemma xfer_new_inv [simp]: "xf_inv xfer_new" "items xfer_new = []" "xfer_empty xfer_new"
  by (simp_all add: xf_inv_def xfer_new_def xf_bytes_def items_def xfer_empty_def)

lemma reserve_returns:
  assumes inv: "xf_inv x" and sz: "unat sz \<le> 1152921504606846976" and al: "alloc_bounded alloc"
  shows "(\<exists>x'. reserve alloc sz x = Ret () x' \<and> xf_head x' = Some (xf_bytes x) \<and> unat sz \<le> unat (xf_free x') \<and>
            length (xf_bytes x) + unat (xf_free x') \<le> 144115188075855872) \<or>
         reserve alloc sz x = Exn Bad_alloc x \<and> (\<exists>n. \<not> alloc n)"
proof -
  let ?n0 = "(used x + xf_free x) * 2 + 72"
  have u: "unat (used x) = length (xf_bytes x)" using inv by (rule unat_used)
  have b: "length (xf_bytes x) + unat (xf_free x) \<le> 144115188075855872" using inv by (simp add: xf_inv_def)
  have n0: "unat ?n0 = (length (xf_bytes x) + unat (xf_free x)) * 2 + 72"
    using b u by (simp add: size_simps)
  have req: "unat (sz + used x) = unat sz + length (xf_bytes x)" using b sz u by (simp add: size_simps)
  have "0 < unat ?n0" "unat (sz + used x) \<le> 9223372036854775808" using n0 req b sz by simp_all
  from grow_returns [OF this] obtain n where
    n: "grow ?n0 (sz + used x) = Some n" "sz + used x \<le> n" by blast
  have lo: "unat sz + length (xf_bytes x) \<le> unat n" using n(2) req by (simp add: word_le_nat_alt)
  then have "unat (n - used x) = unat n - length (xf_bytes x)" using u by (simp add: size_simps)
  then show ?thesis using n(1) lo al by (auto simp: reserve_def alloc_bounded_def)
qed

lemma store_record_returns:
  assumes "decode (b @ bs) = Some its" and "unat sz = length bs" and "unat sz \<le> unat (xf_free x)"
    and "xf_bytes x = b" and "xf_head x = None \<longrightarrow> xf_free x = 0" and "length b + unat (xf_free x) \<le> 144115188075855872"
  shows "\<exists>x'. store_record sz bs x = Ret () x' \<and> items x' = its \<and> xf_inv x'"
proof (cases "xf_head x")
  case None
  then have "bs = []" using assms(2,3,5) by simp
  then show ?thesis using None assms by (auto simp: store_record_def items_def xf_inv_def)
next
  case (Some c)
  let ?z = "\<lparr>xf_head = Some (c @ bs), xf_free = xf_free x - sz\<rparr>"
  have "xf_bytes ?z = b @ bs" using Some assms(4) by (simp add: xf_bytes_def)
  moreover have "unat (xf_free x - sz) = unat (xf_free x) - length bs" using assms(2,3) by (simp add: size_simps)
  ultimately have "xf_inv ?z \<and> items ?z = its" using assms by (simp add: xf_inv_def items_def)
  then show ?thesis using Some by (simp add: store_record_def)
qed

lemma append_record_returns:
  assumes inv: "xf_inv x" and al: "alloc_bounded alloc" and len: "unat sz = length bs" "length bs \<le> 1152921504606846976"
    and dec: "decode bs = Some its"
  shows "(\<exists>x'. append_record alloc sz bs x = Ret () x' \<and> items x' = items x @ its \<and> xf_inv x') \<or>
         append_record alloc sz bs x = Exn Bad_alloc x \<and> (\<exists>n. \<not> alloc n)"
proof -
  have app: "decode (xf_bytes x @ bs) = Some (items x @ its)"
    using decode_append [OF items_decode [OF inv], of bs] dec by simp
  note store = store_record_returns [OF app len(1)]
  show ?thesis
  proof (cases "xf_free x < sz")
    case False
    then have "unat sz \<le> unat (xf_free x)" by (simp add: word_less_nat_alt)
    then show ?thesis using False store [of x] inv by (simp add: append_record_def xf_inv_def)
  next
    case True
    have "unat sz \<le> 1152921504606846976" using len by simp
    from reserve_returns [OF inv this al] show ?thesis
    proof (elim disjE exE conjE)
      fix y assume y: "reserve alloc sz x = Ret () y" "xf_head y = Some (xf_bytes x)"
        "unat sz \<le> unat (xf_free y)" "length (xf_bytes x) + unat (xf_free y) \<le> 144115188075855872"
      then show ?thesis using True store [of y] by (simp add: append_record_def xf_bytes_def)
    qed (use True in \<open>auto simp: append_record_def\<close>)
  qed
qed

section \<open>Operations on items\<close>

text \<open>The result of an operation that appends \<open>its\<close> or fails to find memory and changes nothing.\<close>

definition appends :: "(size_t \<Rightarrow> bool) \<Rightarrow> xfer \<Rightarrow> item list \<Rightarrow> (unit, xfer) outcome \<Rightarrow> bool" where
  "appends alloc x its r \<longleftrightarrow>
     (\<exists>x'. r = Ret () x' \<and> items x' = items x @ its \<and> xf_inv x') \<or> r = Exn Bad_alloc x \<and> (\<exists>n. \<not> alloc n)"

lemmas append_appends = append_record_returns [folded appends_def]

lemma length_fills [simp]:
  "length (fill_mem buf sz) = 20" "length (fill_sendfile fd pos n) = 28" "length (fill_finalize f u) = 20"
  by (simp_all add: fill_mem_def fill_sendfile_def fill_finalize_def)

lemma push_mem_appends:
  assumes "xf_inv x" "alloc_bounded alloc"
  shows "appends alloc x [Iovec [(buf, sz)]] (push_write alloc buf sz x)"
    and "appends alloc x [Sendfile fd pos n] (push_sendfile alloc fd pos n x)"
    and "appends alloc x [Finalize f u] (push_finalize alloc f u x)"
  unfolding push_write_def push_sendfile_def push_finalize_def
  using decode_fill_mem [of buf sz "[]"] decode_fill_sendfile [of fd pos n "[]"] decode_fill_finalize [of f u "[]"]
  by (auto intro!: append_appends assms)

lemma push_writev_appends:
  assumes "xf_inv x" "alloc_bounded alloc" "length vec < 2147483648"
  shows "appends alloc x [Iovec vec] (push_writev alloc vec x)"
proof -
  have u: "unat (of_nat (length vec) :: size_t) = length vec" using assms(3) by (simp add: size_simps)
  then have "unat (sizeof_iovec (of_nat (length vec))) = 4 + 16 * length vec"
    using assms(3) by (subst unat_sizeof_iovec) simp_all
  then show ?thesis unfolding push_writev_def Let_def
    using assms u decode_fill_iovec [of vec "[]"] by (intro append_appends) (auto simp: fill_iovec_def)
qed

lemma push_xfraw_appends:
  assumes "xf_inv x" "alloc_bounded alloc" "length buf \<le> 1152921504606846976" "decode buf = Some its"
  shows "appends alloc x its (push_xfraw alloc buf x)"
  unfolding push_xfraw_def using assms by (intro append_appends) (auto simp: size_simps)

text \<open>The finalizers among the items.\<close>

primrec is_fin :: "atom \<Rightarrow> bool" where
  "is_fin (MemB a) = False"
| "is_fin (FileB fd a) = False"
| "is_fin (Fin f u) = True"

definition fins :: "item list \<Rightarrow> atom list" where
  "fins its = filter is_fin (atoms its)"

lemma filter_fin_mem [simp]: "filter is_fin (mem_atoms base n) = []"
  by (auto simp: mem_atoms_def filter_empty_conv)

lemma filter_fin_file [simp]: "filter is_fin (file_atoms fd pos n) = []"
  by (auto simp: file_atoms_def filter_empty_conv)

lemma filter_fin_fin [simp]: "filter is_fin (fin_atoms f u) = fin_atoms f u"
  by (simp add: fin_atoms_def)

lemma filter_fin_iovec [simp]: "filter is_fin (item_atoms (Iovec vec)) = []"
  by (induction vec) auto

lemma fins_Nil [simp]: "fins [] = []"
  by (simp add: fins_def atoms_def)

lemma fins_Cons: "fins (it # its) = (case it of Finalize f u \<Rightarrow> fin_atoms f u | _ \<Rightarrow> []) @ fins its"
  by (cases it) (simp_all add: fins_def atoms_def del: item_atoms.simps(1))

lemma clear_from_decode:
  "p \<le> length b \<Longrightarrow> decode (drop p b) = Some its \<Longrightarrow> clear_from b p tr = Ret () (tr @ fins its)"
proof (induction its arbitrary: p tr)
  case Nil
  then show ?case using decode_NilD [of "drop p b"] by (subst clear_from.simps) auto
next
  case (Cons it its)
  from Cons.prems(2) obtain r where r: "parse_item (drop p b) = Some (it, r)" "decode r = Some its"
    by (rule decode_Cons)
  define q where "q = p + item_size it"
  have q: "q \<le> length b" "r = drop q b"
    using r(1) by (auto simp: q_def parse_item_def Let_def ac_simps split: if_splits)
  have "clear_from b p tr = clear_from b q (tr @ (case it of Finalize f u \<Rightarrow> fin_atoms f u | _ \<Rightarrow> []))"
    using r(1) by (subst clear_from.simps)
      (auto simp: q_def parse_item_def Let_def ac_simps split: if_splits)
  then show ?case using Cons.IH [OF q(1)] q(2) r(2) by (simp add: fins_Cons)
qed

lemma clear_items:
  assumes "xf_inv x"
  shows "\<exists>x'. clear x = Ret x' (fins (items x)) \<and> xf_inv x' \<and> items x' = []"
proof -
  have "clear_from (xf_bytes x) 0 [] = Ret () (fins (items x))"
    using items_decode [OF assms] clear_from_decode [of 0 "xf_bytes x"] by simp
  moreover have "unat (xf_free x + used x) = unat (xf_free x) + length (xf_bytes x)"
    using assms unat_used [OF assms] by (simp add: size_simps xf_inv_def)
  ultimately show ?thesis using assms
    by (auto simp: clear_def xf_inv_def items_def xf_bytes_def used_def split: option.split)
qed

lemma try_write_items:
  assumes inv: "xf_inv x" and run: "exec_items (items x) io = (c, its', io')"
  shows "\<exists>x'. try_write (x, io) = Ret (c, \<not> c \<and> its' \<noteq> []) (x', io') \<and> xf_inv x' \<and> items x' = its'"
proof -
  obtain tr sc tr' sc' where io: "io = (tr, sc)" "io' = (tr', sc')" by fastforce
  from execute_refines [OF items_decode [OF inv] run [unfolded io]] obtain b' where
    b': "execute (xf_bytes x) io = Ret (c, b') io'" "decode b' = Some its'" "length b' \<le> length (xf_bytes x)"
    unfolding io by blast
  let ?x = "x\<lparr>xf_head := map_option (\<lambda>_. b') (xf_head x), xf_free := xf_free x + used x - of_nat (length b')\<rparr>"
  have bytes: "xf_bytes ?x = b'" using b'(3) by (auto simp: xf_bytes_def split: option.split)
  have inv': "xf_inv ?x" and its': "items ?x = its'"
  proof -
    have "unat (xf_free x + used x) = unat (xf_free x) + length (xf_bytes x)"
      using inv unat_used [OF inv] by (simp add: size_simps xf_inv_def)
    moreover have "unat (of_nat (length b') :: u64) = length b'" using inv b'(3) by (simp add: size_simps xf_inv_def)
    ultimately have u: "unat (xf_free ?x) = unat (xf_free x) + length (xf_bytes x) - length b'"
      using b'(3) by (simp add: size_simps)
    have "xf_free ?x = 0" if "xf_head ?x = None"
      using that inv b'(3) by (auto simp: xf_inv_def used_def xf_bytes_def)
    then show "xf_inv ?x" using bytes b'(2,3) u inv unfolding xf_inv_def by simp
    show "items ?x = its'" using bytes b'(2) by (simp add: items_def)
  qed
  have "xfer_empty ?x \<longleftrightarrow> its' = []" using xfer_empty_items [OF inv'] its' by simp
  then show ?thesis using b'(1) inv' its' by (auto simp: try_write_def)
qed

text \<open>\<open>migrate\<close> moves everything, or moves nothing when there is no memory.\<close>

lemma migrate_items:
  assumes src: "xf_inv from" and dst: "xf_inv to" and al: "alloc_bounded alloc"
  shows "(\<exists>from' to'. migrate alloc (from, to) = Ret () (from', to') \<and> xf_inv from' \<and> xf_inv to' \<and>
            items from' = [] \<and> items to' = items to @ items from) \<or>
         migrate alloc (from, to) = Exn Bad_alloc (from, to) \<and> (\<exists>n. \<not> alloc n)"
proof (cases "xf_head to")
  case None
  then have "items to = []" by (simp add: items_def xf_bytes_def)
  then show ?thesis using None src by (simp add: migrate_def)
next
  case (Some b)
  let ?f = "from\<lparr>xf_head := map_option (\<lambda>_. []) (xf_head from), xf_free := xf_free from + used from\<rparr>"
  have "length (xf_bytes from) \<le> 1152921504606846976" using src by (simp add: xf_inv_def)
  from append_record_returns [OF dst al unat_used [OF src] this items_decode [OF src]]
  have "(\<exists>to'. append_record alloc (used from) (xf_bytes from) to = Ret () to' \<and> items to' = items to @ items from \<and> xf_inv to') \<or>
      append_record alloc (used from) (xf_bytes from) to = Exn Bad_alloc to \<and> (\<exists>n. \<not> alloc n)" .
  moreover have "xf_inv ?f \<and> items ?f = []"
    using src unat_used [OF src]
    by (auto simp: xf_inv_def items_def xf_bytes_def size_simps used_def split: option.splits)
  ultimately show ?thesis using Some by (auto simp: migrate_def)
qed

section \<open>The interface of a transfer list\<close>

text \<open>
  What the output component relies on: running a list performs a prefix of it as \<open>exec_items\<close>
  says, and clearing it calls the finalizers that are left.
\<close>

locale transfer_store =
  fixes ok :: "'x \<Rightarrow> bool" and queued :: "'x \<Rightarrow> item list"
    and run :: "'x \<times> io \<Rightarrow> (bool \<times> bool, 'x \<times> io) outcome"
    and clr :: "'x \<Rightarrow> ('x, atom list) outcome"
  assumes run_law: "ok x \<Longrightarrow> exec_items (queued x) io = (c, its, io') \<Longrightarrow>
      \<exists>x'. run (x, io) = Ret (c, \<not> c \<and> its \<noteq> []) (x', io') \<and> ok x' \<and> queued x' = its"
    and clr_law: "ok x \<Longrightarrow> \<exists>x'. clr x = Ret x' (fins (queued x)) \<and> ok x' \<and> queued x' = []"
begin

lemma run_returns:
  assumes "ok x"
  obtains c x' tr' sc' where "run (x, (tr, sc)) = Ret (c, \<not> c \<and> queued x' \<noteq> []) (x', (tr', sc'))" "ok x'"
    "exec_items (queued x) (tr, sc) = (c, queued x', (tr', sc'))"
    "tr' @ atoms (queued x') = tr @ atoms (queued x)" "c \<longrightarrow> queued x' \<noteq> []"
proof -
  obtain c its tr' sc' where e: "exec_items (queued x) (tr, sc) = (c, its, (tr', sc'))"
    by (metis prod_cases4)
  from run_law [OF assms e] exec_items_conserves [OF e] e that show thesis by blast
qed

text \<open>
  A list that is run and, when it cannot go on, cleared: every finalizer is called exactly once,
  by the run or by the clearing.
\<close>

lemma finalizers_once:
  assumes "ok x"
  obtains c sh x' tr' sc' x'' fs where "run (x, (tr, sc)) = Ret (c, sh) (x', (tr', sc'))"
    "clr x' = Ret x'' fs" "queued x'' = []" "ok x''"
    "filter is_fin tr' @ fs = filter is_fin tr @ fins (queued x)"
proof -
  from assms obtain c x' tr' sc' where r: "run (x, (tr, sc)) = Ret (c, \<not> c \<and> queued x' \<noteq> []) (x', (tr', sc'))" "ok x'"
    and at: "tr' @ atoms (queued x') = tr @ atoms (queued x)" by (rule run_returns) blast
  from clr_law [OF r(2)] obtain x'' where c: "clr x' = Ret x'' (fins (queued x'))" "ok x''" "queued x'' = []" by blast
  have "filter is_fin tr' @ fins (queued x') = filter is_fin tr @ fins (queued x)"
    using arg_cong [OF at, of "filter is_fin"] by (simp add: fins_def)
  with r(1) c that show thesis by blast
qed

end

interpretation xs: transfer_store xf_inv items try_write clear
  by unfold_locales (use try_write_items clear_items in blast)+

section \<open>Correctness of the class\<close>

text \<open>The bytes \<open>xfer_impl\<close> stores for an item.\<close>

primrec encode :: "item \<Rightarrow> mem" where
  "encode (Iovec vec) = fill_iovec (iovec_bytes vec) (of_nat (length vec))"
| "encode (Sendfile fd pos n) = fill_sendfile fd pos n"
| "encode (Finalize f u) = fill_finalize f u"

primrec short_iovec :: "item \<Rightarrow> bool" where
  "short_iovec (Iovec vec) = (length vec < 2147483648)"
| "short_iovec (Sendfile fd pos n) = True"
| "short_iovec (Finalize f u) = True"

text \<open>
  C20. The records written by the \<open>fill\<close> functions of \<open>xfer_impl\<close> are read back as the same items in the
  same order, for every sequence of records whose vectors have fewer than $2^{31}$ entries (the
  tag keeps 31 bits of the length).
\<close>
theorem fill_decode_roundtrip:
  assumes "list_all short_iovec its"
  shows "decode (concat (map encode its)) = Some its"
  using assms
proof (induction its)
  case (Cons it its)
  then show ?case by (cases it) simp_all
qed simp

theorem fill_decode_roundtrip_witness:
  "decode (concat (map encode [Iovec [(1, 2), (3, 4)], Sendfile 5 6 7, Finalize 8 9])) =
     Some [Iovec [(1, 2), (3, 4)], Sendfile 5 6 7, Finalize 8 9]"
  by (rule fill_decode_roundtrip) simp

text \<open>
  C4. \<open>try_write\<close> always returns. It performs exactly the write calls and finalizer calls of the
  item-level specification \<open>exec_items\<close>, leaves in the object exactly the items that are still to
  be done, so that output followed by what is pending is always what was queued, keeps the
  invariant, asks to be called again only with pending items, and shuts the descriptor down just
  when it gives up with items pending.
\<close>
theorem try_write_correct:
  assumes "xf_inv x"
  shows "\<exists>c x' tr' sc'. try_write (x, (tr, sc)) = Ret (c, \<not> c \<and> items x' \<noteq> []) (x', (tr', sc')) \<and> xf_inv x' \<and>
           exec_items (items x) (tr, sc) = (c, items x', (tr', sc')) \<and>
           tr' @ atoms (items x') = tr @ atoms (items x) \<and> (c \<longrightarrow> items x' \<noteq> [])"
  using assms by (rule xs.run_returns) blast

theorem try_write_correct_witness:
  "let x = \<lparr>xf_head = Some (fill_mem 16 3 @ fill_finalize 7 8), xf_free = 32\<rparr> in
   \<exists>c x' tr' sc'. try_write (x, ([], [Wrote 2])) = Ret (c, \<not> c \<and> items x' \<noteq> []) (x', (tr', sc')) \<and> xf_inv x' \<and>
     exec_items (items x) ([], [Wrote 2]) = (c, items x', (tr', sc')) \<and>
     tr' @ atoms (items x') = [] @ atoms (items x) \<and> (c \<longrightarrow> items x' \<noteq> [])"
proof -
  let ?x = "\<lparr>xf_head = Some (fill_mem 16 3 @ fill_finalize 7 8), xf_free = 32\<rparr>"
  have "xf_inv ?x" using decode_fill_finalize [of 7 8 "[]"] by (simp add: xf_inv_def xf_bytes_def)
  from try_write_correct [OF this] show ?thesis unfolding Let_def .
qed

text \<open>
  Each \<open>push\<close> operation of \<open>xfer\<close> appends exactly its item behind the pending ones and keeps the
  invariant, or throws \<open>bad_alloc\<close> because the allocator refused, with the object unchanged.
\<close>
lemma push_appends:
  assumes "xf_inv x" and "alloc_bounded alloc" and "length vec < 2147483648"
  shows "appends alloc x [Iovec [(buf, sz)]] (push_write alloc buf sz x) \<and>
         appends alloc x [Iovec vec] (push_writev alloc vec x) \<and>
         appends alloc x [Sendfile fd pos n] (push_sendfile alloc fd pos n x) \<and>
         appends alloc x [Finalize f u] (push_finalize alloc f u x)"
  using assms push_mem_appends push_writev_appends by simp

lemma push_appends_witness:
  "let al = (\<lambda>n. unat n \<le> 4096) in
   appends al xfer_new [Iovec [(1, 2)]] (push_write al 1 2 xfer_new) \<and>
   appends al xfer_new [Iovec [(1, 2), (3, 4)]] (push_writev al [(1, 2), (3, 4)] xfer_new) \<and>
   appends al xfer_new [Sendfile 5 6 7] (push_sendfile al 5 6 7 xfer_new) \<and>
   appends al xfer_new [Finalize 8 9] (push_finalize al 8 9 xfer_new)"
  unfolding Let_def by (rule push_appends) (simp_all add: alloc_bounded_def)

text \<open>
  C21. \<open>migrate\<close> moves all pending items behind those of the target, in order, and leaves the source
  empty; when memory is refused it throws \<open>bad_alloc\<close> and neither object has changed.
\<close>
theorem migrate_correct:
  assumes "xf_inv from" and "xf_inv to" and "alloc_bounded alloc"
  shows "(\<exists>from' to'. migrate alloc (from, to) = Ret () (from', to') \<and> xf_inv from' \<and> xf_inv to' \<and>
            items from' = [] \<and> items to' = items to @ items from) \<or>
         migrate alloc (from, to) = Exn Bad_alloc (from, to) \<and> (\<exists>n. \<not> alloc n)"
  using assms by (rule migrate_items)

theorem migrate_correct_witness:
  "let al = (\<lambda>n. unat n \<le> 4096); x = \<lparr>xf_head = Some (fill_finalize 7 8), xf_free = 0\<rparr> in
   (\<exists>from' to'. migrate al (x, x) = Ret () (from', to') \<and> xf_inv from' \<and> xf_inv to' \<and>
      items from' = [] \<and> items to' = items x @ items x) \<or>
   migrate al (x, x) = Exn Bad_alloc (x, x) \<and> (\<exists>n. \<not> al n)"
proof -
  let ?x = "\<lparr>xf_head = Some (fill_finalize 7 8), xf_free = 0\<rparr>"
  have "xf_inv ?x" using decode_fill_finalize [of 7 8 "[]"] by (simp add: xf_inv_def xf_bytes_def)
  from migrate_correct [OF this this] show ?thesis unfolding Let_def by (simp add: alloc_bounded_def)
qed

text \<open>
  Running a transfer list once and then clearing what is left calls every queued finalizer
  exactly once and in order, whatever the descriptor does, and empties the list.
\<close>
lemma xfer_finalizers_once:
  assumes "xf_inv x"
  shows "\<exists>c sh x' tr' sc' x'' fs. try_write (x, (tr, sc)) = Ret (c, sh) (x', (tr', sc')) \<and>
           clear x' = Ret x'' fs \<and> items x'' = [] \<and> xf_inv x'' \<and>
           filter is_fin tr' @ fs = filter is_fin tr @ fins (items x)"
  using assms by (rule xs.finalizers_once) blast

lemma xfer_finalizers_once_witness:
  "let x = \<lparr>xf_head = Some (fill_mem 16 3 @ fill_finalize 7 8), xf_free = 0\<rparr> in
   \<exists>c sh x' tr' sc' x'' fs. try_write (x, ([], [Failed EPIPE])) = Ret (c, sh) (x', (tr', sc')) \<and>
     clear x' = Ret x'' fs \<and> items x'' = [] \<and> xf_inv x'' \<and>
     filter is_fin tr' @ fs = filter is_fin [] @ fins (items x)"
proof -
  let ?x = "\<lparr>xf_head = Some (fill_mem 16 3 @ fill_finalize 7 8), xf_free = 0\<rparr>"
  have "xf_inv ?x" using decode_fill_finalize [of 7 8 "[]"] by (simp add: xf_inv_def xf_bytes_def)
  from xfer_finalizers_once [OF this] show ?thesis unfolding Let_def .
qed

end
