(* ===== verification/Kernel.thy ===== *)
theory Kernel
  imports Prelude "HOL-Library.Multiset"
begin

text \<open>
  The interface \<open>class kernel\<close> that \<open>src/mpsrc/wavy_kernel.h\<close> documents and its two implementations
  provide: one-shot event notification. A descriptor is armed by \<open>add_fd\<close>; \<open>wait\<close> reports armed
  descriptors and disarms them; a reported event is later given back with \<open>reactivate\<close>, which arms
  the descriptor again, or with \<open>remove\<close>. The clients' fact proved here once is that a reported
  event is owned by one party at a time.
\<close>

text \<open>Idents of events that are in flight: reported, and neither reactivated nor removed.\<close>

definition exclusive :: "int set \<Rightarrow> int list \<Rightarrow> bool" where
  "exclusive armed flight \<longleftrightarrow> distinct flight \<and> set flight \<inter> armed = {}"

lemma exclusive_Nil [simp]: "exclusive A []"
  by (simp add: exclusive_def)

lemma exclusive_perm: "mset fl = mset fl' \<Longrightarrow> exclusive A fl = exclusive A fl'"
  unfolding exclusive_def by (metis mset_eq_imp_distinct_iff set_mset_mset)

lemma exclusive_drop: "exclusive A (x # fl) \<Longrightarrow> exclusive A fl"
  by (simp add: exclusive_def)

locale event_kernel =
  fixes wf :: "'s \<Rightarrow> bool" and armed :: "'s \<Rightarrow> int set" and fdok :: "int \<Rightarrow> bool"
    and evok :: "'ev \<Rightarrow> bool" and ident :: "'ev \<Rightarrow> int"
    and add_fd :: "int \<Rightarrow> 's \<Rightarrow> int \<times> 's" and reactivate :: "'ev \<Rightarrow> 's \<Rightarrow> int \<times> 's"
    and remove :: "'ev \<Rightarrow> 's \<Rightarrow> int \<times> 's" and wait :: "'r \<Rightarrow> 's \<Rightarrow> int \<times> 'ev list \<times> 's"
  assumes add_law: "wf s \<Longrightarrow> fdok fd \<Longrightarrow> add_fd fd s = (r, s') \<Longrightarrow>
      wf s' \<and> armed s' = (if r < 0 then armed s else insert fd (armed s))"
    and wait_law: "wf s \<Longrightarrow> wait rdy s = (n, evs, s') \<Longrightarrow>
      wf s' \<and> distinct (map ident evs) \<and> set (map ident evs) \<subseteq> armed s \<and>
      armed s' = armed s - set (map ident evs) \<and> list_all evok evs \<and> n \<le> int (length evs)"
    and reactivate_law: "wf s \<Longrightarrow> evok e \<Longrightarrow> reactivate e s = (r, s') \<Longrightarrow>
      wf s' \<and> armed s' = (if r < 0 then armed s else insert (ident e) (armed s))"
    and remove_law: "wf s \<Longrightarrow> evok e \<Longrightarrow> ident e \<notin> armed s \<Longrightarrow> remove e s = (r, s') \<Longrightarrow>
      wf s' \<and> armed s' = armed s"
begin

lemma wait_exclusive:
  "wf s \<Longrightarrow> exclusive (armed s) fl \<Longrightarrow> wait rdy s = (n, evs, s') \<Longrightarrow>
     wf s' \<and> exclusive (armed s') (map ident evs @ fl)"
  using wait_law [of s rdy n evs s'] by (auto simp: exclusive_def)

lemma reactivate_exclusive:
  "wf s \<Longrightarrow> evok e \<Longrightarrow> exclusive (armed s) (ident e # fl) \<Longrightarrow> reactivate e s = (r, s') \<Longrightarrow>
     wf s' \<and> exclusive (armed s') fl"
  using reactivate_law [of s e r s'] by (auto simp: exclusive_def split: if_splits)

lemma remove_exclusive:
  "wf s \<Longrightarrow> evok e \<Longrightarrow> exclusive (armed s) (ident e # fl) \<Longrightarrow> remove e s = (r, s') \<Longrightarrow>
     wf s' \<and> exclusive (armed s') fl"
  using remove_law [of s e r s'] by (auto simp: exclusive_def)

lemma add_exclusive:
  "wf s \<Longrightarrow> fdok fd \<Longrightarrow> exclusive (armed s) fl \<Longrightarrow> fd \<notin> set fl \<Longrightarrow> add_fd fd s = (r, s') \<Longrightarrow>
     wf s' \<and> exclusive (armed s') fl"
  using add_law [of s fd r s'] by (auto simp: exclusive_def split: if_splits)

end

end
