(* ===== verification/Posix.thy ===== *)
theory Posix
  imports Prelude
begin

text \<open>
  The part of the operating system the library talks to: the table of open descriptors, the
  interest lists of epoll instances, POSIX timers, and \<open>errno\<close>. The environment decides which
  system calls fail through a script: each call takes the next entry, \<open>Some e\<close> for a failure with
  error \<open>e\<close>; when the script is used up calls succeed unless a resource is exhausted.
\<close>

unbundle bit_operations_syntax

section \<open>The state\<close>

text \<open>A registration in an epoll instance; a one-shot registration that has fired is not armed.\<close>

record epitem =
  ep_events :: u32
  ep_data :: u64
  ep_armed :: bool

record timespec =
  tv_sec :: int
  tv_nsec :: int

record itimerspec =
  it_value :: timespec
  it_interval :: timespec

record os =
  os_open :: "int list"
  os_nofile :: nat
  os_ep :: "int \<Rightarrow> int \<Rightarrow> epitem option"
  os_nonblock :: "int list"
  os_timers :: "nat list"
  os_itimer :: "int \<Rightarrow> itimerspec option"
  os_script :: "errno option list"
  os_errno :: errno
  os_shutdown :: "int list"

definition EPOLLIN :: u32 where
  "EPOLLIN = 1"

definition EPOLLOUT :: u32 where
  "EPOLLOUT = 4"

definition EPOLLONESHOT :: u32 where
  "EPOLLONESHOT = push_bit 30 1"

section \<open>System calls\<close>

definition sys_take :: "os \<Rightarrow> errno option \<times> os" where
  "sys_take os =
     (case os_script os of
        [] \<Rightarrow> (None, os)
      | a # rest \<Rightarrow> (a, os\<lparr>os_script := rest\<rparr>))"

definition sys_fail :: "errno \<Rightarrow> os \<Rightarrow> int \<times> os" where
  "sys_fail e os = (-1, os\<lparr>os_errno := e\<rparr>)"

text \<open>A call that the environment lets fail, and does \<open>f\<close> otherwise.\<close>

definition sys_call :: "(os \<Rightarrow> int \<times> os) \<Rightarrow> os \<Rightarrow> int \<times> os" where
  "sys_call f os = (case sys_take os of (Some e, os) \<Rightarrow> sys_fail e os | (None, os) \<Rightarrow> f os)"

text \<open>The lowest descriptor that is not in use.\<close>

definition fresh_fd :: "int list \<Rightarrow> int" where
  "fresh_fd fds = (case find (\<lambda>i. i \<notin> set fds) (map int [0..<Suc (length fds)]) of None \<Rightarrow> -1 | Some i \<Rightarrow> i)"

definition sys_openfd :: "os \<Rightarrow> int \<times> os" where
  "sys_openfd = sys_call (\<lambda>os.
     if length (os_open os) < os_nofile os
     then let fd = fresh_fd (os_open os) in (fd, os\<lparr>os_open := fd # os_open os\<rparr>)
     else sys_fail EMFILE os)"

text \<open>Closing a descriptor removes it from every interest list and destroys its own list and timer.\<close>

definition sys_close :: "int \<Rightarrow> os \<Rightarrow> os" where
  "sys_close fd os =
     (if fd \<in> set (os_open os)
      then os\<lparr>os_open := removeAll fd (os_open os), os_nonblock := removeAll fd (os_nonblock os),
              os_ep := (\<lambda>ep f. if ep = fd \<or> f = fd then None else os_ep os ep f), os_itimer := (os_itimer os)(fd := None)\<rparr>
      else os)"

definition sys_set_nonblock :: "int \<Rightarrow> os \<Rightarrow> int \<times> os" where
  "sys_set_nonblock fd = sys_call (\<lambda>os.
     if fd \<in> set (os_open os) then (0, os\<lparr>os_nonblock := List.insert fd (os_nonblock os)\<rparr>)
     else sys_fail EBADF os)"

definition sys_shutdown :: "int \<Rightarrow> os \<Rightarrow> os" where
  "sys_shutdown fd os = os\<lparr>os_shutdown := os_shutdown os @ [fd]\<rparr>"

definition epoll_ctl_add :: "int \<Rightarrow> int \<Rightarrow> u32 \<times> u64 \<Rightarrow> os \<Rightarrow> int \<times> os" where
  "epoll_ctl_add ep fd ev = sys_call (\<lambda>os.
     if fd \<notin> set (os_open os) then sys_fail EBADF os
     else if os_ep os ep fd \<noteq> None then sys_fail EEXIST os
     else (0, os\<lparr>os_ep := (os_ep os)(ep := (os_ep os ep)
                (fd \<mapsto> \<lparr>ep_events = fst ev, ep_data = snd ev, ep_armed = True\<rparr>))\<rparr>))"

definition epoll_ctl_mod :: "int \<Rightarrow> int \<Rightarrow> u32 \<times> u64 \<Rightarrow> os \<Rightarrow> int \<times> os" where
  "epoll_ctl_mod ep fd ev = sys_call (\<lambda>os.
     if fd \<notin> set (os_open os) then sys_fail EBADF os
     else if os_ep os ep fd = None then sys_fail ENOENT os
     else (0, os\<lparr>os_ep := (os_ep os)(ep := (os_ep os ep)
                (fd \<mapsto> \<lparr>ep_events = fst ev, ep_data = snd ev, ep_armed = True\<rparr>))\<rparr>))"

definition epoll_ctl_del :: "int \<Rightarrow> int \<Rightarrow> os \<Rightarrow> int \<times> os" where
  "epoll_ctl_del ep fd = sys_call (\<lambda>os.
     if fd \<notin> set (os_open os) then sys_fail EBADF os
     else if os_ep os ep fd = None then sys_fail ENOENT os
     else (0, os\<lparr>os_ep := (os_ep os)(ep := (os_ep os ep)(fd := None))\<rparr>))"

text \<open>
  \<open>epoll_wait\<close>: \<open>rdy\<close> are the descriptors whose condition holds, in the order the kernel reports them.
  Armed registrations among them are reported, at most \<open>maxevents\<close>; the one-shot ones are disarmed.
\<close>

definition ep_ready :: "int \<Rightarrow> os \<Rightarrow> int \<Rightarrow> bool" where
  "ep_ready ep os fd = (case os_ep os ep fd of None \<Rightarrow> False | Some it \<Rightarrow> ep_armed it)"

definition ep_fired :: "int list \<Rightarrow> int \<Rightarrow> os \<Rightarrow> os" where
  "ep_fired fds ep os = os\<lparr>os_ep := (os_ep os)(ep := (\<lambda>fd.
     if fd \<in> set fds
     then map_option (\<lambda>it. if ep_events it AND EPOLLONESHOT = 0 then it else it\<lparr>ep_armed := False\<rparr>) (os_ep os ep fd)
     else os_ep os ep fd))\<rparr>"

definition epoll_wait :: "int \<Rightarrow> nat \<Rightarrow> int list \<Rightarrow> os \<Rightarrow> int \<times> u64 list \<times> os" where
  "epoll_wait ep maxevents rdy os =
     (case sys_take os of
        (Some e, os) \<Rightarrow> (-1, [], os\<lparr>os_errno := e\<rparr>)
      | (None, os) \<Rightarrow>
          let fds = take maxevents (filter (ep_ready ep os) (remdups rdy)) in
          (int (length fds), map (\<lambda>fd. ep_data (the (os_ep os ep fd))) fds, ep_fired fds ep os))"

text \<open>A pipe: the read end and the write end.\<close>

definition sys_pipe :: "os \<Rightarrow> int \<times> (int \<times> int) \<times> os" where
  "sys_pipe os =
     (case sys_take os of
        (Some e, os) \<Rightarrow> (-1, (-1, -1), os\<lparr>os_errno := e\<rparr>)
      | (None, os) \<Rightarrow>
          if Suc (length (os_open os)) < os_nofile os
          then let p0 = fresh_fd (os_open os); p1 = fresh_fd (p0 # os_open os) in
            (0, (p0, p1), os\<lparr>os_open := p1 # p0 # os_open os\<rparr>)
          else (-1, (-1, -1), os\<lparr>os_errno := EMFILE\<rparr>))"

definition timespec_ok :: "timespec \<Rightarrow> bool" where
  "timespec_ok ts \<longleftrightarrow> 0 \<le> tv_sec ts \<and> 0 \<le> tv_nsec ts \<and> tv_nsec ts < 1000000000"

definition sys_timerfd_settime :: "int \<Rightarrow> itimerspec \<Rightarrow> os \<Rightarrow> int \<times> os" where
  "sys_timerfd_settime fd spec = sys_call (\<lambda>os.
     if fd \<notin> set (os_open os) then sys_fail EBADF os
     else if timespec_ok (it_value spec) \<and> timespec_ok (it_interval spec)
     then (0, os\<lparr>os_itimer := (os_itimer os)(fd \<mapsto> spec)\<rparr>)
     else sys_fail EINVAL os)"

definition sys_timer_create :: "os \<Rightarrow> int \<times> nat \<times> os" where
  "sys_timer_create os =
     (case sys_take os of
        (Some e, os) \<Rightarrow> (-1, 0, os\<lparr>os_errno := e\<rparr>)
      | (None, os) \<Rightarrow> let t = Suc (Max (insert 0 (set (os_timers os)))) in
          (0, t, os\<lparr>os_timers := t # os_timers os\<rparr>))"

definition sys_timer_settime :: "nat \<Rightarrow> itimerspec \<Rightarrow> os \<Rightarrow> int \<times> os" where
  "sys_timer_settime t spec = sys_call (\<lambda>os.
     if t \<in> set (os_timers os) \<and> timespec_ok (it_value spec) \<and> timespec_ok (it_interval spec) then (0, os)
     else sys_fail EINVAL os)"

definition sys_timer_delete :: "nat \<Rightarrow> os \<Rightarrow> os" where
  "sys_timer_delete t os = os\<lparr>os_timers := removeAll t (os_timers os)\<rparr>"

text \<open>A read of \<open>n\<close> bytes from a descriptor that delivers fixed-size messages.\<close>

definition sys_read_msg :: "int \<Rightarrow> int \<Rightarrow> os \<Rightarrow> int \<times> os" where
  "sys_read_msg fd n = sys_call (\<lambda>os. if fd \<in> set (os_open os) then (n, os) else sys_fail EBADF os)"

section \<open>Facts\<close>

lemma find_upt_free:
  "\<exists>i. find (\<lambda>i. i \<notin> set fds) (map int [0..<Suc (length fds)]) = Some i \<and> i \<notin> set fds \<and> 0 \<le> i \<and> i \<le> int (length fds)"
proof -
  have "\<not> set (map int [0..<Suc (length fds)]) \<subseteq> set fds"
  proof
    assume "set (map int [0..<Suc (length fds)]) \<subseteq> set fds"
    then have "card (set (map int [0..<Suc (length fds)])) \<le> card (set fds)" by (intro card_mono) auto
    moreover have "card (set (map int [0..<Suc (length fds)])) = Suc (length fds)"
      by (subst distinct_card) (auto simp: distinct_map simp del: upt_Suc)
    ultimately show False using card_length [of fds] by linarith
  qed
  then have "find (\<lambda>i. i \<notin> set fds) (map int [0..<Suc (length fds)]) \<noteq> None"
    by (auto simp: find_None_iff simp del: upt_Suc)
  then obtain i where "find (\<lambda>i. i \<notin> set fds) (map int [0..<Suc (length fds)]) = Some i" by blast
  moreover from this have "i \<notin> set fds" "i \<in> set (map int [0..<Suc (length fds)])"
    by (auto simp: find_Some_iff simp del: upt_Suc map_upt_Suc)
  ultimately show ?thesis by auto
qed

lemma fresh_fd_notin [simp]: "fresh_fd fds \<notin> set fds" and fresh_fd_nonneg [simp]: "0 \<le> fresh_fd fds"
  using find_upt_free [of fds] by (auto simp: fresh_fd_def simp del: upt_Suc)

lemma fresh_fd_not_negative [simp]: "\<not> fresh_fd fds < 0"
  by (simp add: not_less)

lemma sys_take_keeps [simp]:
  assumes "sys_take os = (a, os')"
  shows "os_open os' = os_open os" "os_nofile os' = os_nofile os" "os_ep os' = os_ep os" "os_nonblock os' = os_nonblock os"
    "os_timers os' = os_timers os" "os_itimer os' = os_itimer os" "os_shutdown os' = os_shutdown os" "os_errno os' = os_errno os"
  using assms by (auto simp: sys_take_def split: list.splits)

lemma fresh_fd_le: "fresh_fd fds \<le> int (length fds)"
  using find_upt_free [of fds] by (auto simp: fresh_fd_def simp del: upt_Suc)

text \<open>Nothing is recorded for descriptors that are not open.\<close>

definition os_wf :: "os \<Rightarrow> bool" where
  "os_wf os \<longleftrightarrow> distinct (os_open os) \<and> os_nofile os \<le> 2147483648 \<and> set (os_nonblock os) \<subseteq> set (os_open os) \<and>
     (\<forall>fd. fd \<notin> set (os_open os) \<longrightarrow> (\<forall>f. os_ep os f fd = None \<and> os_ep os fd f = None) \<and> os_itimer os fd = None)"

text \<open>The resources a process holds.\<close>

definition same_resources :: "os \<Rightarrow> os \<Rightarrow> bool" where
  "same_resources os os' \<longleftrightarrow> os_open os' = os_open os \<and> os_ep os' = os_ep os \<and> os_nonblock os' = os_nonblock os \<and>
     os_itimer os' = os_itimer os \<and> os_timers os' = os_timers os \<and> os_nofile os' = os_nofile os"

text \<open>\<open>os'\<close> differs from \<open>os\<close> by the open descriptor \<open>fd\<close> and what is recorded for it.\<close>

definition plus_fd :: "int \<Rightarrow> os \<Rightarrow> os \<Rightarrow> bool" where
  "plus_fd fd os os' \<longleftrightarrow> fd \<notin> set (os_open os) \<and> os_open os' = fd # os_open os \<and>
     (\<forall>ep f. os_ep os ep f = (if ep = fd \<or> f = fd then None else os_ep os' ep f)) \<and> removeAll fd (os_nonblock os') = os_nonblock os \<and>
     (\<forall>f. os_itimer os f = (if f = fd then None else os_itimer os' f)) \<and> os_timers os' = os_timers os \<and> os_nofile os' = os_nofile os"

lemma same_resources_refl [simp]: "same_resources os os"
  by (simp add: same_resources_def)

lemma same_resources_trans: "same_resources a b \<Longrightarrow> same_resources b c \<Longrightarrow> same_resources a c"
  by (simp add: same_resources_def)

lemma same_resources_wf: "same_resources os os' \<Longrightarrow> os_wf os' = os_wf os"
  by (simp add: same_resources_def os_wf_def)

lemma sys_take_same: "sys_take os = (a, os') \<Longrightarrow> same_resources os os'"
  by (simp add: same_resources_def)

lemma plus_fd_close: "plus_fd fd os os' \<Longrightarrow> same_resources os (sys_close fd os')"
  by (auto simp: plus_fd_def same_resources_def sys_close_def fun_eq_iff)

lemma plus_fd_same: "plus_fd fd os os1 \<Longrightarrow> same_resources os1 os2 \<Longrightarrow> plus_fd fd os os2"
  by (simp add: plus_fd_def same_resources_def)

text \<open>A call made through the script fails without effect or does \<open>f\<close> on an equal state.\<close>

lemma sys_call_cases:
  assumes "sys_call f os = (r, os')"
  obtains "r < 0" "same_resources os os'" | os1 where "same_resources os os1" "f os1 = (r, os')"
proof -
  obtain a os1 where t: "sys_take os = (a, os1)" by fastforce
  have s: "same_resources os os1" by (rule sys_take_same [OF t])
  show thesis
  proof (cases a)
    case None
    then show thesis using assms t s that(2) by (simp add: sys_call_def)
  next
    case (Some e)
    then have "r < 0" "same_resources os os'" using assms t s
      by (auto simp: sys_call_def sys_fail_def same_resources_def)
    then show thesis by (rule that(1))
  qed
qed

lemma sys_fail_same: "sys_fail e os = (r, os') \<Longrightarrow> r < 0 \<and> same_resources os os'"
  by (auto simp: sys_fail_def same_resources_def)

lemma sys_openfd_result:
  assumes "sys_openfd os = (fd, os')" "os_wf os"
  shows "if fd < 0 then same_resources os os' else plus_fd fd os os' \<and> fd < 2147483648"
  using assms(1) unfolding sys_openfd_def
proof (cases rule: sys_call_cases)
  case (2 os1)
  have wf: "os_wf os1" using same_resources_wf 2(1) assms(2) by simp
  show ?thesis
  proof (cases "length (os_open os1) < os_nofile os1")
    case True
    have "plus_fd (fresh_fd (os_open os1)) os1 os'" "fd = fresh_fd (os_open os1)"
      using 2(2) True wf
      by (auto simp: Let_def plus_fd_def os_wf_def intro!: removeAll_id)
    moreover have "fd < 2147483648" using True wf fresh_fd_le [of "os_open os1"] calculation(2) by (simp add: os_wf_def)
    moreover have "0 \<le> fd" using calculation(2) by simp
    ultimately show ?thesis using 2(1) by (simp add: plus_fd_def same_resources_def not_less)
  next
    case False
    then show ?thesis using 2 sys_fail_same same_resources_trans by auto
  qed
qed simp

lemma sys_set_nonblock_result:
  assumes "plus_fd fd os os1" "sys_set_nonblock fd os1 = (r, os2)"
  shows "plus_fd fd os os2 \<and> (0 \<le> r \<longrightarrow> fd \<in> set (os_nonblock os2))"
  using assms(2) unfolding sys_set_nonblock_def
proof (cases rule: sys_call_cases)
  case (2 os3)
  then show ?thesis using plus_fd_same [OF assms(1) 2(1)]
    by (auto simp: plus_fd_def List.insert_def split: if_splits)
qed (use assms plus_fd_same in auto)

lemma sys_timerfd_settime_result:
  assumes "plus_fd fd os os1" "sys_timerfd_settime fd spec os1 = (r, os2)"
  shows "plus_fd fd os os2 \<and> os_nonblock os2 = os_nonblock os1 \<and>
     (0 \<le> r \<longrightarrow> os_itimer os2 fd = Some spec \<and> timespec_ok (it_value spec) \<and> timespec_ok (it_interval spec))"
  using assms(2) unfolding sys_timerfd_settime_def
proof (cases rule: sys_call_cases)
  case 1
  then show ?thesis using plus_fd_same [OF assms(1)] by (auto simp: same_resources_def)
next
  case (2 os3)
  then show ?thesis using plus_fd_same [OF assms(1) 2(1)]
    by (auto simp: plus_fd_def sys_fail_def same_resources_def split: if_splits)
qed

lemma epoll_ctl_add_result:
  assumes "plus_fd fd os os1" "epoll_ctl_add ep fd ev os1 = (r, os2)"
  shows "plus_fd fd os os2 \<and> os_nonblock os2 = os_nonblock os1 \<and> os_itimer os2 = os_itimer os1"
  using assms(2) unfolding epoll_ctl_add_def
proof (cases rule: sys_call_cases)
  case 1
  then show ?thesis using plus_fd_same [OF assms(1)] by (auto simp: same_resources_def)
next
  case (2 os3)
  then show ?thesis using plus_fd_same [OF assms(1) 2(1)]
    by (auto simp: plus_fd_def sys_fail_def same_resources_def split: if_splits)
qed

text \<open>An operating system with descriptors 0 to 2, an epoll instance on 3, and the given script.\<close>

definition os_sample :: "errno option list \<Rightarrow> os" where
  "os_sample script =
     \<lparr>os_open = [3, 2, 1, 0], os_nofile = 64, os_ep = (\<lambda>_ _. None), os_nonblock = [], os_timers = [],
      os_itimer = (\<lambda>_. None), os_script = script, os_errno = EAGAIN, os_shutdown = []\<rparr>"

lemma os_sample_wf [simp]: "os_wf (os_sample sc)"
  by (simp add: os_sample_def os_wf_def)

end
