(* ===== verification/Kernel_Epoll.thy ===== *)
theory Kernel_Epoll
  imports Kernel Posix
begin

text \<open>
  \<open>src/mpsrc/wavy_kernel_epoll.h\<close>: the Linux implementation of the kernel interface. The object
  holds the descriptor of an epoll instance, everything else is state of the operating system.
  An event is one 64-bit word that packs the descriptor and the event mask. Timers and signals are
  descriptors of their own (\<open>timerfd\<close>, \<open>signalfd\<close>), or a pipe fed by a POSIX timer in the build
  without \<open>timerfd\<close>. The interpretations \<open>epr\<close> and \<open>epw\<close> discharge the kernel contract for read and
  write events.
\<close>

unbundle bit_operations_syntax

section \<open>The kernel object and its events\<close>

definition EVKERNEL_READ :: u32 where
  "EVKERNEL_READ = EPOLLIN"

definition EVKERNEL_WRITE :: u32 where
  "EVKERNEL_WRITE = EPOLLOUT"

definition MP_WAVY_KERNEL_BACKLOG_SIZE :: nat where
  "MP_WAVY_KERNEL_BACKLOG_SIZE = 1024"

record kernel =
  m_ep :: int

definition kernel_new :: "os \<Rightarrow> (kernel, os) outcome" where
  "kernel_new os =
     (let (fd, os) = sys_openfd os in
      if fd < 0 then Exn (System_error (os_errno os)) os else Ret \<lparr>m_ep = fd\<rparr> os)"

definition kernel_delete :: "kernel \<Rightarrow> os \<Rightarrow> os" where
  "kernel_delete k os = sys_close (m_ep k) os"

definition kernel_max :: "os \<Rightarrow> (nat, os) outcome" where
  "kernel_max os =
     (case sys_take os of
        (Some e, os) \<Rightarrow> Exn (System_error e) os
      | (None, os) \<Rightarrow> Ret (os_nofile os) os)"

type_synonym event = u64

definition ident :: "event \<Rightarrow> int" where
  "ident m_data = sint (ucast (m_data AND 0xffffffff) :: 32 word)"

definition events :: "event \<Rightarrow> u32" where
  "events m_data = ucast (drop_bit 32 m_data)"

text \<open>The word that \<open>add_fd\<close> stores with a registration.\<close>

definition event_data :: "int \<Rightarrow> u32 \<Rightarrow> event" where
  "event_data fd evs = word_of_int fd OR push_bit 32 (ucast evs)"

definition add_fd :: "kernel \<Rightarrow> u32 \<Rightarrow> int \<Rightarrow> os \<Rightarrow> int \<times> os" where
  "add_fd k event fd os =
     (let evs = event OR EPOLLONESHOT in epoll_ctl_add (m_ep k) fd (evs, event_data fd evs) os)"

definition remove_fd :: "kernel \<Rightarrow> int \<Rightarrow> os \<Rightarrow> int \<times> os" where
  "remove_fd k fd os = epoll_ctl_del (m_ep k) fd os"

definition add_kernel :: "kernel \<Rightarrow> kernel \<Rightarrow> os \<Rightarrow> int \<times> os" where
  "add_kernel k kern os =
     (let (r, os) = add_fd k EVKERNEL_READ (m_ep kern) os in
      if r < 0 then (-1, os) else (m_ep kern, os))"

text \<open>\<open>wait\<close> fills the backlog; the events are what \<open>backlog::operator[]\<close> reads from it.\<close>

definition wait :: "kernel \<Rightarrow> int list \<Rightarrow> os \<Rightarrow> int \<times> event list \<times> os" where
  "wait k rdy os = epoll_wait (m_ep k) MP_WAVY_KERNEL_BACKLOG_SIZE rdy os"

definition reactivate :: "kernel \<Rightarrow> event \<Rightarrow> os \<Rightarrow> int \<times> os" where
  "reactivate k e os = epoll_ctl_mod (m_ep k) (ident e) (events e, e) os"

definition remove :: "kernel \<Rightarrow> event \<Rightarrow> os \<Rightarrow> int \<times> os" where
  "remove k e os = epoll_ctl_del (m_ep k) (ident e) os"

section \<open>Packing of events\<close>

definition fdok :: "int \<Rightarrow> bool" where
  "fdok fd \<longleftrightarrow> 0 \<le> fd \<and> fd < 2147483648"

lemma low_mask: "(0xffffffff :: u64) = mask 32"
  by (simp add: mask_eq_exp_minus_1)

lemma ident_event_data:
  assumes "fdok fd"
  shows "ident (event_data fd evs) = fd"
proof -
  have "ucast (event_data fd evs AND mask 32) = (word_of_int fd :: 32 word)"
    by (rule bit_word_eqI) (auto simp: event_data_def bit_simps)
  then show ?thesis using assms unfolding ident_def low_mask
    by (simp add: fdok_def signed_of_int signed_take_bit_int_eq_self)
qed

lemma events_event_data:
  assumes "fdok fd"
  shows "events (event_data fd evs) = evs"
proof -
  have hi: "\<not> bit fd (32 + n)" for n
  proof -
    have "fd < 2 ^ (32 + n)" using assms by (auto simp: fdok_def power_add intro: less_le_trans [of _ "2 ^ 32"])
    then show ?thesis using assms by (simp add: fdok_def bit_iff_odd)
  qed
  show ?thesis using hi
    by (intro bit_word_eqI) (auto simp: events_def event_data_def bit_simps)
qed

section \<open>The kernel contract\<close>

text \<open>
  Every registration is one-shot and carries the word that identifies it; an event reported by
  \<open>wait\<close> is such a word.
\<close>

definition evok :: "event \<Rightarrow> bool" where
  "evok e \<longleftrightarrow> fdok (ident e) \<and> e = event_data (ident e) (events e) \<and> events e AND EPOLLONESHOT \<noteq> 0"

definition ep_wf :: "kernel \<Rightarrow> os \<Rightarrow> bool" where
  "ep_wf k os \<longleftrightarrow> (\<forall>fd it. os_ep os (m_ep k) fd = Some it \<longrightarrow>
     ident (ep_data it) = fd \<and> events (ep_data it) = ep_events it \<and> evok (ep_data it))"

definition armed :: "kernel \<Rightarrow> os \<Rightarrow> int set" where
  "armed k os = {fd. ep_ready (m_ep k) os fd}"

lemma evok_event_data: "fdok fd \<Longrightarrow> evs AND EPOLLONESHOT \<noteq> 0 \<Longrightarrow> evok (event_data fd evs)"
  by (simp add: evok_def ident_event_data events_event_data)

lemma oneshot_set: "(ev OR EPOLLONESHOT) AND EPOLLONESHOT \<noteq> 0"
proof -
  have "(ev OR EPOLLONESHOT) AND EPOLLONESHOT = EPOLLONESHOT" by (rule bit_word_eqI) (auto simp: bit_simps)
  then show ?thesis by (simp add: EPOLLONESHOT_def)
qed

lemmas ep_simps = ep_wf_def armed_def ep_ready_def sys_fail_def

lemma epoll_ctl_set_law:
  assumes wf: "ep_wf k os" and data: "fdok fd" "ident d = fd" "events d = evs" "evok d"
    and r: "epoll_ctl_add (m_ep k) fd (evs, d) os = (r, os') \<or> epoll_ctl_mod (m_ep k) fd (evs, d) os = (r, os')"
  shows "ep_wf k os' \<and> armed k os' = (if r < 0 then armed k os else insert fd (armed k os))"
proof -
  obtain a os1 where t: "sys_take os = (a, os1)" by fastforce
  have keep: "os_ep os1 = os_ep os" "os_open os1 = os_open os" using t by simp_all
  consider "r < 0" "os_ep os' = os_ep os"
    | "\<not> r < 0" "os_ep os' = (os_ep os)(m_ep k := (os_ep os (m_ep k))
         (fd \<mapsto> \<lparr>ep_events = evs, ep_data = d, ep_armed = True\<rparr>))"
    using r t keep
    by (auto simp: epoll_ctl_add_def epoll_ctl_mod_def sys_call_def sys_fail_def split: option.splits if_splits)
  then show ?thesis
  proof cases
    case 1
    then show ?thesis using wf by (simp add: ep_simps)
  next
    case 2
    then show ?thesis using wf data by (auto simp: ep_simps split: option.splits if_splits)
  qed
qed

lemma epoll_add_law:
  "ep_wf k os \<Longrightarrow> fdok fd \<Longrightarrow> add_fd k ev fd os = (r, os') \<Longrightarrow>
     ep_wf k os' \<and> armed k os' = (if r < 0 then armed k os else insert fd (armed k os))"
  by (rule epoll_ctl_set_law [where d = "event_data fd (ev OR EPOLLONESHOT)" and evs = "ev OR EPOLLONESHOT"])
     (simp_all add: add_fd_def Let_def ident_event_data events_event_data evok_event_data [OF _ oneshot_set])

lemma epoll_reactivate_law:
  "ep_wf k os \<Longrightarrow> evok e \<Longrightarrow> reactivate k e os = (r, os') \<Longrightarrow>
     ep_wf k os' \<and> armed k os' = (if r < 0 then armed k os else insert (ident e) (armed k os))"
  by (rule epoll_ctl_set_law [where d = e and evs = "events e"]) (simp_all add: reactivate_def evok_def)

lemma epoll_del_law:
  assumes "ep_wf k os" "epoll_ctl_del (m_ep k) fd os = (r, os')"
  shows "ep_wf k os' \<and> armed k os' = (if r < 0 then armed k os else armed k os - {fd})"
proof -
  obtain a os1 where t: "sys_take os = (a, os1)" by fastforce
  have keep: "os_ep os1 = os_ep os" using t by simp
  show ?thesis using assms t keep
    by (auto simp: epoll_ctl_del_def sys_call_def ep_simps split: option.splits if_splits)
qed

lemma epoll_remove_law:
  "ep_wf k os \<Longrightarrow> ident e \<notin> armed k os \<Longrightarrow> remove k e os = (r, os') \<Longrightarrow>
     ep_wf k os' \<and> armed k os' = armed k os"
  using epoll_del_law [of k os "ident e" r os'] by (simp add: remove_def)

lemma epoll_wait_law:
  assumes wf: "ep_wf k os" and w: "wait k rdy os = (n, evs, os')"
  shows "ep_wf k os' \<and> distinct (map ident evs) \<and> set (map ident evs) \<subseteq> armed k os \<and>
     armed k os' = armed k os - set (map ident evs) \<and> list_all evok evs \<and> n \<le> int (length evs)"
proof -
  obtain a os1 where t: "sys_take os = (a, os1)" by fastforce
  have keep: "os_ep os1 = os_ep os" using t by simp
  show ?thesis
  proof (cases a)
    case (Some e)
    then show ?thesis using w wf t keep by (auto simp: wait_def epoll_wait_def ep_simps)
  next
    case None
    define fds where "fds = take MP_WAVY_KERNEL_BACKLOG_SIZE (filter (ep_ready (m_ep k) os) (remdups rdy))"
    have eq: "ep_ready (m_ep k) os1 = ep_ready (m_ep k) os" using keep by (simp add: ep_ready_def fun_eq_iff)
    have r: "evs = map (\<lambda>fd. ep_data (the (os_ep os (m_ep k) fd))) fds" "n = int (length fds)"
      "os' = ep_fired fds (m_ep k) os1"
      using w t None keep by (auto simp: wait_def epoll_wait_def fds_def eq Let_def)
    have rdy: "fd \<in> set fds \<Longrightarrow> ep_ready (m_ep k) os fd" for fd
      unfolding fds_def by (auto dest: in_set_takeD)
    have it: "\<exists>it. os_ep os (m_ep k) fd = Some it \<and> ep_armed it" if "fd \<in> set fds" for fd
      using rdy [OF that] by (auto simp: ep_ready_def split: option.splits)
    have ids: "map ident evs = fds" unfolding r(1)
      using it wf by (auto simp: ep_wf_def intro!: map_idI) force
    have "list_all evok evs" using it wf by (fastforce simp: r(1) list_all_iff ep_wf_def)
    moreover have "distinct fds" by (simp add: fds_def)
    moreover have "ep_wf k os'" using wf unfolding r(3) by (auto simp: ep_wf_def ep_fired_def keep)
    moreover have "armed k os' = armed k os - set fds"
    proof -
      have "ep_events it AND EPOLLONESHOT \<noteq> 0" if "os_ep os (m_ep k) fd = Some it" for fd it
        using wf that unfolding ep_wf_def evok_def by metis
      then have "ep_ready (m_ep k) os' fd \<longleftrightarrow> ep_ready (m_ep k) os fd \<and> fd \<notin> set fds" for fd
        unfolding r(3) by (cases "os_ep os (m_ep k) fd") (auto simp: ep_ready_def ep_fired_def keep)
      then show ?thesis by (auto simp: armed_def)
    qed
    moreover have "set fds \<subseteq> armed k os" using rdy by (auto simp: armed_def)
    ultimately show ?thesis using r(1,2) ids by simp
  qed
qed

interpretation epr: event_kernel "ep_wf k" "armed k" fdok evok ident "add_fd k EVKERNEL_READ" "reactivate k" "remove k" "wait k"
  for k
  by (unfold_locales; rule epoll_add_law epoll_wait_law epoll_reactivate_law epoll_remove_law; assumption)

interpretation epw: event_kernel "ep_wf k" "armed k" fdok evok ident "add_fd k EVKERNEL_WRITE" "reactivate k" "remove k" "wait k"
  for k
  by (unfold_locales; rule epoll_add_law epoll_wait_law epoll_reactivate_law epoll_remove_law; assumption)

section \<open>Calls that succeed\<close>

definition registered :: "kernel \<Rightarrow> os \<Rightarrow> int \<Rightarrow> bool" where
  "registered k os fd \<longleftrightarrow> os_ep os (m_ep k) fd \<noteq> None"

text \<open>What the registration calls leave alone.\<close>

definition quiet :: "os \<Rightarrow> os \<Rightarrow> bool" where
  "quiet os os' \<longleftrightarrow> os_open os' = os_open os \<and> os_script os' = os_script os \<and> os_shutdown os' = os_shutdown os"

lemma sys_call_quiet [simp]: "os_script os = [] \<Longrightarrow> sys_call f os = f os"
  by (simp add: sys_call_def sys_take_def)

lemma add_fd_ok:
  assumes "os_script os = []" "fd \<in> set (os_open os)" "\<not> registered k os fd"
  shows "\<exists>os'. add_fd k ev fd os = (0, os') \<and> quiet os os' \<and> (\<forall>f. registered k os' f \<longleftrightarrow> registered k os f \<or> f = fd)"
  using assms by (auto simp: add_fd_def epoll_ctl_add_def registered_def quiet_def Let_def)

lemma reactivate_ok:
  assumes "os_script os = []" "ident e \<in> set (os_open os)" "registered k os (ident e)"
  shows "\<exists>os'. reactivate k e os = (0, os') \<and> quiet os os' \<and> (\<forall>f. registered k os' f \<longleftrightarrow> registered k os f)"
  using assms by (auto simp: reactivate_def epoll_ctl_mod_def registered_def quiet_def)

lemma remove_ok:
  assumes "os_script os = []" "ident e \<in> set (os_open os)" "registered k os (ident e)"
  shows "\<exists>os'. remove k e os = (0, os') \<and> quiet os os' \<and> (\<forall>f. registered k os' f \<longleftrightarrow> registered k os f \<and> f \<noteq> ident e)"
  using assms by (auto simp: remove_def epoll_ctl_del_def registered_def quiet_def)

lemma wait_ok:
  assumes "os_script os = []"
  shows "\<exists>evs os'. wait k rdy os = (int (length evs), evs, os') \<and> quiet os os' \<and>
     (\<forall>f. registered k os' f \<longleftrightarrow> registered k os f)"
  using assms by (auto simp: wait_def epoll_wait_def sys_take_def ep_fired_def registered_def quiet_def Let_def)

text \<open>Descriptors that are armed are registered.\<close>

lemma armed_registered: "fd \<in> armed k os \<Longrightarrow> registered k os fd"
  by (auto simp: armed_def ep_ready_def registered_def split: option.splits)

text \<open>An armed descriptor whose condition holds is reported unless the backlog is full.\<close>

lemma wait_reports:
  assumes "ep_wf k os" "os_script os = []" "fd \<in> armed k os" "fd \<in> set rdy" "wait k rdy os = (n, evs, os')"
  shows "fd \<in> set (map ident evs) \<or> n = int MP_WAVY_KERNEL_BACKLOG_SIZE"
proof -
  define ready where "ready = filter (ep_ready (m_ep k) os) (remdups rdy)"
  define fds where "fds = take MP_WAVY_KERNEL_BACKLOG_SIZE ready"
  have r: "evs = map (\<lambda>fd. ep_data (the (os_ep os (m_ep k) fd))) fds" "n = int (length fds)"
    using assms(2,5) by (auto simp: wait_def epoll_wait_def sys_take_def fds_def ready_def Let_def)
  have "ident (ep_data (the (os_ep os (m_ep k) f))) = f" if "f \<in> set fds" for f
    using that assms(1) by (auto simp: fds_def ready_def ep_ready_def ep_wf_def dest!: in_set_takeD split: option.splits)
  then have "map ident evs = fds" by (simp add: r(1) map_idI)
  moreover have "fd \<in> set ready" using assms(3,4) by (simp add: ready_def armed_def)
  ultimately show ?thesis using r(2) by (cases "length ready \<le> MP_WAVY_KERNEL_BACKLOG_SIZE") (auto simp: fds_def)
qed

text \<open>When a single armed descriptor is ready it is reported alone.\<close>

lemma distinct_one: "distinct xs \<Longrightarrow> set xs = {a} \<Longrightarrow> xs = [a]"
  by (cases xs) (auto simp: subset_singleton_iff insert_eq_iff)

lemma wait_single:
  assumes "ep_wf k os" "os_script os = []" "fd \<in> armed k os" "fd \<in> set rdy" "set rdy \<inter> armed k os \<subseteq> {fd}"
  shows "\<exists>e os'. wait k rdy os = (1, [e], os') \<and> ident e = fd"
proof -
  let ?ready = "filter (ep_ready (m_ep k) os) (remdups rdy)"
  have "distinct ?ready" "set ?ready = {fd}" using assms(3-5) by (auto simp: armed_def)
  then have "?ready = [fd]" by (rule distinct_one)
  moreover obtain it where "os_ep os (m_ep k) fd = Some it" using assms(3) by (auto simp: armed_def ep_ready_def split: option.splits)
  moreover from this have "ident (ep_data it) = fd" using assms(1,3) by (auto simp: ep_wf_def armed_def ep_ready_def)
  ultimately show ?thesis using assms(2)
    by (auto simp: wait_def epoll_wait_def sys_take_def Let_def MP_WAVY_KERNEL_BACKLOG_SIZE_def)
qed

lemma os_sample_ep_wf [simp]: "ep_wf k (os_sample sc)"
  by (simp add: os_sample_def ep_wf_def)

section \<open>Properties of the epoll kernel\<close>

text \<open>
  C24. One-shot delivery: events that \<open>wait\<close> reports belong to different descriptors, each of them
  armed before and none of them armed afterwards; together with the events that are already in
  flight they still have different descriptors, so two workers never own events of one descriptor.
  Giving an event back with \<open>reactivate\<close> arms exactly its descriptor again.
\<close>
theorem epoll_one_shot:
  assumes "ep_wf k os" and "exclusive (armed k os) flight" and "wait k rdy os = (n, evs, os')"
  shows "set (map ident evs) \<subseteq> armed k os \<and> armed k os' = armed k os - set (map ident evs) \<and>
     exclusive (armed k os') (map ident evs @ flight) \<and> ep_wf k os' \<and>
     (\<forall>e\<in>set evs. \<forall>r os''. reactivate k e os' = (r, os'') \<and> 0 \<le> r \<longrightarrow> armed k os'' = insert (ident e) (armed k os'))"
proof -
  note law = epr.wait_law [OF assms(1,3)]
  have "armed k os'' = insert (ident e) (armed k os')" if "e \<in> set evs" "reactivate k e os' = (r, os'')" "0 \<le> r" for e r os''
    using epr.reactivate_law [of k os' e r os''] law that by (auto simp: list_all_iff)
  then show ?thesis using law epr.wait_exclusive [OF assms] by blast
qed

theorem epoll_one_shot_witness:
  "case wait \<lparr>m_ep = 3\<rparr> [1] (snd (add_fd \<lparr>m_ep = 3\<rparr> EVKERNEL_READ 1 (os_sample []))) of (n, evs, os') \<Rightarrow>
     set (map ident evs) \<subseteq> armed \<lparr>m_ep = 3\<rparr> (snd (add_fd \<lparr>m_ep = 3\<rparr> EVKERNEL_READ 1 (os_sample []))) \<and>
     armed \<lparr>m_ep = 3\<rparr> os' = armed \<lparr>m_ep = 3\<rparr> (snd (add_fd \<lparr>m_ep = 3\<rparr> EVKERNEL_READ 1 (os_sample []))) - set (map ident evs) \<and>
     exclusive (armed \<lparr>m_ep = 3\<rparr> os') (map ident evs @ []) \<and> ep_wf \<lparr>m_ep = 3\<rparr> os' \<and>
     (\<forall>e\<in>set evs. \<forall>r os''. reactivate \<lparr>m_ep = 3\<rparr> e os' = (r, os'') \<and> 0 \<le> r \<longrightarrow>
        armed \<lparr>m_ep = 3\<rparr> os'' = insert (ident e) (armed \<lparr>m_ep = 3\<rparr> os'))"
proof -
  obtain r os1 where a: "add_fd \<lparr>m_ep = 3\<rparr> EVKERNEL_READ 1 (os_sample []) = (r, os1)" by fastforce
  have wf: "ep_wf \<lparr>m_ep = 3\<rparr> os1" using epoll_add_law [OF os_sample_ep_wf _ a] by (simp add: fdok_def)
  obtain n evs os' where w: "wait \<lparr>m_ep = 3\<rparr> [1] os1 = (n, evs, os')" by (metis prod_cases3)
  from epoll_one_shot [OF wf exclusive_Nil w] show ?thesis unfolding a snd_conv w prod.case .
qed

end
