(* ===== verification/Out.thy ===== *)
theory Out
  imports Xfer_Class Kernel_Epoll
begin

text \<open>
  The output component, class \<open>out\<close> of \<open>src/mpsrc/wavy_out.h\<close> and \<open>wavy_out.cc\<close>: one transfer list
  (context) per descriptor, a kernel that reports when descriptors become writable, the queue of
  reported events and the number of descriptors that are being watched. The world is the
  operating system and, per descriptor, what was written so far and how the descriptor will answer
  writes. A method is one step, as it runs under the mutex of the context.
\<close>

section \<open>State\<close>

record out =
  o_kernel :: kernel
  o_ctx :: "xfer list"
  o_watching :: int
  o_queue :: "event list"

record world =
  wd_os :: os
  wd_io :: "int \<Rightarrow> io"

type_synonym ost = "out \<times> world"

definition set_ctx :: "int \<Rightarrow> xfer \<Rightarrow> out \<Rightarrow> out" where
  "set_ctx fd x m = m\<lparr>o_ctx := (o_ctx m)[nat fd := x]\<rparr>"

definition set_io :: "int \<Rightarrow> io \<Rightarrow> world \<Rightarrow> world" where
  "set_io fd io w = w\<lparr>wd_io := (wd_io w)(fd := io)\<rparr>"

definition set_os :: "os \<Rightarrow> world \<Rightarrow> world" where
  "set_os os w = w\<lparr>wd_os := os\<rparr>"

text \<open>\<open>ANON_fdctx[fd]\<close>, an index without a check.\<close>

definition ctx_at :: "int \<Rightarrow> out \<Rightarrow> xfer option" where
  "ctx_at fd m = (if 0 \<le> fd \<and> nat fd < length (o_ctx m) then Some (o_ctx m ! nat fd) else None)"

text \<open>The result of an operation on the context of \<open>fd\<close> as a result on the whole state.\<close>

fun on_ctx :: "int \<Rightarrow> ost \<Rightarrow> ('a, xfer) outcome \<Rightarrow> ('a, ost) outcome" where
  "on_ctx fd (m, w) (Ret a x) = Ret a (set_ctx fd x m, w)"
| "on_ctx fd (m, w) (Exn e x) = Exn e (set_ctx fd x m, w)"
| "on_ctx fd (m, w) (Fault f) = Fault f"

section \<open>Operations\<close>

definition out_new :: "(size_t \<Rightarrow> bool) \<Rightarrow> os \<Rightarrow> (out, os) outcome" where
  "out_new alloc os =
     bind_outcome (kernel_new os) (\<lambda>k os.
     case kernel_max os of
       Ret n os \<Rightarrow>
         if alloc (of_nat (64 * n))
         then Ret \<lparr>o_kernel = k, o_ctx = replicate n xfer_new, o_watching = 0, o_queue = []\<rparr> os
         else Exn Bad_alloc (kernel_delete k os)
     | Exn e os \<Rightarrow> Exn e (kernel_delete k os)
     | Fault f \<Rightarrow> Fault f)"

text \<open>\<open>delete[]\<close> destroys the contexts from the last to the first, then the kernel is closed.\<close>

fun delete_ctxs :: "nat \<Rightarrow> ost \<Rightarrow> (unit, ost) outcome" where
  "delete_ctxs 0 s = Ret () s"
| "delete_ctxs (Suc i) (m, w) =
     (case xfer_delete (o_ctx m ! i) of
        Ret _ fs \<Rightarrow> delete_ctxs i (m, set_io (int i) (fst (wd_io w (int i)) @ fs, snd (wd_io w (int i))) w)
      | Exn e fs \<Rightarrow> Exn e (m, w)
      | Fault f \<Rightarrow> Fault f)"

definition out_delete :: "ost \<Rightarrow> (unit, ost) outcome" where
  "out_delete s =
     bind_outcome (delete_ctxs (length (o_ctx (fst s))) s) (\<lambda>_ (m, w).
     Ret () (m\<lparr>o_ctx := []\<rparr>, set_os (kernel_delete (o_kernel m) (wd_os w)) w))"

definition poll_event :: "int list \<Rightarrow> ost \<Rightarrow> (unit, ost) outcome" where
  "poll_event rdy s =
     (let (m, w) = s; (num, backlog, os) = wait (o_kernel m) rdy (wd_os w); w = set_os os w in
      if num \<le> 0 then
        if num = 0 \<or> os_errno os = EINTR \<or> os_errno os = EAGAIN then Ret () (m, w)
        else Exn (System_error (os_errno os)) (m, w)
      else Ret () (m\<lparr>o_queue := o_queue m @ take (nat num) backlog\<rparr>, w))"

definition has_queue :: "out \<Rightarrow> bool" where
  "has_queue m \<longleftrightarrow> o_queue m \<noteq> []"

text \<open>\<open>next\<close> on an empty queue has no defined behaviour.\<close>

definition next_event :: "out \<Rightarrow> (event \<times> out) option" where
  "next_event m = (case o_queue m of [] \<Rightarrow> None | e # q \<Rightarrow> Some (e, m\<lparr>o_queue := q\<rparr>))"

definition out_empty :: "out \<Rightarrow> bool" where
  "out_empty m \<longleftrightarrow> o_watching m = 0"

text \<open>The call of \<open>try_write\<close> inside \<open>try { } catch (...) { cont = false; }\<close>.\<close>

definition try_write_caught :: "xfer \<times> io \<Rightarrow> (bool \<times> bool, xfer \<times> io) outcome" where
  "try_write_caught s = (case try_write s of Exn _ s' \<Rightarrow> Ret (False, False) s' | r \<Rightarrow> r)"

definition write_event :: "event \<Rightarrow> ost \<Rightarrow> (bool, ost) outcome" where
  "write_event e s =
     (let (m, w) = s; fd = ident e in
      case ctx_at fd m of
        None \<Rightarrow> Fault Out_of_bounds
      | Some ctx \<Rightarrow>
          (case try_write_caught (ctx, wd_io w fd) of
             Ret (cont, shut) (ctx, io) \<Rightarrow>
               let os = (if shut then sys_shutdown fd (wd_os w) else wd_os w) in
               if \<not> cont then
                 let (_, os) = remove (o_kernel m) e os in
                 (case clear ctx of
                    Ret ctx fs \<Rightarrow>
                      let watching = o_watching m - 1 in
                      Ret (watching = 0)
                        (set_ctx fd ctx m\<lparr>o_watching := watching\<rparr>, set_os os (set_io fd (fst io @ fs, snd io) w))
                  | Exn e' fs \<Rightarrow> Exn e' (set_ctx fd ctx m, set_os os (set_io fd (fst io @ fs, snd io) w))
                  | Fault f \<Rightarrow> Fault f)
               else let (_, os) = reactivate (o_kernel m) e os in
                 Ret False (set_ctx fd ctx m, set_os os (set_io fd io w))
           | Exn e' (ctx, io) \<Rightarrow> Exn e' (set_ctx fd ctx m, set_io fd io w)
           | Fault f \<Rightarrow> Fault f))"

definition watch :: "int \<Rightarrow> ost \<Rightarrow> ost" where
  "watch fd s =
     (let (m, w) = s; (_, os) = add_fd (o_kernel m) EVKERNEL_WRITE fd (wd_os w) in
      (m\<lparr>o_watching := o_watching m + 1\<rparr>, set_os os w))"

definition commit_raw :: "(size_t \<Rightarrow> bool) \<Rightarrow> int \<Rightarrow> mem \<Rightarrow> ost \<Rightarrow> (unit, ost) outcome" where
  "commit_raw alloc fd xfbuf s =
     (let (m, w) = s in
      case ctx_at fd m of
        None \<Rightarrow> Fault Out_of_bounds
      | Some ctx \<Rightarrow>
          if \<not> xfer_empty ctx then on_ctx fd (m, w) (push_xfraw alloc xfbuf ctx)
          else (case execute xfbuf (wd_io w fd) of
                  Ret (cont, xfbuf) io \<Rightarrow>
                    let w = set_io fd io w in
                    if cont
                    then bind_outcome (on_ctx fd (m, w) (push_xfraw alloc xfbuf ctx)) (\<lambda>_ s. Ret () (watch fd s))
                    else Ret () (m, w)
                | Exn e io \<Rightarrow> Exn e (m, set_io fd io w)
                | Fault f \<Rightarrow> Fault f))"

text \<open>\<open>migrate\<close> from a client's object into the context of \<open>fd\<close>.\<close>

fun migrate_ctx :: "(size_t \<Rightarrow> bool) \<Rightarrow> int \<Rightarrow> xfer \<Rightarrow> xfer \<Rightarrow> ost \<Rightarrow> (unit, xfer \<times> ost) outcome" where
  "migrate_ctx alloc fd xf ctx (m, w) =
     (case migrate alloc (xf, ctx) of
        Ret _ (xf, ctx) \<Rightarrow> Ret () (xf, set_ctx fd ctx m, w)
      | Exn e (xf, ctx) \<Rightarrow> Exn e (xf, set_ctx fd ctx m, w)
      | Fault f \<Rightarrow> Fault f)"

definition commit :: "(size_t \<Rightarrow> bool) \<Rightarrow> int \<Rightarrow> xfer \<times> ost \<Rightarrow> (unit, xfer \<times> ost) outcome" where
  "commit alloc fd s =
     (let (xf, m, w) = s in
      case ctx_at fd m of
        None \<Rightarrow> Fault Out_of_bounds
      | Some ctx \<Rightarrow>
          if \<not> xfer_empty ctx then migrate_ctx alloc fd xf ctx (m, w)
          else (case try_write (xf, wd_io w fd) of
                  Ret (cont, shut) (xf, io) \<Rightarrow>
                    let w = set_os (if shut then sys_shutdown fd (wd_os w) else wd_os w) (set_io fd io w) in
                    if cont
                    then bind_outcome (migrate_ctx alloc fd xf ctx (m, w)) (\<lambda>_ (xf, s). Ret () (xf, watch fd s))
                    else Ret () (xf, m, w)
                | Exn e (xf, io) \<Rightarrow> Exn e (xf, m, set_io fd io w)
                | Fault f \<Rightarrow> Fault f))"

definition out_write :: "(size_t \<Rightarrow> bool) \<Rightarrow> int \<Rightarrow> u64 \<Rightarrow> size_t \<Rightarrow> ost \<Rightarrow> (unit, ost) outcome" where
  "out_write alloc fd buf sz s =
     (let (m, w) = s in
      case ctx_at fd m of
        None \<Rightarrow> Fault Out_of_bounds
      | Some ctx \<Rightarrow>
          if xfer_empty ctx then
            let (tr, sc) = wd_io w fd; (wl, sc) = sys_write (unat sz) sc in
            case wl of
              Failed e \<Rightarrow>
                let w = set_io fd (tr, sc) w in
                if e \<noteq> EINTR \<and> e \<noteq> EAGAIN
                then Ret () (m, set_os (sys_shutdown fd (wd_os w)) w)
                else bind_outcome (on_ctx fd (m, w) (push_write alloc buf sz ctx)) (\<lambda>_ s. Ret () (watch fd s))
            | Wrote n \<Rightarrow>
                let w = set_io fd (tr @ take n (mem_atoms buf sz), sc) w in
                if n = 0 then Ret () (m, set_os (sys_shutdown fd (wd_os w)) w)
                else if unat sz \<le> n then Ret () (m, w)
                else bind_outcome (on_ctx fd (m, w) (push_write alloc (buf + of_nat n) (sz - of_nat n) ctx))
                       (\<lambda>_ s. Ret () (watch fd s))
          else on_ctx fd (m, w) (push_write alloc buf sz ctx))"

section \<open>Entry points of the loop\<close>

definition loop_write_fin ::
    "(size_t \<Rightarrow> bool) \<Rightarrow> int \<Rightarrow> u64 \<Rightarrow> size_t \<Rightarrow> u64 \<Rightarrow> u64 \<Rightarrow> ost \<Rightarrow> (unit, ost) outcome" where
  "loop_write_fin alloc fd buf sz f u = commit_raw alloc fd (fill_mem buf sz @ fill_finalize f u)"

definition loop_writev ::
    "(size_t \<Rightarrow> bool) \<Rightarrow> int \<Rightarrow> (u64 \<times> size_t) list \<Rightarrow> u64 \<Rightarrow> u64 \<Rightarrow> ost \<Rightarrow> (unit, ost) outcome" where
  "loop_writev alloc fd vec f u =
     commit_raw alloc fd (fill_iovec (iovec_bytes vec) (of_nat (length vec)) @ fill_finalize f u)"

definition loop_sendfile ::
    "(size_t \<Rightarrow> bool) \<Rightarrow> int \<Rightarrow> u32 \<Rightarrow> u64 \<Rightarrow> size_t \<Rightarrow> u64 \<Rightarrow> u64 \<Rightarrow> ost \<Rightarrow> (unit, ost) outcome" where
  "loop_sendfile alloc fd infd pos sz f u = commit_raw alloc fd (fill_sendfile infd pos sz @ fill_finalize f u)"

definition loop_hsendfile ::
    "(size_t \<Rightarrow> bool) \<Rightarrow> int \<Rightarrow> u64 \<Rightarrow> size_t \<Rightarrow> u32 \<Rightarrow> u64 \<Rightarrow> size_t \<Rightarrow> u64 \<Rightarrow> u64 \<Rightarrow> ost \<Rightarrow> (unit, ost) outcome" where
  "loop_hsendfile alloc fd header header_size infd pos sz f u =
     commit_raw alloc fd (fill_mem header header_size @ fill_sendfile infd pos sz @ fill_finalize f u)"

definition loop_hvsendfile ::
    "(size_t \<Rightarrow> bool) \<Rightarrow> int \<Rightarrow> (u64 \<times> size_t) list \<Rightarrow> u32 \<Rightarrow> u64 \<Rightarrow> size_t \<Rightarrow> u64 \<Rightarrow> u64 \<Rightarrow> ost \<Rightarrow> (unit, ost) outcome" where
  "loop_hvsendfile alloc fd header_vec infd pos sz f u =
     commit_raw alloc fd (fill_iovec (iovec_bytes header_vec) (of_nat (length header_vec)) @
       fill_sendfile infd pos sz @ fill_finalize f u)"

section \<open>Invariant\<close>

definition pending :: "out \<Rightarrow> int \<Rightarrow> bool" where
  "pending m fd \<longleftrightarrow> (case ctx_at fd m of None \<Rightarrow> False | Some x \<Rightarrow> items x \<noteq> [])"

text \<open>
  \<open>fl\<close> are the events that a worker has taken from the queue and is still handling. Exactly the
  descriptors with pending output are registered; each of them is armed in the kernel, or its
  event is in the queue or with one worker; and \<open>m_watching\<close> counts them. System calls of the
  kernel succeed from here on (\<open>os_script\<close> is empty).
\<close>

definition out_inv :: "event list \<Rightarrow> ost \<Rightarrow> bool" where
  "out_inv fl s \<longleftrightarrow> (case s of (m, w) \<Rightarrow>
     let k = o_kernel m; os = wd_os w; ids = map ident (o_queue m @ fl) in
     list_all xf_inv (o_ctx m) \<and> length (o_ctx m) \<le> 2147483648 \<and> ep_wf k os \<and> os_script os = [] \<and>
     list_all evok (o_queue m @ fl) \<and> exclusive (armed k os) ids \<and>
     (\<forall>fd. registered k os fd \<longleftrightarrow> pending m fd) \<and>
     (\<forall>fd. pending m fd \<longleftrightarrow> fd \<in> armed k os \<or> fd \<in> set ids) \<and>
     (\<forall>fd. pending m fd \<longrightarrow> fd \<in> set (os_open os)) \<and>
     o_watching m = int (card {fd. pending m fd}))"

lemma out_invD:
  assumes "out_inv fl (m, w)"
  shows "list_all xf_inv (o_ctx m)" "length (o_ctx m) \<le> 2147483648" "ep_wf (o_kernel m) (wd_os w)"
    "os_script (wd_os w) = []" "list_all evok (o_queue m @ fl)"
    "exclusive (armed (o_kernel m) (wd_os w)) (map ident (o_queue m @ fl))"
    "registered (o_kernel m) (wd_os w) fd \<longleftrightarrow> pending m fd"
    "pending m fd \<longleftrightarrow> fd \<in> armed (o_kernel m) (wd_os w) \<or> fd \<in> set (map ident (o_queue m @ fl))"
    "pending m fd \<Longrightarrow> fd \<in> set (os_open (wd_os w))" "o_watching m = int (card {fd. pending m fd})"
  using assms unfolding out_inv_def Let_def by blast+

lemma out_invI:
  assumes "list_all xf_inv (o_ctx m)" "length (o_ctx m) \<le> 2147483648" "ep_wf (o_kernel m) (wd_os w)"
    "os_script (wd_os w) = []" "list_all evok (o_queue m @ fl)"
    "exclusive (armed (o_kernel m) (wd_os w)) (map ident (o_queue m @ fl))"
    "\<And>fd. registered (o_kernel m) (wd_os w) fd \<longleftrightarrow> pending m fd"
    "\<And>fd. pending m fd \<longleftrightarrow> fd \<in> armed (o_kernel m) (wd_os w) \<or> fd \<in> set (map ident (o_queue m @ fl))"
    "\<And>fd. pending m fd \<Longrightarrow> fd \<in> set (os_open (wd_os w))" "o_watching m = int (card {fd. pending m fd})"
  shows "out_inv fl (m, w)"
  using assms unfolding out_inv_def Let_def prod.case by blast

lemma ctx_at_inv: "list_all xf_inv (o_ctx m) \<Longrightarrow> ctx_at fd m = Some x \<Longrightarrow> xf_inv x"
  by (auto simp: ctx_at_def list_all_length split: if_splits)

lemma ctx_at_range: "ctx_at fd m = Some x \<Longrightarrow> 0 \<le> fd \<and> nat fd < length (o_ctx m)"
  by (auto simp: ctx_at_def split: if_splits)

lemma finite_pending [simp]: "finite {fd. pending m fd}"
proof (rule finite_subset)
  show "{fd. pending m fd} \<subseteq> int ` {..<length (o_ctx m)}"
    by (force simp: pending_def ctx_at_def image_iff split: if_splits intro: bexI [of _ "nat _"])
qed simp

lemma set_ctx_simps [simp]:
  "o_kernel (set_ctx fd x m) = o_kernel m" "o_queue (set_ctx fd x m) = o_queue m"
  "o_watching (set_ctx fd x m) = o_watching m" "length (o_ctx (set_ctx fd x m)) = length (o_ctx m)"
  by (simp_all add: set_ctx_def)

lemma world_simps [simp]:
  "wd_os (set_io fd io w) = wd_os w" "wd_os (set_os os w) = os" "wd_io (set_os os w) = wd_io w"
  "wd_io (set_io fd io w) = (wd_io w)(fd := io)"
  by (simp_all add: set_io_def set_os_def)

lemma ctx_at_set_ctx:
  "ctx_at fd m = Some x \<Longrightarrow> ctx_at f (set_ctx fd y m) = (if f = fd then Some y else ctx_at f m)"
  by (auto simp: ctx_at_def set_ctx_def nat_eq_iff split: if_splits)

lemma pending_set_ctx:
  "ctx_at fd m = Some x \<Longrightarrow> pending (set_ctx fd y m) f \<longleftrightarrow> (if f = fd then items y \<noteq> [] else pending m f)"
  by (simp add: pending_def ctx_at_set_ctx)

lemma pending_other [simp]:
  "pending (m\<lparr>o_watching := n\<rparr>) = pending m" "pending (m\<lparr>o_queue := q\<rparr>) = pending m"
  "ctx_at f (m\<lparr>o_watching := n\<rparr>) = ctx_at f m" "ctx_at f (m\<lparr>o_queue := q\<rparr>) = ctx_at f m"
  by (simp_all add: pending_def ctx_at_def fun_eq_iff)

lemma list_all_set_ctx: "list_all xf_inv (o_ctx m) \<Longrightarrow> xf_inv y \<Longrightarrow> list_all xf_inv (o_ctx (set_ctx fd y m))"
  by (auto simp: list_all_iff set_ctx_def dest!: set_update_subset_insert [THEN subsetD])

text \<open>Updating the context of a descriptor without changing whether it has pending output.\<close>

lemma out_inv_set_ctx:
  assumes "out_inv fl (m, w)" "ctx_at fd m = Some x" "xf_inv y" "items y \<noteq> [] \<longleftrightarrow> items x \<noteq> []" "wd_os w' = wd_os w"
  shows "out_inv fl (set_ctx fd y m, w')"
proof -
  have p: "pending (set_ctx fd y m) = pending m"
    using assms(2,4) by (auto simp: fun_eq_iff pending_def ctx_at_set_ctx [OF assms(2)])
  show ?thesis using assms(1,3,5) list_all_set_ctx [of m y fd]
    by (simp add: out_inv_def Let_def p)
qed

text \<open>A descriptor without pending output gets some and is watched.\<close>

lemma out_inv_watch:
  assumes inv: "out_inv fl (m, w)" and ctx: "ctx_at fd m = Some x" "items x = []" and y: "xf_inv y" "items y \<noteq> []"
    and fd: "fd \<in> set (os_open (wd_os w))" and os: "wd_os w' = wd_os w"
  shows "out_inv fl (watch fd (set_ctx fd y m, w'))"
proof -
  let ?k = "o_kernel m"
  note I = out_invD [OF inv]
  have npend: "\<not> pending m fd" using ctx by (simp add: pending_def)
  have fdok: "fdok fd" using ctx_at_range [OF ctx(1)] I(2) by (auto simp: fdok_def nat_less_iff)
  from add_fd_ok [OF I(4) fd, of ?k EVKERNEL_WRITE] npend I(7) obtain os' where
    a: "add_fd ?k EVKERNEL_WRITE fd (wd_os w) = (0, os')" "quiet (wd_os w) os'"
      "\<forall>f. registered ?k os' f \<longleftrightarrow> registered ?k (wd_os w) f \<or> f = fd" by blast
  have k: "ep_wf ?k os'" "armed ?k os' = insert fd (armed ?k (wd_os w))"
    using epw.add_law [OF I(3) fdok a(1)] by simp_all
  have ex: "exclusive (armed ?k os') (map ident (o_queue m @ fl))"
    using epw.add_exclusive [OF I(3) fdok I(6) _ a(1)] npend I(8) by blast
  have p: "pending (set_ctx fd y m) f \<longleftrightarrow> pending m f \<or> f = fd" for f
    using y(2) by (auto simp: pending_set_ctx [OF ctx(1)])
  have "{f. pending m f \<or> f = fd} = insert fd {f. pending m f}" by auto
  then have card: "card {f. pending m f \<or> f = fd} = Suc (card {f. pending m f})" using npend by simp
  have reg: "registered ?k os' f \<longleftrightarrow> pending m f \<or> f = fd" for f using a(3) I(7) by simp
  have arm: "(pending m f \<or> f = fd) \<longleftrightarrow> f \<in> armed ?k os' \<or> f \<in> set (map ident (o_queue m @ fl))" for f
    using k(2) I(8) [of f] by auto
  have "f \<in> set (os_open os')" if "pending m f \<or> f = fd" for f
    using that I(9) [of f] fd a(2) by (auto simp: quiet_def)
  then have "out_inv fl (set_ctx fd y m\<lparr>o_watching := o_watching m + 1\<rparr>, set_os os' w')"
    using list_all_set_ctx [OF I(1) y(1), of fd] I(2,4,5,10) k(1) ex a(2) card
    by (intro out_invI) (simp_all add: quiet_def p reg arm del: map_append set_append)
  then show ?thesis using a(1) os by (simp add: watch_def)
qed

lemma out_inv_perm: "mset fl = mset fl' \<Longrightarrow> out_inv fl s = out_inv fl' s"
proof -
  assume p: "mset fl = mset fl'"
  then have "set fl = set fl'" by (metis set_mset_mset)
  moreover have "exclusive A (map ident (q @ fl)) = exclusive A (map ident (q @ fl'))" for A q
    using p by (intro exclusive_perm) simp
  ultimately show ?thesis by (auto simp: out_inv_def Let_def list_all_iff)
qed

text \<open>An event given back to the kernel; the descriptor still has pending output.\<close>

lemma out_inv_reactivate:
  assumes inv: "out_inv (e # fl) (m, w)" and ctx: "ctx_at (ident e) m = Some x" and y: "xf_inv y" "items y \<noteq> []"
    and r: "reactivate (o_kernel m) e (wd_os w) = (r, os')"
  shows "out_inv fl (set_ctx (ident e) y m, set_os os' w')"
proof -
  let ?k = "o_kernel m"
  note I = out_invD [OF inv]
  have pend: "pending m (ident e)" using I(8) [of "ident e"] by simp
  have e: "evok e" using I(5) by simp
  from reactivate_ok [OF I(4) I(9) [OF pend], of ?k] pend I(7) r have
    a: "r = 0" "quiet (wd_os w) os'" "\<forall>f. registered ?k os' f \<longleftrightarrow> registered ?k (wd_os w) f" by auto
  have k: "ep_wf ?k os'" "armed ?k os' = insert (ident e) (armed ?k (wd_os w))"
    using epw.reactivate_law [OF I(3) e r] a(1) by simp_all
  have "exclusive (armed ?k (wd_os w)) (ident e # map ident (o_queue m @ fl))"
    using I(6) by (rule iffD1 [OF exclusive_perm, rotated]) simp
  from epw.reactivate_exclusive [OF I(3) e this r]
  have ex: "exclusive (armed ?k os') (map ident (o_queue m @ fl))" by simp
  have p: "pending (set_ctx (ident e) y m) f \<longleftrightarrow> pending m f" for f
    using y(2) pend by (auto simp: pending_set_ctx [OF ctx])
  have arm: "pending m f \<longleftrightarrow> f \<in> armed ?k os' \<or> f \<in> set (map ident (o_queue m @ fl))" for f
    using k(2) I(8) [of f] by auto
  show ?thesis
    using list_all_set_ctx [OF I(1) y(1), of "ident e"] I(2,4,5,7,9,10) k(1) ex a
    by (intro out_invI) (simp_all add: quiet_def p arm [symmetric] del: map_append set_append set_map)
qed

text \<open>An event that is removed; the descriptor has no pending output any more.\<close>

lemma out_inv_remove:
  assumes inv: "out_inv (e # fl) (m, w)" and ctx: "ctx_at (ident e) m = Some x" and y: "xf_inv y" "items y = []"
    and r: "remove (o_kernel m) e (wd_os w) = (r, os')"
  shows "out_inv fl (set_ctx (ident e) y m\<lparr>o_watching := o_watching m - 1\<rparr>, set_os os' w')"
proof -
  let ?k = "o_kernel m"
  note I = out_invD [OF inv]
  have pend: "pending m (ident e)" using I(8) [of "ident e"] by simp
  have e: "evok e" using I(5) by simp
  from remove_ok [OF I(4) I(9) [OF pend], of ?k] pend I(7) r have
    a: "r = 0" "quiet (wd_os w) os'" "\<forall>f. registered ?k os' f \<longleftrightarrow> registered ?k (wd_os w) f \<and> f \<noteq> ident e" by auto
  have ex0: "exclusive (armed ?k (wd_os w)) (ident e # map ident (o_queue m @ fl))"
    using I(6) by (rule iffD1 [OF exclusive_perm, rotated]) simp
  then have out: "ident e \<notin> armed ?k (wd_os w)" "ident e \<notin> set (map ident (o_queue m @ fl))"
    by (auto simp: exclusive_def)
  have k: "ep_wf ?k os'" "armed ?k os' = armed ?k (wd_os w)" using epw.remove_law [OF I(3) e out(1) r] by simp_all
  from epw.remove_exclusive [OF I(3) e ex0 r]
  have ex: "exclusive (armed ?k os') (map ident (o_queue m @ fl))" by simp
  have p: "pending (set_ctx (ident e) y m) f \<longleftrightarrow> pending m f \<and> f \<noteq> ident e" for f
    using y(2) by (auto simp: pending_set_ctx [OF ctx])
  have "{f. pending m f \<and> f \<noteq> ident e} = {f. pending m f} - {ident e}" by auto
  then have card: "int (card {f. pending m f \<and> f \<noteq> ident e}) = int (card {f. pending m f}) - 1"
    using pend card_Suc_Diff1 [of "{f. pending m f}" "ident e"] by simp
  have reg: "registered ?k os' f \<longleftrightarrow> pending m f \<and> f \<noteq> ident e" for f using a(3) I(7) by simp
  have arm: "pending m f \<and> f \<noteq> ident e \<longleftrightarrow> f \<in> armed ?k os' \<or> f \<in> set (map ident (o_queue m @ fl))" for f
    using k(2) I(8) [of f] out by auto
  show ?thesis
    using list_all_set_ctx [OF I(1) y(1), of "ident e"] I(2,4,5,9,10) k(1) ex a(2) card
    by (intro out_invI) (simp_all add: quiet_def p reg arm [symmetric] del: map_append set_append set_map)
qed

section \<open>Submitting output\<close>

text \<open>The three ways to submit output, and the items they stand for.\<close>

datatype req = Raw mem | Xf xfer | Mem u64 size_t

primrec req_items :: "req \<Rightarrow> item list" where
  "req_items (Raw xfbuf) = (case decode xfbuf of None \<Rightarrow> [] | Some its \<Rightarrow> its)"
| "req_items (Xf xf) = items xf"
| "req_items (Mem buf sz) = [Iovec [(buf, sz)]]"

primrec req_ok :: "req \<Rightarrow> bool" where
  "req_ok (Raw xfbuf) = (decode xfbuf \<noteq> None \<and> length xfbuf \<le> 1152921504606846976)"
| "req_ok (Xf xf) = xf_inv xf"
| "req_ok (Mem buf sz) = True"

primrec submit :: "(size_t \<Rightarrow> bool) \<Rightarrow> int \<Rightarrow> req \<Rightarrow> ost \<Rightarrow> (unit, ost) outcome" where
  "submit alloc fd (Raw xfbuf) s = commit_raw alloc fd xfbuf s"
| "submit alloc fd (Xf xf) s =
     (case commit alloc fd (xf, s) of Ret _ (_, s) \<Rightarrow> Ret () s | Exn e (_, s) \<Rightarrow> Exn e s | Fault f \<Rightarrow> Fault f)"
| "submit alloc fd (Mem buf sz) s = out_write alloc fd buf sz s"

text \<open>
  What a submission does: behind pending output the items are queued; otherwise as much as
  possible is written at once and the rest is queued and watched, unless the descriptor fails.
  \<open>bad_alloc\<close> is thrown when the context cannot grow.
\<close>

definition submit_spec :: "int \<Rightarrow> item list \<Rightarrow> xfer \<Rightarrow> ost \<Rightarrow> (unit, ost) outcome \<Rightarrow> bool" where
  "submit_spec fd its x s r \<longleftrightarrow> (case s of (m, w) \<Rightarrow>
     if items x \<noteq> []
     then r = Exn Bad_alloc (m, w) \<or> (\<exists>y. xf_inv y \<and> items y = items x @ its \<and> r = Ret () (set_ctx fd y m, w))
     else case exec_items its (wd_io w fd) of (c, its', io') \<Rightarrow>
       if c
       then r = Exn Bad_alloc (m, set_io fd io' w) \<or>
            (\<exists>y. xf_inv y \<and> items y = its' \<and> r = Ret () (watch fd (set_ctx fd y m, set_io fd io' w)))
       else \<exists>shut. r = Ret () (m, set_os (if shut then sys_shutdown fd (wd_os w) else wd_os w) (set_io fd io' w)))"

lemma set_ctx_same: "ctx_at fd m = Some x \<Longrightarrow> set_ctx fd x m = m"
  by (auto simp: ctx_at_def set_ctx_def split: if_splits)

lemma set_os_same [simp]: "set_os (wd_os w) (set_io fd io w) = set_io fd io w"
  by (simp add: set_os_def set_io_def)

lemma commit_raw_submit:
  assumes "ctx_at fd m = Some x" "xf_inv x" "alloc_bounded alloc" "decode xfbuf = Some its" "length xfbuf \<le> 1152921504606846976"
  shows "submit_spec fd its x (m, w) (commit_raw alloc fd xfbuf (m, w))"
proof (cases "items x = []")
  case False
  then have "\<not> xfer_empty x" using xfer_empty_items assms(2) by blast
  then show ?thesis using False push_xfraw_appends [OF assms(2,3,5,4)] assms(1)
    by (auto simp: submit_spec_def commit_raw_def appends_def set_ctx_same)
next
  case True
  then have em: "xfer_empty x" using xfer_empty_items assms(2) by blast
  obtain c its' tr' sc' where e: "exec_items its (wd_io w fd) = (c, its', (tr', sc'))" by (metis prod_cases4)
  obtain tr sc where io: "wd_io w fd = (tr, sc)" by fastforce
  from execute_refines [OF assms(4) e [unfolded io]] obtain b' where
    b: "execute xfbuf (wd_io w fd) = Ret (c, b') (tr', sc')" "decode b' = Some its'" "length b' \<le> length xfbuf"
    unfolding io by blast
  then have "length b' \<le> 1152921504606846976" using assms(5) by simp
  from push_xfraw_appends [OF assms(2,3) this b(2)] True show ?thesis
    using em b(1) e assms(1)
    by (auto simp: submit_spec_def commit_raw_def appends_def set_ctx_same intro: exI [of _ False])
qed

lemma commit_submit:
  assumes "ctx_at fd m = Some x" "xf_inv x" "alloc_bounded alloc" "xf_inv xf"
  shows "submit_spec fd (items xf) x (m, w) (submit alloc fd (Xf xf) (m, w))"
proof (cases "items x = []")
  case False
  then have "\<not> xfer_empty x" using xfer_empty_items assms(2) by blast
  then show ?thesis using False migrate_items [OF assms(4,2,3)] assms(1)
    by (auto simp: submit_spec_def commit_def set_ctx_same)
next
  case True
  then have em: "xfer_empty x" using xfer_empty_items assms(2) by blast
  obtain c its' io' where e: "exec_items (items xf) (wd_io w fd) = (c, its', io')" by (metis prod_cases3)
  from try_write_items [OF assms(4) e] obtain xf' where
    t: "try_write (xf, wd_io w fd) = Ret (c, \<not> c \<and> its' \<noteq> []) (xf', io')" "xf_inv xf'" "items xf' = its'" by blast
  from migrate_items [OF t(2) assms(2,3)] True show ?thesis
    using em t e assms(1)
    by (auto simp: submit_spec_def commit_def set_ctx_same)
qed

lemma item_atoms_mem [simp]: "item_atoms (Iovec [(buf, sz)]) = mem_atoms buf sz"
  by simp

lemma out_write_submit:
  assumes "ctx_at fd m = Some x" "xf_inv x" "alloc_bounded alloc"
  shows "submit_spec fd [Iovec [(buf, sz)]] x (m, w) (out_write alloc fd buf sz (m, w))"
proof -
  note push = push_mem_appends(1) [OF assms(2,3)]
  show ?thesis
  proof (cases "items x = []")
    case False
    then have "\<not> xfer_empty x" using xfer_empty_items assms(2) by blast
    then show ?thesis using False push [of buf sz] assms(1)
      by (auto simp: submit_spec_def out_write_def appends_def set_ctx_same)
  next
    case True
    then have em: "xfer_empty x" using xfer_empty_items assms(2) by blast
    obtain tr sc where io: "wd_io w fd = (tr, sc)" by fastforce
    obtain wl sc' where wl: "sys_write (unat sz) sc = (wl, sc')" by fastforce
    have e: "exec_items [Iovec [(buf, sz)]] (tr, sc) =
        (case wl of
           Failed e \<Rightarrow> (would_block e, [Iovec [(buf, sz)]], (tr, sc'))
         | Wrote n \<Rightarrow>
             if n = 0 then (False, [Iovec [(buf, sz)]], (tr, sc'))
             else if n < unat sz then (True, [Iovec [(buf + of_nat n, sz - of_nat n)]], (tr @ take n (mem_atoms buf sz), sc'))
             else (False, [], (tr @ mem_atoms buf sz, sc')))"
      using wl by (simp add: exec_items_data split: sysret.split)
    show ?thesis
    proof (cases wl)
      case (Failed er)
      then show ?thesis using True em io wl e push [of buf sz] assms(1)
        by (cases "would_block er")
           (auto simp: submit_spec_def out_write_def appends_def set_ctx_same would_block_def intro: exI [of _ True])
    next
      case (Wrote n)
      then have "n \<le> unat sz" using sys_write_bound wl by blast
      then show ?thesis using Wrote True em io wl e push [of "buf + of_nat n" "sz - of_nat n"] assms(1)
        by (auto simp: submit_spec_def out_write_def appends_def set_ctx_same intro: exI [of _ True] exI [of _ False])
    qed
  qed
qed

lemma submit_refines:
  assumes "ctx_at fd m = Some x" "xf_inv x" "alloc_bounded alloc" "req_ok rq"
  shows "submit_spec fd (req_items rq) x (m, w) (submit alloc fd rq (m, w))"
  using assms commit_raw_submit commit_submit out_write_submit by (cases rq) auto

section \<open>Handling events\<close>

definition stream :: "ost \<Rightarrow> int \<Rightarrow> atom list" where
  "stream s fd = (case s of (m, w) \<Rightarrow>
     fst (wd_io w fd) @ (case ctx_at fd m of None \<Rightarrow> [] | Some x \<Rightarrow> atoms (items x)))"

lemma shutdown_simps [simp]:
  "ep_wf k (sys_shutdown fd os) = ep_wf k os" "armed k (sys_shutdown fd os) = armed k os"
  "registered k (sys_shutdown fd os) = registered k os" "os_script (sys_shutdown fd os) = os_script os"
  "os_open (sys_shutdown fd os) = os_open os"
  by (simp_all add: sys_shutdown_def ep_wf_def armed_def ep_ready_def registered_def fun_eq_iff)

lemma out_inv_world:
  "wd_os w' = wd_os w \<or> wd_os w' = sys_shutdown fd (wd_os w) \<Longrightarrow> out_inv fl (m, w') = out_inv fl (m, w)"
  by (auto simp: out_inv_def Let_def)

lemma atoms_Nil [simp]: "atoms [] = []"
  by (simp add: atoms_def)

lemma atoms_append [simp]: "atoms (a @ b) = atoms a @ atoms b"
  by (simp add: atoms_def)

text \<open>The events that are in flight belong to contexts with pending output.\<close>

lemma flight_ctx:
  assumes "out_inv fl (m, w)" "e \<in> set fl"
  obtains x where "ctx_at (ident e) m = Some x" "items x \<noteq> []" "xf_inv x"
proof -
  have "pending m (ident e)" using out_invD(8) [OF assms(1), of "ident e"] assms(2) by auto
  then show thesis using that ctx_at_inv [OF out_invD(1) [OF assms(1)]]
    by (auto simp: pending_def split: option.splits)
qed

text \<open>
  \<open>write_event\<close> runs the pending items; it gives the event back to the kernel when there is more to
  write, and otherwise removes it, calls the finalizers that are left and drops the rest.
\<close>

lemma write_event_result:
  assumes inv: "out_inv (e # fl) (m, w)" and x: "ctx_at (ident e) m = Some x" "xf_inv x"
    and run: "exec_items (items x) (wd_io w (ident e)) = (c, its', (tr', sc'))"
  shows "\<exists>m' w'. write_event e (m, w) = Ret (\<not> c \<and> o_watching m' = 0) (m', w') \<and> out_inv fl (m', w') \<and>
     wd_io w' = (wd_io w)(ident e := (tr' @ (if c then [] else fins its'), sc')) \<and>
     (\<exists>y. ctx_at (ident e) m' = Some y \<and> items y = (if c then its' else [])) \<and>
     (\<forall>f. f \<noteq> ident e \<longrightarrow> ctx_at f m' = ctx_at f m)"
proof -
  let ?fd = "ident e"
  from try_write_items [OF x(2) run] obtain y where
    t: "try_write (x, wd_io w ?fd) = Ret (c, \<not> c \<and> its' \<noteq> []) (y, (tr', sc'))" "xf_inv y" "items y = its'" by blast
  define w0 where "w0 = set_os (if \<not> c \<and> its' \<noteq> [] then sys_shutdown ?fd (wd_os w) else wd_os w) w"
  have inv0: "out_inv (e # fl) (m, w0)" using inv by (subst out_inv_world [of w0 w ?fd]) (auto simp: w0_def)
  show ?thesis
  proof (cases c)
    case True
    have "its' \<noteq> []" using exec_items_conserves [of "items x" "fst (wd_io w ?fd)" "snd (wd_io w ?fd)"] run True by auto
    obtain r os' where r: "reactivate (o_kernel m) e (wd_os w0) = (r, os')" by fastforce
    have "out_inv fl (set_ctx ?fd y m, set_os os' (set_io ?fd (tr', sc') w))"
      using out_inv_reactivate [OF inv0 x(1) t(2) _ r] \<open>its' \<noteq> []\<close> t(3) by blast
    moreover have "wd_os w0 = wd_os w" using True by (simp add: w0_def)
    ultimately show ?thesis using True t r x(1)
      by (auto simp: write_event_def try_write_caught_def Let_def ctx_at_set_ctx [OF x(1)])
  next
    case False
    obtain r os' where r: "remove (o_kernel m) e (wd_os w0) = (r, os')" by fastforce
    from clear_items [OF t(2)] obtain z where z: "clear y = Ret z (fins its')" "xf_inv z" "items z = []" using t(3) by blast
    have "out_inv fl (set_ctx ?fd z m\<lparr>o_watching := o_watching m - 1\<rparr>, set_os os' (set_io ?fd (tr' @ fins its', sc') w))"
      using out_inv_remove [OF inv0 x(1) z(2,3) r] by blast
    moreover have "wd_os w0 = (if its' \<noteq> [] then sys_shutdown ?fd (wd_os w) else wd_os w)" using False by (simp add: w0_def)
    ultimately show ?thesis using False t r z x(1)
      by (auto simp: write_event_def try_write_caught_def Let_def ctx_at_set_ctx [OF x(1)])
  qed
qed

lemma poll_event_result:
  assumes inv: "out_inv fl (m, w)"
  shows "\<exists>evs os'. poll_event rdy (m, w) = Ret () (m\<lparr>o_queue := o_queue m @ evs\<rparr>, set_os os' w) \<and>
     out_inv fl (m\<lparr>o_queue := o_queue m @ evs\<rparr>, set_os os' w)"
proof -
  let ?k = "o_kernel m"
  note I = out_invD [OF inv]
  from wait_ok [OF I(4), of ?k rdy] obtain evs os' where
    w: "wait ?k rdy (wd_os w) = (int (length evs), evs, os')" "quiet (wd_os w) os'"
      "\<forall>f. registered ?k os' f \<longleftrightarrow> registered ?k (wd_os w) f" by blast
  note law = epw.wait_law [OF I(3) w(1)]
  from epw.wait_exclusive [OF I(3) I(6) w(1)]
  have ex: "exclusive (armed ?k os') (map ident evs @ map ident (o_queue m @ fl))" by blast
  have ex': "exclusive (armed ?k os') (map ident ((o_queue m @ evs) @ fl))"
    using ex by (rule iffD1 [OF exclusive_perm, rotated]) simp
  have arm: "pending m f \<longleftrightarrow> f \<in> armed ?k os' \<or> f \<in> set (map ident ((o_queue m @ evs) @ fl))" for f
    using law I(8) [of f] by auto
  have ok: "ep_wf ?k os'" "list_all evok evs" using law by simp_all
  have "out_inv fl (m\<lparr>o_queue := o_queue m @ evs\<rparr>, set_os os' w)"
    using I(1,2,4,5,7,9,10) w(2,3) ok ex'
    by (intro out_invI) (simp_all add: quiet_def arm [symmetric] del: map_append set_append set_map append_assoc)
  moreover have "poll_event rdy (m, w) = Ret () (m\<lparr>o_queue := o_queue m @ evs\<rparr>, set_os os' w)"
    using w(1) by (auto simp: poll_event_def Let_def)
  ultimately show ?thesis by blast
qed

lemma next_event_result:
  assumes inv: "out_inv fl (m, w)" and "next_event m = Some (e, m')"
  shows "out_inv (e # fl) (m', w)"
proof -
  obtain q where q: "o_queue m = e # q" "m' = m\<lparr>o_queue := q\<rparr>"
    using assms(2) by (auto simp: next_event_def split: list.splits)
  have "exclusive (armed (o_kernel m) (wd_os w)) (map ident (q @ e # fl))"
    using out_invD(6) [OF inv] by (rule iffD1 [OF exclusive_perm, rotated]) (simp add: q(1))
  then show ?thesis using out_invD [OF inv] q
    by (intro out_invI) auto
qed

end
