(* ===== verification/Out_Runs.thy ===== *)
theory Out_Runs
  imports Out "HOL-Library.Sublist"
begin

text \<open>
  Runs of the output component: any interleaving of submissions by clients, event polling, workers
  that take events from the queue and handle them, descriptors that answer writes in any way,
  descriptors that are opened and closed elsewhere, and other epoll instances at work. A run carries two ghosts: what was submitted per
  descriptor, and the descriptors on which something went wrong (a write failed or wrote
  nothing, memory ran out, or an empty record was submitted). The invariant is proved by rule
  induction and gives the properties of the component.
\<close>

section \<open>The step relation\<close>

record orun =
  r_st :: ost
  r_flight :: "event list"
  r_sub :: "int \<Rightarrow> atom list"
  r_bad :: "int set"

text \<open>Answers of a descriptor that makes progress or asks to be retried.\<close>

definition healthy :: "sysret list \<Rightarrow> bool" where
  "healthy sc = list_all (\<lambda>a. case a of Wrote n \<Rightarrow> 0 < n | Failed e \<Rightarrow> would_block e) sc"

text \<open>Records that ask for at least one byte.\<close>

primrec asks_bytes :: "item \<Rightarrow> bool" where
  "asks_bytes (Iovec vec) = (item_atoms (Iovec vec) \<noteq> [])"
| "asks_bytes (Sendfile fd pos n) = (n \<noteq> 0)"
| "asks_bytes (Finalize f u) = True"

definition mark :: "bool \<Rightarrow> int \<Rightarrow> int set \<Rightarrow> int set" where
  "mark bad fd S = (if bad then insert fd S else S)"

inductive out_step :: "(size_t \<Rightarrow> bool) \<Rightarrow> orun \<Rightarrow> orun \<Rightarrow> bool" for alloc where
  submit_ret: "submit alloc fd rq (r_st r) = Ret () s' \<Longrightarrow> req_ok rq \<Longrightarrow> ctx_at fd (fst (r_st r)) \<noteq> None \<Longrightarrow>
     fd \<in> set (os_open (wd_os (snd (r_st r)))) \<Longrightarrow>
     out_step alloc r (r\<lparr>r_st := s', r_sub := (r_sub r)(fd := r_sub r fd @ atoms (req_items rq)),
       r_bad := mark (\<not> list_all asks_bytes (req_items rq)) fd (r_bad r)\<rparr>)"
| submit_exn: "submit alloc fd rq (r_st r) = Exn e s' \<Longrightarrow> req_ok rq \<Longrightarrow> ctx_at fd (fst (r_st r)) \<noteq> None \<Longrightarrow>
     fd \<in> set (os_open (wd_os (snd (r_st r)))) \<Longrightarrow>
     out_step alloc r (r\<lparr>r_st := s', r_sub := (r_sub r)(fd := r_sub r fd @ atoms (req_items rq)),
       r_bad := mark True fd (r_bad r)\<rparr>)"
| poll: "poll_event rdy (r_st r) = Ret () s' \<Longrightarrow> out_step alloc r (r\<lparr>r_st := s'\<rparr>)"
| take: "next_event (fst (r_st r)) = Some (e, m') \<Longrightarrow>
     out_step alloc r (r\<lparr>r_st := (m', snd (r_st r)), r_flight := e # r_flight r\<rparr>)"
| handle: "e \<in> set (r_flight r) \<Longrightarrow> write_event e (r_st r) = Ret b s' \<Longrightarrow>
     out_step alloc r (r\<lparr>r_st := s', r_flight := remove1 e (r_flight r)\<rparr>)"
| answer: "r_st r = (m, w) \<Longrightarrow>
     out_step alloc r (r\<lparr>r_st := (m, set_io fd (fst (wd_io w fd), sc) w), r_bad := mark (\<not> healthy sc) fd (r_bad r)\<rparr>)"
| open_fd: "r_st r = (m, w) \<Longrightarrow> sys_openfd (wd_os w) = (fd, os') \<Longrightarrow>
     out_step alloc r (r\<lparr>r_st := (m, set_os os' w)\<rparr>)"
| close_fd: "r_st r = (m, w) \<Longrightarrow> \<not> pending m fd \<Longrightarrow> fd \<noteq> m_ep (o_kernel m) \<Longrightarrow>
     out_step alloc r (r\<lparr>r_st := (m, set_os (sys_close fd (wd_os w)) w)\<rparr>)"
| other_kernel: "r_st r = (m, w) \<Longrightarrow> quiet (wd_os w) os' \<Longrightarrow>
     os_ep os' (m_ep (o_kernel m)) = os_ep (wd_os w) (m_ep (o_kernel m)) \<Longrightarrow>
     out_step alloc r (r\<lparr>r_st := (m, set_os os' w)\<rparr>)"

definition start_run :: "out \<Rightarrow> os \<Rightarrow> orun" where
  "start_run m os = \<lparr>r_st = (m, \<lparr>wd_os = os, wd_io = (\<lambda>_. ([], []))\<rparr>), r_flight = [], r_sub = (\<lambda>_. []), r_bad = {}\<rparr>"

inductive out_reach :: "(size_t \<Rightarrow> bool) \<Rightarrow> orun \<Rightarrow> bool" for alloc where
  start: "os_wf os \<Longrightarrow> os_script os = [] \<Longrightarrow> out_new alloc os = Ret m os' \<Longrightarrow> out_reach alloc (start_run m os')"
| step: "out_reach alloc r \<Longrightarrow> out_step alloc r r' \<Longrightarrow> out_reach alloc r'"

section \<open>The invariant\<close>

definition ctx_asks :: "int \<Rightarrow> out \<Rightarrow> bool" where
  "ctx_asks fd m = (case ctx_at fd m of None \<Rightarrow> True | Some x \<Rightarrow> list_all asks_bytes (items x))"

definition fd_faithful :: "orun \<Rightarrow> int \<Rightarrow> bool" where
  "fd_faithful r fd \<longleftrightarrow> stream (r_st r) fd = r_sub r fd \<and> healthy (snd (wd_io (snd (r_st r)) fd)) \<and> ctx_asks fd (fst (r_st r))"

definition run_inv :: "orun \<Rightarrow> bool" where
  "run_inv r \<longleftrightarrow> out_inv (r_flight r) (r_st r) \<and> (\<forall>fd. subseq (stream (r_st r) fd) (r_sub r fd)) \<and>
     (\<forall>fd. fd \<notin> r_bad r \<longrightarrow> fd_faithful r fd)"

lemma sys_write_healthy:
  "healthy sc \<Longrightarrow> 0 < req \<Longrightarrow> sys_write req sc = (a, sc') \<Longrightarrow>
     healthy sc' \<and> (case a of Wrote n \<Rightarrow> 0 < n | Failed e \<Rightarrow> would_block e)"
  by (cases "(req, sc)" rule: sys_write.cases) (auto simp: healthy_def would_block_def)

lemma asks_bytes_length: "asks_bytes it \<Longrightarrow> \<forall>f u. it \<noteq> Finalize f u \<Longrightarrow> 0 < length (item_atoms it)"
  by (cases it) (auto simp: unat_gt_0)

lemma asks_bytes_drop:
  "n < length (item_atoms it) \<Longrightarrow> \<forall>f u. it \<noteq> Finalize f u \<Longrightarrow> asks_bytes (item_drop n it)"
proof (cases it)
  case (Iovec vec)
  assume "n < length (item_atoms it)"
  then have "item_atoms (Iovec (drop_iov n vec)) \<noteq> []" unfolding drop_iov_atoms using Iovec by simp
  then show ?thesis using Iovec by simp
next
  case (Sendfile fd pos l)
  assume "n < length (item_atoms it)"
  then have n: "n < unat l" using Sendfile by simp
  have "of_nat n \<noteq> l"
  proof
    assume "of_nat n = l"
    moreover have "unat (of_nat n :: u64) = n" using n unat_lt_64 [of l] by (intro unat_of_nat_64) linarith
    ultimately show False using n by simp
  qed
  then show ?thesis using Sendfile by simp
qed auto

text \<open>On a healthy descriptor the run stops only to be retried or when everything is done.\<close>

lemma exec_items_healthy:
  "healthy sc \<Longrightarrow> list_all asks_bytes its \<Longrightarrow> exec_items its (tr, sc) = (c, its', (tr', sc')) \<Longrightarrow>
     (c \<longleftrightarrow> its' \<noteq> []) \<and> healthy sc' \<and> list_all asks_bytes its'"
proof (induction its arbitrary: tr sc)
  case (Cons it its)
  show ?case
  proof (cases "\<exists>f u. it = Finalize f u")
    case True
    then show ?thesis using Cons by fastforce
  next
    case False
    then have data: "\<forall>f u. it \<noteq> Finalize f u" by blast
    obtain a sc1 where a: "sys_write (length (item_atoms it)) sc = (a, sc1)" by fastforce
    have h: "healthy sc1 \<and> (case a of Wrote n \<Rightarrow> 0 < n | Failed e \<Rightarrow> would_block e)"
      using sys_write_healthy [OF Cons.prems(1) _ a] asks_bytes_length [OF _ data] Cons.prems(2) by simp
    show ?thesis using Cons.prems Cons.IH [of sc1] a h asks_bytes_drop [OF _ data]
      by (auto simp: exec_items_data [OF data] split: sysret.splits if_splits)
  qed
qed simp

text \<open>A step that touches one descriptor only.\<close>

definition elsewhere :: "int \<Rightarrow> ost \<Rightarrow> ost \<Rightarrow> bool" where
  "elsewhere fd s s' \<longleftrightarrow> (\<forall>f. f \<noteq> fd \<longrightarrow> wd_io (snd s') f = wd_io (snd s) f \<and> ctx_at f (fst s') = ctx_at f (fst s))"

lemma elsewhere_faithful:
  "elsewhere fd (r_st r) s' \<Longrightarrow> f \<noteq> fd \<Longrightarrow> r_st r' = s' \<Longrightarrow> r_sub r' f = r_sub r f \<Longrightarrow>
     fd_faithful r' f = fd_faithful r f"
  by (auto simp: fd_faithful_def elsewhere_def stream_def ctx_asks_def split: prod.splits)

lemma elsewhere_stream: "elsewhere fd s s' \<Longrightarrow> f \<noteq> fd \<Longrightarrow> stream s' f = stream s f"
  by (auto simp: elsewhere_def stream_def split: prod.splits)

lemma watch_simps [simp]:
  "ctx_at f (fst (watch fd (m, w))) = ctx_at f m" "wd_io (snd (watch fd (m, w))) = wd_io w"
  by (auto simp: watch_def split: prod.splits)

lemma stream_watch [simp]: "stream (watch fd (m, w)) f = stream (m, w) f"
  by (auto simp: watch_def stream_def split: prod.splits)

lemma stream_set:
  "ctx_at fd m = Some x \<Longrightarrow> stream (set_ctx fd y m, w) fd = fst (wd_io w fd) @ atoms (items y)"
  by (simp add: stream_def ctx_at_set_ctx)

lemma stream_ctx: "ctx_at fd m = Some x \<Longrightarrow> stream (m, w) fd = fst (wd_io w fd) @ atoms (items x)"
  by (simp add: stream_def)

lemma submit_spec_effect:
  assumes inv: "out_inv fl (m, w)" and x: "ctx_at fd m = Some x" and fd: "fd \<in> set (os_open (wd_os w))"
    and spec: "submit_spec fd its x (m, w) r" and r: "r = Ret () s' \<or> r = Exn e s'"
  shows "out_inv fl s' \<and> elsewhere fd (m, w) s' \<and> (\<exists>lost. stream s' fd @ lost = stream (m, w) fd @ atoms its) \<and>
     (r = Ret () s' \<and> healthy (snd (wd_io w fd)) \<and> ctx_asks fd m \<and> list_all asks_bytes its \<longrightarrow>
        stream s' fd = stream (m, w) fd @ atoms its \<and> healthy (snd (wd_io (snd s') fd)) \<and> ctx_asks fd (fst s'))"
proof (cases "items x = []")
  case False
  then consider "r = Exn Bad_alloc (m, w)"
    | y where "xf_inv y" "items y = items x @ its" "r = Ret () (set_ctx fd y m, w)"
    using spec by (auto simp: submit_spec_def)
  then show ?thesis
  proof cases
    case 1
    then show ?thesis using r inv by (auto simp: elsewhere_def)
  next
    case (2 y)
    have "out_inv fl (set_ctx fd y m, w)" using out_inv_set_ctx [OF inv x 2(1)] 2(2) False by simp
    then show ?thesis using 2 r x
      by (auto simp: elsewhere_def stream_set [OF x] stream_ctx [OF x] ctx_at_set_ctx [OF x] ctx_asks_def)
  qed
next
  case True
  obtain tr sc where io: "wd_io w fd = (tr, sc)" by fastforce
  obtain c its' tr' sc' where run: "exec_items its (tr, sc) = (c, its', (tr', sc'))" by (metis prod_cases4)
  have cons: "tr' @ atoms its' = tr @ atoms its" "c \<longrightarrow> its' \<noteq> []" using exec_items_conserves [OF run] by auto
  have old: "stream (m, w) fd = tr" using True x io by (simp add: stream_ctx)
  consider "c" "r = Exn Bad_alloc (m, set_io fd (tr', sc') w)"
    | y where "c" "xf_inv y" "items y = its'" "r = Ret () (watch fd (set_ctx fd y m, set_io fd (tr', sc') w))"
    | shut where "\<not> c" "r = Ret () (m, set_os (if shut then sys_shutdown fd (wd_os w) else wd_os w) (set_io fd (tr', sc') w))"
    using spec True run io unfolding submit_spec_def by (cases c) (simp_all, blast+)
  then show ?thesis
  proof cases
    case 1
    have "out_inv fl (m, set_io fd (tr', sc') w)"
      using inv by (subst out_inv_world [of "set_io fd (tr', sc') w" w fd]) auto
    then show ?thesis using 1 r cons True x old
      by (auto simp: elsewhere_def stream_ctx [OF x])
  next
    case (2 y)
    have "out_inv fl (watch fd (set_ctx fd y m, set_io fd (tr', sc') w))"
      using out_inv_watch [OF inv x True 2(2) _ fd] 2(1,3) cons(2) by simp
    then show ?thesis using 2 r cons x old io exec_items_healthy [OF _ _ run]
      by (auto simp: elsewhere_def stream_set [OF x] ctx_at_set_ctx [OF x] ctx_asks_def)
  next
    case (3 shut)
    let ?w = "set_os (if shut then sys_shutdown fd (wd_os w) else wd_os w) (set_io fd (tr', sc') w)"
    have "out_inv fl (m, ?w)" using inv by (subst out_inv_world [of ?w w fd]) auto
    then show ?thesis using 3 r cons x old io True exec_items_healthy [OF _ _ run]
      by (auto simp: elsewhere_def stream_ctx [OF x] ctx_asks_def)
  qed
qed

lemma write_event_effect:
  assumes inv: "out_inv fl (m, w)" and e: "e \<in> set fl" and r: "write_event e (m, w) = Ret b s'"
  shows "out_inv (remove1 e fl) s' \<and> elsewhere (ident e) (m, w) s' \<and> subseq (stream s' (ident e)) (stream (m, w) (ident e)) \<and>
     (healthy (snd (wd_io w (ident e))) \<and> ctx_asks (ident e) m \<longrightarrow>
        stream s' (ident e) = stream (m, w) (ident e) \<and> healthy (snd (wd_io (snd s') (ident e))) \<and> ctx_asks (ident e) (fst s'))"
proof -
  have inv': "out_inv (e # remove1 e fl) (m, w)"
    using inv e by (subst out_inv_perm [of _ fl]) simp_all
  from flight_ctx [OF inv e] obtain x where x: "ctx_at (ident e) m = Some x" "items x \<noteq> []" "xf_inv x" .
  obtain tr sc where io: "wd_io w (ident e) = (tr, sc)" by fastforce
  obtain c its' tr' sc' where run: "exec_items (items x) (tr, sc) = (c, its', (tr', sc'))" by (metis prod_cases4)
  from write_event_result [OF inv' x(1,3)] run io obtain m' w' where
    h: "write_event e (m, w) = Ret (\<not> c \<and> o_watching m' = 0) (m', w')" "out_inv (remove1 e fl) (m', w')"
      "wd_io w' = (wd_io w)(ident e := (tr' @ (if c then [] else fins its'), sc'))"
      "\<exists>y. ctx_at (ident e) m' = Some y \<and> items y = (if c then its' else [])"
      "\<forall>f. f \<noteq> ident e \<longrightarrow> ctx_at f m' = ctx_at f m" by metis
  have s': "s' = (m', w')" using r h(1) by simp
  have cons: "tr' @ atoms its' = tr @ atoms (items x)" using exec_items_conserves [OF run] by auto
  have old: "stream (m, w) (ident e) = tr' @ atoms its'" using x(1) io cons by (simp add: stream_def)
  have new: "stream s' (ident e) = tr' @ (if c then atoms its' else fins its')" using h(3,4) s' by (auto simp: stream_def)
  have "subseq (fins its') (atoms its')" by (simp add: fins_def)
  then have "subseq (stream s' (ident e)) (stream (m, w) (ident e))" using old new by (simp add: list_emb_append_mono)
  moreover have "elsewhere (ident e) (m, w) s'" using h(3,5) s' by (simp add: elsewhere_def)
  moreover have "stream s' (ident e) = stream (m, w) (ident e) \<and> healthy (snd (wd_io (snd s') (ident e))) \<and> ctx_asks (ident e) (fst s')"
    if hl: "healthy (snd (wd_io w (ident e)))" "ctx_asks (ident e) m"
  proof -
    have "(c \<longleftrightarrow> its' \<noteq> []) \<and> healthy sc' \<and> list_all asks_bytes its'"
      using exec_items_healthy [OF _ _ run] hl io x(1) by (simp add: ctx_asks_def)
    then show ?thesis using old new h(3,4) s' by (auto simp: ctx_asks_def)
  qed
  ultimately show ?thesis using h(2) s' by blast
qed

text \<open>Opening and closing descriptors elsewhere keeps the invariant.\<close>

lemma out_inv_os:
  assumes inv: "out_inv fl (m, w)" and "os_ep os' (m_ep (o_kernel m)) = os_ep (wd_os w) (m_ep (o_kernel m))"
    "os_script os' = []" "\<And>f. pending m f \<Longrightarrow> f \<in> set (os_open os')"
  shows "out_inv fl (m, set_os os' w)"
proof -
  have "ep_wf (o_kernel m) os' = ep_wf (o_kernel m) (wd_os w)" "armed (o_kernel m) os' = armed (o_kernel m) (wd_os w)"
    "registered (o_kernel m) os' = registered (o_kernel m) (wd_os w)"
    using assms(2) by (simp_all add: ep_wf_def armed_def ep_ready_def registered_def fun_eq_iff)
  then show ?thesis using inv assms(3,4) by (auto simp: out_inv_def Let_def)
qed

lemma out_inv_open:
  assumes inv: "out_inv fl (m, w)" and "sys_openfd (wd_os w) = (fd, os')"
  shows "out_inv fl (m, set_os os' w)"
proof (rule out_inv_os [OF inv])
  have sc: "os_script (wd_os w) = []" by (rule out_invD(4) [OF inv])
  show "os_ep os' (m_ep (o_kernel m)) = os_ep (wd_os w) (m_ep (o_kernel m))" "os_script os' = []"
    using assms(2) sc by (auto simp: sys_openfd_def sys_fail_def Let_def split: if_splits)
  show "f \<in> set (os_open os')" if "pending m f" for f
    using assms(2) sc out_invD(9) [OF inv that] by (auto simp: sys_openfd_def sys_fail_def Let_def split: if_splits)
qed

lemma out_inv_close:
  assumes inv: "out_inv fl (m, w)" and "\<not> pending m fd" "fd \<noteq> m_ep (o_kernel m)"
  shows "out_inv fl (m, set_os (sys_close fd (wd_os w)) w)"
proof (rule out_inv_os [OF inv])
  have "os_ep (wd_os w) (m_ep (o_kernel m)) fd = None"
    using out_invD(7) [OF inv, of fd] assms(2) by (simp add: registered_def)
  then show "os_ep (sys_close fd (wd_os w)) (m_ep (o_kernel m)) = os_ep (wd_os w) (m_ep (o_kernel m))"
    using assms(3) by (auto simp: sys_close_def fun_eq_iff)
  show "os_script (sys_close fd (wd_os w)) = []" using out_invD(4) [OF inv] by (simp add: sys_close_def)
  show "f \<in> set (os_open (sys_close fd (wd_os w)))" if "pending m f" for f
    using out_invD(9) [OF inv that] that assms(2) by (auto simp: sys_close_def)
qed

text \<open>The parts of the invariant that concern one descriptor, for a step that touches only that one.\<close>

lemma run_inv_elsewhere:
  assumes old: "run_inv r" and el: "elsewhere fd (r_st r) (r_st r')"
    and sub: "\<forall>f. f \<noteq> fd \<longrightarrow> r_sub r' f = r_sub r f" and bad: "\<forall>f. f \<noteq> fd \<longrightarrow> f \<in> r_bad r \<longrightarrow> f \<in> r_bad r'"
    and inv: "out_inv (r_flight r') (r_st r')" and here: "subseq (stream (r_st r') fd) (r_sub r' fd)"
      "fd \<notin> r_bad r' \<longrightarrow> fd_faithful r' fd"
  shows "run_inv r'"
proof -
  have "subseq (stream (r_st r') f) (r_sub r' f)" for f
    using here(1) old sub elsewhere_stream [OF el, of f] by (cases "f = fd") (auto simp: run_inv_def)
  moreover have "fd_faithful r' f" if "f \<notin> r_bad r'" for f
    using that here(2) old bad sub elsewhere_faithful [OF el, of f r'] by (cases "f = fd") (auto simp: run_inv_def)
  ultimately show ?thesis using inv by (simp add: run_inv_def)
qed

lemma run_inv_same:
  assumes "run_inv r" "out_inv (r_flight r') (r_st r')" "elsewhere (-1) (r_st r) (r_st r')"
    "wd_io (snd (r_st r')) (-1) = wd_io (snd (r_st r)) (-1)" "r_sub r' = r_sub r" "r_bad r' = r_bad r"
  shows "run_inv r'"
proof (rule run_inv_elsewhere [OF assms(1,3)])
  have "ctx_at (-1) (fst (r_st r')) = None" "ctx_at (-1) (fst (r_st r)) = None" by (simp_all add: ctx_at_def)
  then have "stream (r_st r') (-1) = stream (r_st r) (-1)" "fd_faithful r' (-1) = fd_faithful r (-1)"
    using assms(4,5) by (auto simp: stream_def fd_faithful_def ctx_asks_def split: prod.splits)
  then show "subseq (stream (r_st r') (-1)) (r_sub r' (-1))" "-1 \<notin> r_bad r' \<longrightarrow> fd_faithful r' (-1)"
    using assms(1,5,6) by (auto simp: run_inv_def)
qed (use assms in auto)

lemma run_inv_submit:
  assumes old: "run_inv r" and al: "alloc_bounded alloc" and rq: "req_ok rq" and c: "ctx_at fd (fst (r_st r)) \<noteq> None"
    and o: "fd \<in> set (os_open (wd_os (snd (r_st r))))"
    and s': "submit alloc fd rq (r_st r) = Ret () s' \<or> submit alloc fd rq (r_st r) = Exn e s'"
    and bad: "submit alloc fd rq (r_st r) = Ret () s' \<and> list_all asks_bytes (req_items rq) \<or> bad"
  shows "run_inv (r\<lparr>r_st := s', r_sub := (r_sub r)(fd := r_sub r fd @ atoms (req_items rq)), r_bad := mark bad fd (r_bad r)\<rparr>)"
proof -
  obtain m w where st: "r_st r = (m, w)" by fastforce
  have inv: "out_inv (r_flight r) (m, w)" using old st by (simp add: run_inv_def)
  obtain x where x: "ctx_at fd m = Some x" using c st by auto
  have xi: "xf_inv x" using ctx_at_inv [OF out_invD(1) [OF inv] x] .
  have fd: "fd \<in> set (os_open (wd_os w))" using o st by simp
  note eff = submit_spec_effect [OF inv x fd submit_refines [OF x xi al rq, of w] s' [unfolded st]]
  from eff obtain lost where lost: "stream s' fd @ lost = stream (m, w) fd @ atoms (req_items rq)" by blast
  have "subseq (stream s' fd) (stream (m, w) fd @ atoms (req_items rq))" by (intro prefix_imp_subseq) (simp flip: lost)
  moreover have "subseq (stream (m, w) fd @ atoms (req_items rq)) (r_sub r fd @ atoms (req_items rq))"
    using old st by (simp add: run_inv_def list_emb_append_mono)
  ultimately have "subseq (stream s' fd) (r_sub r fd @ atoms (req_items rq))" by (rule subseq_order.trans)
  moreover have "stream s' fd = r_sub r fd @ atoms (req_items rq) \<and> healthy (snd (wd_io (snd s') fd)) \<and> ctx_asks fd (fst s')"
    if "fd \<notin> mark bad fd (r_bad r)"
  proof -
    have nb: "\<not> bad" "fd \<notin> r_bad r" using that by (auto simp: mark_def split: if_splits)
    then have "fd_faithful r fd" using old by (simp add: run_inv_def)
    then show ?thesis using eff nb bad st by (auto simp: fd_faithful_def)
  qed
  ultimately show ?thesis using eff st
    by (intro run_inv_elsewhere [OF old, of fd]) (auto simp: mark_def fd_faithful_def)
qed

lemma out_step_inv:
  assumes "out_step alloc r r'" "run_inv r" "alloc_bounded alloc"
  shows "run_inv r'"
  using assms(1)
proof cases
  case (submit_ret fd rq s')
  then show ?thesis using run_inv_submit [OF assms(2,3)] by simp
next
  case (submit_exn fd rq e s')
  then show ?thesis using run_inv_submit [OF assms(2,3)] by simp
next
  case (poll rdy s')
  obtain m w where st: "r_st r = (m, w)" by fastforce
  then have "out_inv (r_flight r) (m, w)" using assms(2) by (simp add: run_inv_def)
  from poll_event_result [OF this, of rdy] poll st obtain evs os' where
    "s' = (m\<lparr>o_queue := o_queue m @ evs\<rparr>, set_os os' w)" "out_inv (r_flight r) s'" by auto
  then show ?thesis using poll(1) st by (intro run_inv_same [OF assms(2)]) (simp_all add: elsewhere_def)
next
  case (take e m')
  obtain m w where st: "r_st r = (m, w)" by fastforce
  then have "out_inv (r_flight r) (m, w)" using assms(2) by (simp add: run_inv_def)
  from next_event_result [OF this] take st have "out_inv (e # r_flight r) (m', w)" by simp
  moreover have "ctx_at f m' = ctx_at f m" for f
    using take st by (auto simp: next_event_def ctx_at_def split: list.splits)
  ultimately show ?thesis using take(1) st by (intro run_inv_same [OF assms(2)]) (simp_all add: elsewhere_def)
next
  case (handle e b s')
  obtain m w where st: "r_st r = (m, w)" by fastforce
  then have "out_inv (r_flight r) (m, w)" using assms(2) by (simp add: run_inv_def)
  note eff = write_event_effect [OF this handle(2) handle(3) [unfolded st]]
  then have "subseq (stream s' (ident e)) (r_sub r (ident e))"
    using assms(2) st subseq_order.trans by (auto simp: run_inv_def)
  moreover have "fd_faithful r' (ident e)" if "ident e \<notin> r_bad r'"
    using assms(2) that handle(1) st eff by (auto simp: run_inv_def fd_faithful_def)
  ultimately show ?thesis using eff handle(1) st
    by (intro run_inv_elsewhere [OF assms(2), of "ident e"]) auto
next
  case (answer m w sc fd)
  have "out_inv (r_flight r) (m, set_io fd (fst (wd_io w fd), sc) w)"
    using assms(2) answer(2) by (subst out_inv_world [of _ w fd]) (auto simp: run_inv_def)
  moreover have str: "stream (m, set_io fd (fst (wd_io w fd), sc) w) fd = stream (m, w) fd" by (simp add: stream_def)
  moreover have "fd \<notin> r_bad r' \<Longrightarrow> fd_faithful r' fd"
    using assms(2) answer str by (auto simp: run_inv_def fd_faithful_def mark_def split: if_splits)
  ultimately show ?thesis using answer assms(2)
    by (intro run_inv_elsewhere [OF assms(2), of fd]) (auto simp: elsewhere_def run_inv_def mark_def)
next
  case (open_fd m w fd os')
  have "out_inv (r_flight r) (m, set_os os' w)"
    using out_inv_open [of "r_flight r" m w fd os'] open_fd assms(2) by (simp add: run_inv_def)
  then show ?thesis using open_fd(1,2) by (intro run_inv_same [OF assms(2)]) (simp_all add: elsewhere_def)
next
  case (close_fd m w fd)
  have "out_inv (r_flight r) (m, set_os (sys_close fd (wd_os w)) w)"
    using out_inv_close [of "r_flight r" m w fd] close_fd assms(2) by (simp add: run_inv_def)
  then show ?thesis using close_fd(1,2) by (intro run_inv_same [OF assms(2)]) (simp_all add: elsewhere_def)
next
  case (other_kernel m w os')
  then have inv: "out_inv (r_flight r) (m, w)" using assms(2) by (simp add: run_inv_def)
  have "out_inv (r_flight r) (m, set_os os' w)"
    using other_kernel(3,4) out_invD(4,9) [OF inv] by (intro out_inv_os [OF inv]) (auto simp: quiet_def)
  then show ?thesis using other_kernel(1,2) by (intro run_inv_same [OF assms(2)]) (simp_all add: elsewhere_def)
qed

lemma out_new_result:
  assumes "os_wf os" "os_script os = []" "out_new alloc os = Ret m os'"
  shows "out_inv [] (m, \<lparr>wd_os = os', wd_io = io\<rparr>) \<and> o_queue m = [] \<and> (\<forall>x\<in>set (o_ctx m). x = xfer_new)"
proof -
  obtain fd os1 where o: "sys_openfd os = (fd, os1)" by fastforce
  have sc: "os_script os1 = []" "os_ep os1 = os_ep os" "os_nofile os1 = os_nofile os"
    using o assms(2) by (auto simp: sys_openfd_def sys_fail_def Let_def split: if_splits)
  have r: "\<not> fd < 0" "m = \<lparr>o_kernel = \<lparr>m_ep = fd\<rparr>, o_ctx = replicate (os_nofile os) xfer_new, o_watching = 0, o_queue = []\<rparr>" "os' = os1"
    using assms(3) o sc by (auto simp: out_new_def kernel_new_def kernel_max_def sys_take_def split: if_splits)
  have "plus_fd fd os os1" using sys_openfd_result [OF o assms(1)] r(1) by simp
  then have "os_ep os fd f = None" for f by (simp add: plus_fd_def)
  then have none: "os_ep os1 fd f = None" for f using sc by simp
  have np: "\<not> pending m f" for f by (auto simp: r(2) pending_def ctx_at_def split: option.splits)
  have "out_inv [] (m, \<lparr>wd_os = os', wd_io = io\<rparr>)"
    using assms(1) none np sc
    by (intro out_invI) (auto simp: r(2,3) list_all_iff os_wf_def ep_wf_def armed_def ep_ready_def registered_def exclusive_def)
  then show ?thesis by (simp add: r(2))
qed

lemma out_reach_inv:
  assumes "out_reach alloc r" "alloc_bounded alloc"
  shows "run_inv r"
  using assms(1)
proof induction
  case (start os m os')
  note n = out_new_result [OF start, where io = "\<lambda>_. ([], [])"]
  then have "items x = []" if "ctx_at f m = Some x" for f x
    using that xfer_new_inv(2) by (metis ctx_at_def nth_mem option.discI option.inject)
  then have "stream (r_st (start_run m os')) f = []" "ctx_asks f m" for f
    by (auto simp: start_run_def stream_def ctx_asks_def split: option.split)
  then show ?case using n by (simp add: run_inv_def fd_faithful_def start_run_def healthy_def)
next
  case (step r r')
  then show ?case using out_step_inv assms(2) by blast
qed

section \<open>A sample run\<close>

text \<open>A fresh component, and a write of three bytes to descriptor 1, which would block.\<close>

definition sample_alloc :: "size_t \<Rightarrow> bool" where
  "sample_alloc n = (unat n \<le> 65536)"

definition sample_out :: out where
  "sample_out = \<lparr>o_kernel = \<lparr>m_ep = 4\<rparr>, o_ctx = replicate 64 xfer_new, o_watching = 0, o_queue = []\<rparr>"

definition sample_start :: orun where
  "sample_start = start_run sample_out (os_sample []\<lparr>os_open := [4, 3, 2, 1, 0]\<rparr>)"

definition sample_run :: orun where
  "sample_run =
     (case submit sample_alloc 1 (Mem 16 3) (r_st sample_start) of
        Ret _ s' \<Rightarrow> sample_start\<lparr>r_st := s', r_sub := (\<lambda>_. [])(1 := [] @ atoms [Iovec [(16, 3)]]), r_bad := {}\<rparr>
      | _ \<Rightarrow> sample_start)"

lemma sample_alloc_bounded [simp]: "alloc_bounded sample_alloc"
  by (simp add: alloc_bounded_def sample_alloc_def)

lemma sample_start_reach: "out_reach sample_alloc sample_start"
  unfolding sample_start_def
proof (rule out_reach.start [of "os_sample []"])
  show "out_new sample_alloc (os_sample []) = Ret sample_out (os_sample []\<lparr>os_open := [4, 3, 2, 1, 0]\<rparr>)"
    by (simp add: out_new_def sample_alloc_def sample_out_def kernel_new_def sys_openfd_def sys_take_def
        os_sample_def fresh_fd_def kernel_max_def Let_def)
qed (simp_all add: os_sample_def os_wf_def)

lemma sample_submit: "\<exists>s'. submit sample_alloc 1 (Mem 16 3) (r_st sample_start) = Ret () s' \<and> pending (fst s') 1"
proof -
  have c: "ctx_at 1 sample_out = Some xfer_new" by (simp add: ctx_at_def sample_out_def)
  have "push_write sample_alloc 16 3 xfer_new = Ret () \<lparr>xf_head = Some (fill_mem 16 3), xf_free = 52\<rparr>"
    by (simp add: push_write_def append_record_def reserve_def store_record_def xfer_new_def used_def xf_bytes_def
        sizeof_mem_def sample_alloc_def)
  moreover have "items \<lparr>xf_head = Some (fill_mem 16 3), xf_free = 52\<rparr> \<noteq> []"
    using decode_fill_mem [of 16 3 "[]"] by (simp add: items_def xf_bytes_def)
  ultimately show ?thesis using c
    by (simp add: sample_start_def start_run_def out_write_def pending_def ctx_at_set_ctx [OF c])
qed

lemma sample_run_reach: "out_reach sample_alloc sample_run" "pending (fst (r_st sample_run)) 1" "1 \<notin> r_bad sample_run"
proof -
  from sample_submit obtain s' where s': "submit sample_alloc 1 (Mem 16 3) (r_st sample_start) = Ret () s'" "pending (fst s') 1"
    by blast
  then have "sample_run = sample_start\<lparr>r_st := s', r_sub := (r_sub sample_start)(1 := r_sub sample_start 1 @ atoms (req_items (Mem 16 3))),
      r_bad := mark (\<not> list_all asks_bytes (req_items (Mem 16 3))) 1 (r_bad sample_start)\<rparr>"
    by (simp add: sample_run_def sample_start_def start_run_def mark_def mem_atoms_def)
  moreover have "out_step sample_alloc sample_start \<dots>"
    using s'(1) by (rule submit_ret) (simp_all add: sample_start_def start_run_def sample_out_def ctx_at_def os_sample_def)
  ultimately show "out_reach sample_alloc sample_run" using sample_start_reach out_reach.step by metis
  show "pending (fst (r_st sample_run)) 1" "1 \<notin> r_bad sample_run" using s' by (simp_all add: sample_run_def)
qed

section \<open>Properties of the output component\<close>

text \<open>
  C2. In every reachable state each descriptor with pending output is armed in the kernel, or its
  event is in the queue, or with exactly one worker: no wake-up is lost and no descriptor is
  handled by two workers. \<open>m_watching\<close> is the number of descriptors with pending output, so
  \<open>empty\<close> (which ends \<open>flush\<close>) holds just when nothing is pending.
\<close>
theorem out_no_lost_wakeup:
  assumes "out_reach alloc r" and "alloc_bounded alloc" and "r_st r = (m, w)"
  shows "(\<forall>fd. pending m fd \<longleftrightarrow> fd \<in> armed (o_kernel m) (wd_os w) \<or> fd \<in> ident ` set (o_queue m @ r_flight r)) \<and>
     distinct (map ident (o_queue m @ r_flight r)) \<and>
     armed (o_kernel m) (wd_os w) \<inter> ident ` set (o_queue m @ r_flight r) = {} \<and>
     o_watching m = int (card {fd. pending m fd}) \<and> (out_empty m \<longleftrightarrow> (\<forall>fd. \<not> pending m fd))"
proof -
  have inv: "out_inv (r_flight r) (m, w)" using out_reach_inv [OF assms(1,2)] assms(3) by (simp add: run_inv_def)
  note I = out_invD [OF inv]
  have "out_empty m \<longleftrightarrow> (\<forall>fd. \<not> pending m fd)" using I(10) by (simp add: out_empty_def)
  then show ?thesis using I(6,8,10) by (auto simp: exclusive_def)
qed

theorem out_no_lost_wakeup_witness:
  "case r_st sample_run of (m, w) \<Rightarrow>
     (\<forall>fd. pending m fd \<longleftrightarrow> fd \<in> armed (o_kernel m) (wd_os w) \<or> fd \<in> ident ` set (o_queue m @ r_flight sample_run)) \<and>
     distinct (map ident (o_queue m @ r_flight sample_run)) \<and>
     armed (o_kernel m) (wd_os w) \<inter> ident ` set (o_queue m @ r_flight sample_run) = {} \<and>
     o_watching m = int (card {fd. pending m fd}) \<and> (out_empty m \<longleftrightarrow> (\<forall>fd. \<not> pending m fd))"
  by (split prod.split, intro allI impI)
     (rule out_no_lost_wakeup [OF sample_run_reach(1) sample_alloc_bounded])

text \<open>
  C7. Output is first in, first out: in every reachable state and for every descriptor on which
  nothing went wrong, what has been written followed by what is pending is exactly what was
  submitted, in order. Once nothing is pending, every byte was written and every finalizer was
  called exactly once, after the bytes submitted before it.
\<close>
theorem out_fifo:
  assumes "out_reach alloc r" and "alloc_bounded alloc" and "fd \<notin> r_bad r" and "r_st r = (m, w)"
  shows "stream (m, w) fd = r_sub r fd \<and> (\<not> pending m fd \<longrightarrow> fst (wd_io w fd) = r_sub r fd)"
proof -
  have "fd_faithful r fd" using out_reach_inv [OF assms(1,2)] assms(3) by (simp add: run_inv_def)
  then have s: "stream (m, w) fd = r_sub r fd" using assms(4) by (simp add: fd_faithful_def)
  moreover have "stream (m, w) fd = fst (wd_io w fd)" if "\<not> pending m fd"
    using that by (auto simp: stream_def pending_def split: option.splits)
  ultimately show ?thesis by simp
qed

theorem out_fifo_witness:
  "case r_st sample_run of (m, w) \<Rightarrow>
     pending m 1 \<and> stream (m, w) 1 = r_sub sample_run 1 \<and> (\<not> pending m 1 \<longrightarrow> fst (wd_io w 1) = r_sub sample_run 1)"
proof -
  obtain m w where st: "r_st sample_run = (m, w)" by fastforce
  from out_fifo [OF sample_run_reach(1) sample_alloc_bounded sample_run_reach(3) st] sample_run_reach(2) show ?thesis
    by (simp add: st)
qed

text \<open>
  C22. Whatever descriptors and the allocator do, what was written and is pending for a descriptor is
  always a subsequence of what was submitted: nothing is ever written twice or out of order, and
  no finalizer is called twice.
\<close>
theorem out_never_reorders:
  assumes "out_reach alloc r" and "alloc_bounded alloc"
  shows "subseq (stream (r_st r) fd) (r_sub r fd)"
  using out_reach_inv [OF assms] by (simp add: run_inv_def)

theorem out_never_reorders_witness:
  "subseq (stream (r_st sample_run) 1) (r_sub sample_run 1)"
  by (rule out_never_reorders [OF sample_run_reach(1) sample_alloc_bounded])

text \<open>
  C23. The three submitting operations \<open>commit_raw\<close>, \<open>commit\<close> and \<open>write\<close> implement one specification:
  behind pending output the items are queued; otherwise they are executed at once and what is
  left is queued and watched; no operation runs into undefined behaviour.
\<close>
theorem submit_correct:
  assumes "ctx_at fd m = Some x" and "xf_inv x" and "alloc_bounded alloc" and "req_ok rq"
  shows "submit_spec fd (req_items rq) x (m, w) (submit alloc fd rq (m, w))"
  using assms by (rule submit_refines)

theorem submit_correct_witness:
  "submit_spec 1 [Iovec [(16, 3)]] xfer_new (r_st sample_start) (submit sample_alloc 1 (Mem 16 3) (r_st sample_start))"
proof -
  obtain w where w: "r_st sample_start = (sample_out, w)" by (simp add: sample_start_def start_run_def)
  have "ctx_at 1 sample_out = Some xfer_new" by (simp add: ctx_at_def sample_out_def)
  from submit_correct [OF this xfer_new_inv(1) sample_alloc_bounded, of "Mem 16 3" w] show ?thesis by (simp add: w)
qed

text \<open>
  When a worker handles the event of a descriptor, \<open>write_event\<close> returns, executes the pending
  items, and either gives the event back with the rest still pending, or removes the event with
  every finalizer that was left called and nothing pending; the invariant of the component holds
  afterwards with that event no longer in flight. It reports true just when no descriptor is
  watched any more.
\<close>
lemma write_event_correct:
  assumes "out_inv (e # fl) (m, w)" and "ctx_at (ident e) m = Some x"
    and "exec_items (items x) (wd_io w (ident e)) = (c, its', (tr', sc'))"
  shows "\<exists>m' w'. write_event e (m, w) = Ret (\<not> c \<and> o_watching m' = 0) (m', w') \<and> out_inv fl (m', w') \<and>
     wd_io w' = (wd_io w)(ident e := (tr' @ (if c then [] else fins its'), sc')) \<and>
     (\<exists>y. ctx_at (ident e) m' = Some y \<and> items y = (if c then its' else [])) \<and>
     (\<forall>f. f \<noteq> ident e \<longrightarrow> ctx_at f m' = ctx_at f m)"
  using assms by (intro write_event_result) (auto intro: ctx_at_inv out_invD(1))

lemma sample_run_idle:
  assumes st: "r_st sample_run = (m, w)"
  shows "r_flight sample_run = []" "o_queue m = []" "o_kernel m = \<lparr>m_ep = 4\<rparr>" "os_open (wd_os w) = [4, 3, 2, 1, 0]"
    "os_nofile (wd_os w) = 64"
proof -
  show "r_flight sample_run = []" by (simp add: sample_run_def sample_start_def start_run_def split: outcome.split)
  have s: "o_queue sample_out = []" "o_kernel sample_out = \<lparr>m_ep = 4\<rparr>" by (simp_all add: sample_out_def)
  have add: "add_fd k ev fd os = (r, os') \<Longrightarrow> os_open os' = os_open os \<and> os_nofile os' = os_nofile os" for k ev fd os r os'
    unfolding add_fd_def epoll_ctl_add_def Let_def
    by (erule sys_call_cases) (auto simp: same_resources_def sys_fail_def split: if_splits)
  have os: "os_open (os_sample []\<lparr>os_open := [4, 3, 2, 1, 0]\<rparr>) = [4, 3, 2, 1, 0]" "os_nofile (os_sample []\<lparr>os_open := [4, 3, 2, 1, 0]\<rparr>) = 64"
    by (simp_all add: os_sample_def)
  show "o_queue m = []" "o_kernel m = \<lparr>m_ep = 4\<rparr>" "os_open (wd_os w) = [4, 3, 2, 1, 0]" "os_nofile (wd_os w) = 64"
    using st sample_submit s os
    by (auto simp: sample_run_def sample_start_def start_run_def out_write_def watch_def Let_def on_ctx.simps
        split: outcome.splits prod.splits option.splits sysret.splits if_splits dest!: add
        elim!: bind_outcome.elims on_ctx.elims)
qed

text \<open>The event of descriptor 1 in the sample run, polled and taken by a worker.\<close>

lemma sample_event:
  "\<exists>e m w. out_inv [e] (m, w) \<and> ident e = 1 \<and> (\<exists>x. ctx_at 1 m = Some x \<and> items x \<noteq> [])"
proof -
  obtain m w where st: "r_st sample_run = (m, w)" by fastforce
  note fl = sample_run_idle [OF st]
  have inv: "out_inv [] (m, w)" using out_reach_inv [OF sample_run_reach(1) sample_alloc_bounded] st fl by (simp add: run_inv_def)
  note I = out_invD [OF inv]
  have p: "pending m 1" using sample_run_reach(2) st by simp
  then have arm: "1 \<in> armed (o_kernel m) (wd_os w)" using I(8) fl by simp
  from wait_ok [OF I(4), of "o_kernel m" "[1]"] obtain evs os' where
    w: "wait (o_kernel m) [1] (wd_os w) = (int (length evs), evs, os')" by blast
  have "map ident evs = [1]"
  proof -
    have d: "distinct (map ident evs)" "length evs \<le> 1"
      using epw.wait_law [OF I(3) w] w by (auto simp: wait_def epoll_wait_def sys_take_def I(4) Let_def)
    have "1 \<in> set (map ident evs) \<or> length evs = 1024"
      using wait_reports [OF I(3,4) arm _ w] by (simp add: MP_WAVY_KERNEL_BACKLOG_SIZE_def)
    then show ?thesis using d(2) by (cases evs) auto
  qed
  then obtain e where e: "evs = [e]" "ident e = 1" by (cases evs) auto
  from poll_event_result [OF inv, of "[1]"] w e fl obtain os2 where
    "out_inv [] (m\<lparr>o_queue := [e]\<rparr>, set_os os2 w)" by (auto simp: poll_event_def Let_def)
  from next_event_result [OF this, of e "m\<lparr>o_queue := []\<rparr>"]
  have "out_inv [e] (m\<lparr>o_queue := []\<rparr>, set_os os2 w)" by (simp add: next_event_def)
  moreover have "\<exists>x. ctx_at 1 (m\<lparr>o_queue := []\<rparr>) = Some x \<and> items x \<noteq> []"
    using p by (auto simp: pending_def split: option.splits)
  ultimately show ?thesis using e(2) by blast
qed

lemma write_event_correct_witness:
  "\<exists>e m w x c its' tr' sc'. ident e = 1 \<and> items x \<noteq> [] \<and>
     exec_items (items x) (wd_io w (ident e)) = (c, its', (tr', sc')) \<and>
     (\<exists>m' w'. write_event e (m, w) = Ret (\<not> c \<and> o_watching m' = 0) (m', w') \<and> out_inv [] (m', w') \<and>
        wd_io w' = (wd_io w)(ident e := (tr' @ (if c then [] else fins its'), sc')) \<and>
        (\<exists>y. ctx_at (ident e) m' = Some y \<and> items y = (if c then its' else [])) \<and>
        (\<forall>f. f \<noteq> ident e \<longrightarrow> ctx_at f m' = ctx_at f m))"
proof -
  from sample_event obtain e m w x where e: "out_inv [e] (m, w)" "ident e = 1" "ctx_at (ident e) m = Some x" "items x \<noteq> []"
    by auto
  obtain c its' tr' sc' where x: "exec_items (items x) (wd_io w (ident e)) = (c, its', (tr', sc'))" by (metis prod_cases4)
  from write_event_correct [OF e(1,3) x] e x show ?thesis by blast
qed

section \<open>Where the component falls short\<close>

lemma exec_items_fails:
  assumes "\<forall>f u. it \<noteq> Finalize f u" "\<not> would_block er"
  shows "exec_items (it # its) (tr, Failed er # sc) = (False, it # its, (tr, sc))"
  using assms by (simp add: exec_items_data)

text \<open>
  When a write with a finalizer goes to an idle descriptor and the descriptor fails,
  \<open>commit_raw\<close> returns as if all was well: the finalizer is not called and not queued, so it never
  runs, and unlike the other paths the descriptor is not shut down.
\<close>
lemma commit_raw_drops_finalizer:
  assumes "ctx_at fd m = Some x" and "xf_inv x" and "items x = []" and "alloc_bounded alloc"
    and "wd_io w fd = (tr, Failed er # sc)" and "\<not> would_block er"
  shows "loop_write_fin alloc fd buf sz f u (m, w) = Ret () (m, set_io fd (tr, sc) w)"
proof -
  let ?b = "fill_mem buf sz @ fill_finalize f u"
  let ?its = "[Iovec [(buf, sz)], Finalize f u]"
  have d: "decode ?b = Some ?its" using decode_fill_finalize [of f u "[]"] by simp
  have "exec_items ?its (tr, Failed er # sc) = (False, ?its, (tr, sc))" using assms(6) by (intro exec_items_fails) auto
  from execute_refines [OF d this] obtain b' where "execute ?b (tr, Failed er # sc) = Ret (False, b') (tr, sc)" by blast
  moreover have "xfer_empty x" using xfer_empty_items [OF assms(2)] assms(3) by simp
  ultimately show ?thesis using assms(1,5) by (simp add: loop_write_fin_def commit_raw_def)
qed

lemma commit_raw_drops_finalizer_witness:
  "let w = \<lparr>wd_os = os_sample [], wd_io = (\<lambda>_. ([], [Failed EPIPE]))\<rparr> in
   loop_write_fin sample_alloc 1 16 3 7 8 (sample_out, w) = Ret () (sample_out, set_io 1 ([], []) w)"
  unfolding Let_def
  by (rule commit_raw_drops_finalizer [where x = xfer_new and er = EPIPE])
     (simp_all add: ctx_at_def sample_out_def would_block_def)

text \<open>
  Writing zero bytes to an idle descriptor counts as a failure: \<open>write\<close> shuts the descriptor
  down for reading although nothing went wrong.
\<close>
lemma empty_write_shuts_down:
  assumes "ctx_at fd m = Some x" and "xf_inv x" and "items x = []" and "wd_io w fd = (tr, Wrote n # sc)"
  shows "out_write alloc fd buf 0 (m, w) = Ret () (m, set_os (sys_shutdown fd (wd_os w)) (set_io fd (tr, sc) w))"
  using assms xfer_empty_items [OF assms(2)] by (simp add: out_write_def)

lemma empty_write_shuts_down_witness:
  "let w = \<lparr>wd_os = os_sample [], wd_io = (\<lambda>_. ([], [Wrote 5]))\<rparr> in
   out_write sample_alloc 1 16 0 (sample_out, w) =
     Ret () (sample_out, set_os (sys_shutdown 1 (os_sample [])) (set_io 1 ([], []) w))"
  unfolding Let_def
  using empty_write_shuts_down [of 1 sample_out xfer_new "\<lparr>wd_os = os_sample [], wd_io = (\<lambda>_. ([], [Wrote 5]))\<rparr>"]
  by (simp add: ctx_at_def sample_out_def)

text \<open>
  \<open>watch\<close> ignores the result of \<open>add_fd\<close>: when the registration fails the descriptor is counted in
  \<open>m_watching\<close> but not armed, so its event never comes and \<open>empty\<close> stays false.
\<close>
lemma watch_ignores_failure:
  assumes "os_script (wd_os w) = Some er # sc"
  shows "\<exists>w'. watch fd (m, w) = (m\<lparr>o_watching := o_watching m + 1\<rparr>, w') \<and>
     armed (o_kernel m) (wd_os w') = armed (o_kernel m) (wd_os w)"
  using assms
  by (simp add: watch_def add_fd_def epoll_ctl_add_def sys_call_def sys_take_def sys_fail_def armed_def ep_ready_def Let_def)

lemma watch_ignores_failure_witness:
  "let w = \<lparr>wd_os = os_sample [Some EMFILE], wd_io = (\<lambda>_. ([], []))\<rparr> in
   \<exists>w'. watch 1 (sample_out, w) = (sample_out\<lparr>o_watching := o_watching sample_out + 1\<rparr>, w') \<and>
     armed (o_kernel sample_out) (wd_os w') = armed (o_kernel sample_out) (wd_os w)"
  unfolding Let_def by (rule watch_ignores_failure [where er = EMFILE and sc = "[]"]) (simp add: os_sample_def)

end
