(* ===== verification/Finalizers.thy ===== *)
theory Finalizers
  imports Out_Runs
begin

text \<open>
  The overloads of \<open>loop::write\<close>, \<open>loop::writev\<close> and \<open>xfer::push_finalize\<close> in \<open>src/mp/wavy.hmpl\<close> that take
  over an object: from an \<open>auto_ptr\<close>, or by a copy of a \<open>shared_ptr\<close> on the heap. The object is deleted by
  a finalizer, \<open>object_delete\<close> (\<open>src/mp/object_delete.h\<close>) at address \<open>del\<close>; deleting it is the event
  \<open>Fin del u\<close> in the output of the descriptor. An \<open>auto_ptr\<close> is the pointer it owns, 0 when it owns nothing.
\<close>

section \<open>Operations\<close>

text \<open>The object is passed on, and released when the call has returned.\<close>

definition hand_over :: "(u64 \<Rightarrow> 's \<Rightarrow> (unit, 's) outcome) \<Rightarrow> u64 \<times> 's \<Rightarrow> (unit, u64 \<times> 's) outcome" where
  "hand_over call st =
     (case call (fst st) (snd st) of
        Ret _ s \<Rightarrow> Ret () (0, s)
      | Exn e s \<Rightarrow> Exn e (fst st, s)
      | Fault f \<Rightarrow> Fault f)"

definition loop_write_auto :: "(size_t \<Rightarrow> bool) \<Rightarrow> u64 \<Rightarrow> int \<Rightarrow> u64 \<Rightarrow> size_t \<Rightarrow> u64 \<times> ost \<Rightarrow> (unit, u64 \<times> ost) outcome" where
  "loop_write_auto alloc del fd buf sz = hand_over (\<lambda>u. loop_write_fin alloc fd buf sz del u)"

definition loop_writev_auto :: "(size_t \<Rightarrow> bool) \<Rightarrow> u64 \<Rightarrow> int \<Rightarrow> (u64 \<times> size_t) list \<Rightarrow> u64 \<times> ost \<Rightarrow> (unit, u64 \<times> ost) outcome" where
  "loop_writev_auto alloc del fd vec = hand_over (\<lambda>u. loop_writev alloc fd vec del u)"

text \<open>
  With a \<open>shared_ptr\<close>, a copy of it is allocated at \<open>p\<close> (16 bytes) and owned by a local \<open>auto_ptr\<close>, which
  deletes it when the call throws. \<open>nodes\<close> are the copies that exist.
\<close>

definition share ::
    "(size_t \<Rightarrow> bool) \<Rightarrow> u64 \<Rightarrow> (u64 \<times> 's \<Rightarrow> (unit, u64 \<times> 's) outcome) \<Rightarrow> u64 list \<times> 's \<Rightarrow> (unit, u64 list \<times> 's) outcome" where
  "share alloc p call st =
     (let (nodes, s) = st in
      if \<not> alloc 16 then Exn Bad_alloc (nodes, s)
      else (case call (p, s) of
              Ret _ (afin, s) \<Rightarrow> Ret () ((if afin = 0 then p # nodes else nodes), s)
            | Exn e (afin, s) \<Rightarrow> Exn e ((if afin = 0 then p # nodes else nodes), s)
            | Fault f \<Rightarrow> Fault f))"

definition loop_write_shared ::
    "(size_t \<Rightarrow> bool) \<Rightarrow> u64 \<Rightarrow> u64 \<Rightarrow> int \<Rightarrow> u64 \<Rightarrow> size_t \<Rightarrow> u64 list \<times> ost \<Rightarrow> (unit, u64 list \<times> ost) outcome" where
  "loop_write_shared alloc del p fd buf sz = share alloc p (loop_write_auto alloc del fd buf sz)"

definition loop_writev_shared ::
    "(size_t \<Rightarrow> bool) \<Rightarrow> u64 \<Rightarrow> u64 \<Rightarrow> int \<Rightarrow> (u64 \<times> size_t) list \<Rightarrow> u64 list \<times> ost \<Rightarrow> (unit, u64 list \<times> ost) outcome" where
  "loop_writev_shared alloc del p fd vec = share alloc p (loop_writev_auto alloc del fd vec)"

text \<open>
  \<open>push_finalize\<close> takes the \<open>auto_ptr\<close> by value: the pointer in the state is the parameter's, and what it
  still owns at the end is deleted. The result lists what was deleted.
\<close>

definition push_finalize_auto :: "(size_t \<Rightarrow> bool) \<Rightarrow> u64 \<Rightarrow> u64 \<times> xfer \<Rightarrow> (unit, u64 \<times> xfer) outcome" where
  "push_finalize_auto alloc del = hand_over (\<lambda>u. push_finalize alloc del u)"

definition push_finalize_shared ::
    "(size_t \<Rightarrow> bool) \<Rightarrow> u64 \<Rightarrow> u64 \<Rightarrow> u64 list \<times> xfer \<Rightarrow> (unit, u64 list \<times> xfer) outcome" where
  "push_finalize_shared alloc del p = share alloc p (push_finalize_auto alloc del)"

section \<open>The finalizer is the last item\<close>

lemma exec_items_last:
  "exec_items (its @ [Finalize f u]) (tr, sc) = (c, its', io') \<Longrightarrow> its' = [] \<or> (\<exists>pre. its' = pre @ [Finalize f u])"
proof (induction its arbitrary: tr sc)
  case (Cons it its)
  show ?case
  proof (cases "\<exists>g v. it = Finalize g v")
    case True
    then show ?thesis using Cons by auto
  next
    case False
    then have e: "exec_items (it # its @ [Finalize f u]) (tr, sc) = (c, its', io')" using Cons.prems by simp
    have d: "\<exists>pre. it # its @ [Finalize f u] = pre @ [Finalize f u]" "\<exists>pre. item_drop n it # its @ [Finalize f u] = pre @ [Finalize f u]" for n
      by (metis append_Cons)+
    show ?thesis using e False Cons.IH d by (auto simp: exec_items_data split: sysret.splits prod.splits if_splits)
  qed
qed simp

text \<open>How often the object \<open>u\<close> is deleted, now or when its pending output is dealt with.\<close>

definition deletions :: "u64 \<Rightarrow> u64 \<Rightarrow> int \<Rightarrow> ost \<Rightarrow> nat" where
  "deletions del u fd s = count_list (stream s fd) (Fin del u)"

text \<open>A submission to an idle descriptor that fails at once.\<close>

definition gives_up :: "item list \<Rightarrow> int \<Rightarrow> ost \<Rightarrow> bool" where
  "gives_up its fd s \<longleftrightarrow> (case s of (m, w) \<Rightarrow> \<not> pending m fd \<and>
     (case exec_items its (wd_io w fd) of (c, its', io) \<Rightarrow> \<not> c \<and> its' \<noteq> []))"

definition owner_spec :: "u64 \<Rightarrow> u64 \<Rightarrow> item list \<Rightarrow> int \<Rightarrow> ost \<Rightarrow> (unit, ost) outcome \<Rightarrow> bool" where
  "owner_spec del u its fd s r \<longleftrightarrow> (case r of
      Ret _ s' \<Rightarrow> deletions del u fd s' = (if gives_up its fd s then 0 else 1) \<and> elsewhere fd s s'
    | Exn e s' \<Rightarrow> e = Bad_alloc \<and> deletions del u fd s' = 0 \<and> elsewhere fd s s'
    | Fault f \<Rightarrow> False)"

lemma count_data [simp]: "count_list (mem_atoms base n) (Fin f u) = 0" "count_list (item_atoms (Iovec vec)) (Fin f u) = 0"
  by (auto simp: mem_atoms_def count_list_0_iff)

lemma commit_raw_owner:
  assumes x: "ctx_at fd m = Some x" "xf_inv x" and al: "alloc_bounded alloc" and del: "del \<noteq> 0"
    and b: "decode b = Some [Iovec vec, Finalize del u]" "length b \<le> 1152921504606846976"
    and fresh: "deletions del u fd (m, w) = 0"
  shows "owner_spec del u [Iovec vec, Finalize del u] fd (m, w) (commit_raw alloc fd b (m, w))"
proof -
  let ?its = "[Iovec vec, Finalize del u]"
  have one: "count_list (atoms ?its) (Fin del u) = 1" using del by (simp add: atoms_def fin_atoms_def del: item_atoms.simps(1))
  note spec = commit_raw_submit [OF x al b, of w]
  have pend: "pending m fd \<longleftrightarrow> items x \<noteq> []" using x(1) by (simp add: pending_def)
  show ?thesis
  proof (cases "items x = []")
    case False
    then show ?thesis using spec fresh one pend x(1)
      by (auto simp: owner_spec_def submit_spec_def deletions_def gives_up_def stream_set [OF x(1)] stream_ctx [OF x(1)] elsewhere_def ctx_at_set_ctx [OF x(1)])
  next
    case True
    obtain tr sc where io: "wd_io w fd = (tr, sc)" by fastforce
    obtain c its' tr' sc' where run: "exec_items ?its (tr, sc) = (c, its', (tr', sc'))" by (metis prod_cases4)
    have cons: "tr' @ atoms its' = tr @ atoms ?its" "c \<longrightarrow> its' \<noteq> []" using exec_items_conserves [OF run] by auto
    have tr0: "count_list tr (Fin del u) = 0" using fresh True x(1) io by (simp add: deletions_def stream_ctx)
    have total: "count_list tr' (Fin del u) + count_list (atoms its') (Fin del u) = 1"
      using cons(1) tr0 one by (metis count_list_append add_0)
    have left: "its' \<noteq> [] \<Longrightarrow> count_list (atoms its') (Fin del u) = 1"
    proof -
      assume "its' \<noteq> []"
      with exec_items_last [of "[Iovec vec]" del u tr sc] run obtain pre where "its' = pre @ [Finalize del u]" by auto
      then have "1 \<le> count_list (atoms its') (Fin del u)" using del by (simp add: atoms_def fin_atoms_def)
      then show ?thesis using total by simp
    qed
    have up: "gives_up ?its fd (m, w) \<longleftrightarrow> \<not> c \<and> its' \<noteq> []" using True pend io run by (simp add: gives_up_def)
    show ?thesis
    proof (cases c)
      case c: True
      then show ?thesis using spec True io run cons(2) total left up x(1)
        by (auto simp: owner_spec_def submit_spec_def deletions_def stream_set [OF x(1)] stream_ctx [OF x(1)] elsewhere_def ctx_at_set_ctx [OF x(1)])
    next
      case c: False
      then show ?thesis using spec True io run total left up x(1)
        by (auto simp: owner_spec_def submit_spec_def deletions_def stream_ctx [OF x(1)] elsewhere_def)
    qed
  qed
qed

section \<open>Ownership\<close>

text \<open>The two calls as requests to \<open>commit_raw\<close>.\<close>

lemma write_owner:
  assumes "ctx_at fd m = Some x" "xf_inv x" "alloc_bounded alloc" "del \<noteq> 0" "length vec < 2147483648" "deletions del u fd (m, w) = 0"
    and "call = loop_write_fin alloc fd buf sz del u \<and> vec = [(buf, sz)] \<or> call = loop_writev alloc fd vec del u"
  shows "owner_spec del u [Iovec vec, Finalize del u] fd (m, w) (call (m, w))"
proof -
  have u: "unat (of_nat (length vec) :: size_t) = length vec" using assms(5) by (simp add: size_simps)
  let ?b = "fill_mem buf sz @ fill_finalize del u" and ?v = "fill_iovec (iovec_bytes vec) (of_nat (length vec)) @ fill_finalize del u"
  have d: "decode ?b = Some [Iovec [(buf, sz)], Finalize del u]" "decode ?v = Some [Iovec vec, Finalize del u]"
    using decode_fill_finalize [of del u "[]"] decode_fill_iovec [OF assms(5), of "fill_finalize del u"] by simp_all
  have "length ?v = 4 + 16 * length vec + 20" using u by (simp add: fill_iovec_def)
  then have n: "length ?v \<le> 1152921504606846976" using assms(5) by simp
  show ?thesis using assms(7) commit_raw_owner [OF assms(1-4) d(1) _ assms(6)] commit_raw_owner [OF assms(1-4) d(2) n assms(6)]
    by (elim disjE conjE) (simp_all add: loop_write_fin_def loop_writev_def)
qed

text \<open>
  C38. An object that an \<open>auto_ptr\<close> hands over to \<open>loop::write\<close> or \<open>loop::writev\<close> has exactly one owner
  afterwards: if the call throws, the \<open>auto_ptr\<close> keeps it and no finalizer for it was called or queued;
  if the call returns, the \<open>auto_ptr\<close> is empty and the object is deleted exactly once by the output of the
  descriptor, with one exception: on an idle descriptor that fails at once nobody deletes it.
\<close>
theorem auto_ptr_ownership:
  assumes "ctx_at fd m = Some x" and "xf_inv x" and "alloc_bounded alloc" and "del \<noteq> 0" and "length vec < 2147483648"
    and "deletions del u fd (m, w) = 0"
  shows "(case loop_write_auto alloc del fd buf sz (u, m, w) of
      Ret _ (fin, s') \<Rightarrow> fin = 0 \<and> elsewhere fd (m, w) s' \<and>
        deletions del u fd s' = (if gives_up [Iovec [(buf, sz)], Finalize del u] fd (m, w) then 0 else 1)
    | Exn e (fin, s') \<Rightarrow> fin = u \<and> e = Bad_alloc \<and> deletions del u fd s' = 0 \<and> elsewhere fd (m, w) s'
    | Fault f \<Rightarrow> False) \<and>
    (case loop_writev_auto alloc del fd vec (u, m, w) of
      Ret _ (fin, s') \<Rightarrow> fin = 0 \<and> elsewhere fd (m, w) s' \<and>
        deletions del u fd s' = (if gives_up [Iovec vec, Finalize del u] fd (m, w) then 0 else 1)
    | Exn e (fin, s') \<Rightarrow> fin = u \<and> e = Bad_alloc \<and> deletions del u fd s' = 0 \<and> elsewhere fd (m, w) s'
    | Fault f \<Rightarrow> False)"
proof -
  have "length [(buf, sz)] < 2147483648" by simp
  from write_owner [OF assms(1-4) this assms(6), of "loop_write_fin alloc fd buf sz del u" buf sz]
    write_owner [OF assms, of "loop_writev alloc fd vec del u"]
  show ?thesis by (cases "loop_write_fin alloc fd buf sz del u (m, w)"; cases "loop_writev alloc fd vec del u (m, w)")
    (simp_all add: loop_write_auto_def loop_writev_auto_def hand_over_def owner_spec_def)
qed

theorem auto_ptr_ownership_witness:
  "let w = \<lparr>wd_os = os_sample [], wd_io = (\<lambda>_. ([], [Wrote 3]))\<rparr>; s = (sample_out, w) in
   \<not> gives_up [Iovec [(16, 3)], Finalize 7 8] 1 s \<and>
   (\<exists>s'. loop_write_auto sample_alloc 7 1 16 3 (8, s) = Ret () (0, s') \<and> deletions 7 8 1 s' = 1)"
proof -
  let ?w = "\<lparr>wd_os = os_sample [], wd_io = (\<lambda>_. ([], [Wrote 3]))\<rparr>"
  have x: "ctx_at 1 sample_out = Some xfer_new" "deletions 7 8 1 (sample_out, ?w) = 0"
    by (simp_all add: ctx_at_def sample_out_def deletions_def stream_def)
  have g: "\<not> gives_up [Iovec [(16, 3)], Finalize 7 8] 1 (sample_out, ?w)" by code_simp
  have r: "case loop_write_auto sample_alloc 7 1 16 3 (8, sample_out, ?w) of Ret u s' \<Rightarrow> True | _ \<Rightarrow> False" by code_simp
  from auto_ptr_ownership [OF x(1) _ sample_alloc_bounded _ _ x(2), of "[]" 16 3] g r show ?thesis
    by (auto simp: Let_def split: outcome.splits)
qed

text \<open>With a \<open>shared_ptr\<close> exactly the copies exist that some output will delete, or that were lost with it.\<close>

lemma shared_ptr_ownership:
  assumes "ctx_at fd m = Some x" "xf_inv x" "alloc_bounded alloc" "del \<noteq> 0" "p \<noteq> 0" "deletions del p fd (m, w) = 0"
  shows "case loop_write_shared alloc del p fd buf sz (nodes, m, w) of
      Ret _ (nodes', s') \<Rightarrow> nodes' = p # nodes \<and> deletions del p fd s' = (if gives_up [Iovec [(buf, sz)], Finalize del p] fd (m, w) then 0 else 1)
    | Exn e (nodes', s') \<Rightarrow> e = Bad_alloc \<and> nodes' = nodes \<and> deletions del p fd s' = 0
    | Fault f \<Rightarrow> False"
proof -
  have "length [(buf, sz)] < 2147483648" by simp
  from write_owner [OF assms(1-4) this assms(6), of "loop_write_fin alloc fd buf sz del p" buf sz] assms(5,6)
  show ?thesis by (cases "loop_write_fin alloc fd buf sz del p (m, w)")
    (simp_all add: loop_write_shared_def share_def loop_write_auto_def hand_over_def owner_spec_def)
qed

lemma push_finalize_ownership:
  assumes "xf_inv x" "alloc_bounded alloc" "u \<noteq> 0"
  shows "case push_finalize_auto alloc del (u, x) of
      Ret _ (fin, x') \<Rightarrow> fin = 0 \<and> xf_inv x' \<and> items x' = items x @ [Finalize del u]
    | Exn e (fin, x') \<Rightarrow> e = Bad_alloc \<and> fin = u \<and> x' = x
    | Fault f \<Rightarrow> False"
  using push_mem_appends(3) [OF assms(1,2), of del u] by (auto simp: push_finalize_auto_def hand_over_def appends_def)

text \<open>Once it is queued, handling the descriptor's events neither loses a deletion nor adds one.\<close>

lemma count_fins: "count_list (filter is_fin xs) (Fin f u) = count_list xs (Fin f u)"
  by (induction xs) auto

lemma write_event_deletions:
  assumes "out_inv (e # fl) s" "write_event e s = Ret b s'"
  shows "deletions del u fd s' = deletions del u fd s"
proof -
  obtain m w where s: "s = (m, w)" by fastforce
  obtain x where x: "ctx_at (ident e) m = Some x" "items x \<noteq> []" "xf_inv x"
    using flight_ctx [of "e # fl" m w e] assms(1) s by auto
  obtain tr sc where io: "wd_io w (ident e) = (tr, sc)" by fastforce
  obtain c its' tr' sc' where run: "exec_items (items x) (wd_io w (ident e)) = (c, its', (tr', sc'))" by (metis prod_cases4)
  from write_event_result [OF assms(1) [unfolded s] x(1,3) run] obtain m' w' y where
    r: "write_event e (m, w) = Ret (\<not> c \<and> o_watching m' = 0) (m', w')"
      "wd_io w' = (wd_io w)(ident e := (tr' @ (if c then [] else fins its'), sc'))"
      "ctx_at (ident e) m' = Some y" "items y = (if c then its' else [])" "\<forall>f. f \<noteq> ident e \<longrightarrow> ctx_at f m' = ctx_at f m" by blast
  have s': "s' = (m', w')" using r(1) assms(2) s by simp
  have cons: "tr' @ atoms its' = tr @ atoms (items x)" using exec_items_conserves run io by metis
  have fins: "count_list (fins its') (Fin del u) = count_list (atoms its') (Fin del u)"
    using count_fins [of "atoms its'"] by (simp add: fins_def)
  show ?thesis
  proof (cases "fd = ident e")
    case True
    have "deletions del u fd s = count_list (tr' @ atoms its') (Fin del u)" using True s x(1) io cons by (simp add: deletions_def stream_ctx)
    then show ?thesis using True s' r(2,3,4) fins by (auto simp: deletions_def stream_ctx)
  next
    case False
    then show ?thesis using s s' r(2,5) by (simp add: deletions_def stream_def)
  qed
qed

end
