(* ===== verification/Kernel_Epoll_Timer.thy ===== *)
theory Kernel_Epoll_Timer
  imports Kernel_Epoll
begin

text \<open>
  Timers and signals of \<open>src/mpsrc/wavy_kernel_epoll.h\<close>, in the build with \<open>timerfd\<close> and \<open>signalfd\<close> and in
  the build with \<open>DISABLE_TIMERFD\<close>, where a timer is a pipe fed by a POSIX timer (the definitions
  with the prefix \<open>pipe_\<close>). The theorems follow the descriptors and timers that each path creates.
\<close>

section \<open>Timers with timerfd\<close>

record timer =
  tm_fd :: int

definition timer_new :: timer where
  "timer_new = \<lparr>tm_fd = -1\<rparr>"

definition timer_delete :: "timer \<Rightarrow> os \<Rightarrow> os" where
  "timer_delete tm os = (if 0 \<le> tm_fd tm then sys_close (tm_fd tm) os else os)"

definition zero_timespec :: timespec where
  "zero_timespec = \<lparr>tv_sec = 0, tv_nsec = 0\<rparr>"

text \<open>The interval and the first expiration; \<open>None\<close> is the null pointer.\<close>

definition itimer_of :: "timespec option \<Rightarrow> timespec option \<Rightarrow> itimerspec" where
  "itimer_of value interval =
     (let it_interval = (case interval of None \<Rightarrow> zero_timespec | Some i \<Rightarrow> i) in
      \<lparr>it_value = (case value of Some v \<Rightarrow> v | None \<Rightarrow> it_interval), it_interval = it_interval\<rparr>)"

definition add_timer :: "kernel \<Rightarrow> timer \<Rightarrow> timespec option \<Rightarrow> timespec option \<Rightarrow> os \<Rightarrow> int \<times> timer \<times> os" where
  "add_timer k tm value interval os =
     (let (fd, os) = sys_openfd os in
      if fd < 0 then (-1, tm, os) else
      let (r, os) = sys_set_nonblock fd os in
      if r < 0 then (-1, tm, sys_close fd os) else
      let (r, os) = sys_timerfd_settime fd (itimer_of value interval) os in
      if r < 0 then (-1, tm, sys_close fd os) else
      let (r, os) = add_fd k EVKERNEL_READ fd os in
      if r < 0 then (-1, tm, sys_close fd os) else
      (fd, tm\<lparr>tm_fd := fd\<rparr>, os))"

definition remove_timer :: "kernel \<Rightarrow> int \<Rightarrow> os \<Rightarrow> int \<times> os" where
  "remove_timer k i os = remove_fd k i os"

definition read_timer :: "event \<Rightarrow> os \<Rightarrow> int \<times> os" where
  "read_timer e os = (let (r, os) = sys_read_msg (ident e) 8 os in (if r \<le> 0 then -1 else 0, os))"

section \<open>Signals with signalfd\<close>

record signal =
  sg_fd :: int

definition signal_new :: signal where
  "signal_new = \<lparr>sg_fd = -1\<rparr>"

definition signal_delete :: "signal \<Rightarrow> os \<Rightarrow> os" where
  "signal_delete sg os = (if 0 \<le> sg_fd sg then sys_close (sg_fd sg) os else os)"

definition add_signal :: "kernel \<Rightarrow> signal \<Rightarrow> os \<Rightarrow> int \<times> signal \<times> os" where
  "add_signal k sg os =
     (let (fd, os) = sys_openfd os in
      if fd < 0 then (-1, sg, os) else
      let (r, os) = sys_set_nonblock fd os in
      if r < 0 then (-1, sg, sys_close fd os) else
      let (r, os) = add_fd k EVKERNEL_READ fd os in
      if r < 0 then (-1, sg, sys_close fd os) else
      (fd, sg\<lparr>sg_fd := fd\<rparr>, os))"

definition remove_signal :: "kernel \<Rightarrow> int \<Rightarrow> os \<Rightarrow> int \<times> os" where
  "remove_signal k i os = remove_fd k i os"

definition read_signal :: "event \<Rightarrow> os \<Rightarrow> int \<times> os" where
  "read_signal e os = (let (r, os) = sys_read_msg (ident e) 128 os in (if r \<le> 0 then -1 else 0, os))"

section \<open>Timers without timerfd\<close>

record pipe_timer =
  pt_fd :: int
  pt_timer_id :: nat

definition pipe_timer_new :: pipe_timer where
  "pipe_timer_new = \<lparr>pt_fd = -1, pt_timer_id = 0\<rparr>"

definition pipe_timer_delete :: "pipe_timer \<Rightarrow> os \<Rightarrow> os" where
  "pipe_timer_delete tm os =
     (if 0 \<le> pt_fd tm then sys_close (pt_fd tm) (sys_timer_delete (pt_timer_id tm) os) else os)"

definition pipe_add_timer ::
    "kernel \<Rightarrow> pipe_timer \<Rightarrow> timespec option \<Rightarrow> timespec option \<Rightarrow> os \<Rightarrow> int \<times> pipe_timer \<times> os" where
  "pipe_add_timer k tm value interval os =
     (let (r, (p0, p1), os) = sys_pipe os in
      if r < 0 then (-1, tm, os) else
      let (r, os) = sys_set_nonblock p0 os in
      if r < 0 then (-1, tm, sys_close p0 (sys_close p1 os)) else
      let (r, timer_id, os) = sys_timer_create os in
      if r < 0 then (-1, tm, sys_close p0 (sys_close p1 os)) else
      let (r, os) = sys_timer_settime timer_id (itimer_of value interval) os in
      if r < 0 then (-1, tm, sys_close p0 (sys_close p1 os)) else
      let (r, os) = add_fd k EVKERNEL_READ p0 os in
      if r < 0 then (-1, tm, sys_close p0 (sys_close p1 os)) else
      (p0, tm\<lparr>pt_fd := p0, pt_timer_id := timer_id\<rparr>, os))"

text \<open>
  What a thread of the C library runs when such a timer expires: the loop of \<open>write\<close> calls until all
  \<open>n\<close> bytes left of the value are in the pipe. \<open>rs\<close> are the results of the calls; \<open>None\<close> means that
  there are not enough of them. The state has the number of bytes that went into the pipe.
\<close>

fun timer_thread_loop :: "int \<Rightarrow> (errno + nat) list \<Rightarrow> nat \<Rightarrow> os \<times> nat \<Rightarrow> (os \<times> nat) option" where
  "timer_thread_loop pipefd rs 0 s = Some s"
| "timer_thread_loop pipefd [] (Suc n) s = None"
| "timer_thread_loop pipefd (Inl e # rs) (Suc n) s =
     (if e = EINTR \<or> e = EAGAIN then timer_thread_loop pipefd rs (Suc n) s else Some (sys_close pipefd (fst s), snd s))"
| "timer_thread_loop pipefd (Inr wl # rs) (Suc n) s =
     (let wl = min wl (Suc n) in timer_thread_loop pipefd rs (Suc n - wl) (fst s, snd s + wl))"

definition timer_thread_handler :: "int \<Rightarrow> (errno + nat) list \<Rightarrow> os \<times> nat \<Rightarrow> (os \<times> nat) option" where
  "timer_thread_handler pipefd rs s = timer_thread_loop pipefd rs 8 s"

definition pipe_remove_timer :: "kernel \<Rightarrow> int \<Rightarrow> os \<Rightarrow> int \<times> os" where
  "pipe_remove_timer k i os = remove_fd k i os"

definition pipe_read_timer :: "event \<Rightarrow> os \<Rightarrow> int \<times> os" where
  "pipe_read_timer e os = (let (r, os) = sys_read_msg (ident e) 8 os in (if r \<le> 0 then -1 else 0, os))"

section \<open>Resources\<close>

text \<open>What a successful registration leaves behind: a fresh open descriptor, non-blocking and armed.\<close>

definition fd_registered :: "kernel \<Rightarrow> int \<Rightarrow> os \<Rightarrow> os \<Rightarrow> bool" where
  "fd_registered k fd os os' \<longleftrightarrow> plus_fd fd os os' \<and> fd \<in> set (os_nonblock os') \<and> fd \<in> armed k os' \<and> ep_wf k os'"

lemma same_ep_wf: "same_resources os os' \<Longrightarrow> ep_wf k os' = ep_wf k os"
  by (simp add: same_resources_def ep_wf_def)

lemma add_fd_result:
  assumes p: "plus_fd fd os os1" "0 \<le> fd" "fd < 2147483648" "fd \<in> set (os_nonblock os1)"
    and ep: "os_ep os1 = os_ep os" "ep_wf k os" and r: "add_fd k ev fd os1 = (r, os2)"
  shows "plus_fd fd os os2 \<and> os_itimer os2 = os_itimer os1 \<and> (0 \<le> r \<longrightarrow> fd_registered k fd os os2)"
proof -
  have "ep_wf k os1" using ep by (simp add: ep_wf_def)
  with epoll_add_law [of k os1 fd ev r os2] p r have "ep_wf k os2" "0 \<le> r \<longrightarrow> fd \<in> armed k os2" by (auto simp: fdok_def)
  moreover have "plus_fd fd os os2 \<and> os_nonblock os2 = os_nonblock os1 \<and> os_itimer os2 = os_itimer os1"
    using epoll_ctl_add_result p(1) r unfolding add_fd_def Let_def by blast
  ultimately show ?thesis using p(4) by (auto simp: fd_registered_def)
qed

lemma keeps_ep:
  "sys_openfd os = (fd, os1) \<Longrightarrow> os_ep os1 = os_ep os"
  "sys_set_nonblock fd os = (r, os1) \<Longrightarrow> os_ep os1 = os_ep os"
  "sys_timerfd_settime fd spec os = (r, os1) \<Longrightarrow> os_ep os1 = os_ep os"
  unfolding sys_openfd_def sys_set_nonblock_def sys_timerfd_settime_def
  by (erule sys_call_cases; auto simp: same_resources_def Let_def sys_fail_def split: if_splits)+

lemma open_nonblock_steps:
  assumes wf: "os_wf os" and "sys_openfd os = (fd, os1)" "\<not> fd < 0" "sys_set_nonblock fd os1 = (r, os2)"
  shows "plus_fd fd os os2 \<and> 0 \<le> fd \<and> fd < 2147483648 \<and> os_ep os2 = os_ep os \<and>
     (0 \<le> r \<longrightarrow> fd \<in> set (os_nonblock os2))"
proof -
  have p: "plus_fd fd os os1" "fd < 2147483648" using sys_openfd_result assms by presburger+
  moreover have e: "os_ep os2 = os_ep os" using keeps_ep assms by metis
  ultimately show ?thesis using sys_set_nonblock_result [OF p(1) assms(4)] assms(3) by simp
qed

lemma add_timer_result:
  assumes "os_wf os" and "ep_wf k os" and "add_timer k tm value interval os = (r, tm', os')"
  shows "if r < 0 then tm' = tm \<and> same_resources os os'
         else fd_registered k r os os' \<and> tm_fd tm' = r \<and> os_itimer os' r = Some (itimer_of value interval)"
proof -
  obtain fd os1 where o: "sys_openfd os = (fd, os1)" by fastforce
  obtain r2 os2 where n: "sys_set_nonblock fd os1 = (r2, os2)" by fastforce
  obtain r3 os3 where t: "sys_timerfd_settime fd (itimer_of value interval) os2 = (r3, os3)" by fastforce
  obtain r4 os4 where a: "add_fd k EVKERNEL_READ fd os3 = (r4, os4)" by fastforce
  note eq = assms(3) [unfolded add_timer_def o n t a Let_def prod.case]
  show ?thesis
  proof (cases "fd < 0")
    case True
    then show ?thesis using eq sys_openfd_result [OF o assms(1)] by auto
  next
    case False
    note s2 = open_nonblock_steps [OF assms(1) o False n]
    then have p2: "plus_fd fd os os2" by blast
    note s3 = sys_timerfd_settime_result [OF p2 t]
    have e3: "os_ep os3 = os_ep os" using keeps_ep(3) [OF t] s2 by metis
    have s4: "plus_fd fd os os4 \<and> os_itimer os4 = os_itimer os3 \<and> (0 \<le> r4 \<longrightarrow> fd_registered k fd os os4)" if "0 \<le> r2"
      using s2 s3 that by (intro add_fd_result [OF _ _ _ _ e3 assms(2) a]) auto
    show ?thesis using eq False s2 s3 s4 plus_fd_close by (auto split: if_splits)
  qed
qed

text \<open>
  With \<open>signalfd\<close>, \<open>add_signal\<close> either fails and leaves every descriptor and registration of the
  process as before, or returns a new descriptor that is open, non-blocking and armed.
\<close>

lemma add_signal_result:
  assumes "os_wf os" and "ep_wf k os" and "add_signal k sg os = (r, sg', os')"
  shows "if r < 0 then sg' = sg \<and> same_resources os os' else fd_registered k r os os' \<and> sg_fd sg' = r"
proof -
  obtain fd os1 where o: "sys_openfd os = (fd, os1)" by fastforce
  obtain r2 os2 where n: "sys_set_nonblock fd os1 = (r2, os2)" by fastforce
  obtain r4 os4 where a: "add_fd k EVKERNEL_READ fd os2 = (r4, os4)" by fastforce
  note eq = assms(3) [unfolded add_signal_def o n a Let_def prod.case]
  show ?thesis
  proof (cases "fd < 0")
    case True
    then show ?thesis using eq sys_openfd_result [OF o assms(1)] by auto
  next
    case False
    note s2 = open_nonblock_steps [OF assms(1) o False n]
    then have e2: "os_ep os2 = os_ep os" by blast
    have s4: "plus_fd fd os os4 \<and> os_itimer os4 = os_itimer os2 \<and> (0 \<le> r4 \<longrightarrow> fd_registered k fd os os4)" if "0 \<le> r2"
      using s2 that by (intro add_fd_result [OF _ _ _ _ e2 assms(2) a]) auto
    show ?thesis using eq False s2 s4 plus_fd_close by (auto split: if_splits)
  qed
qed

text \<open>
  In the build without \<open>timerfd\<close>, \<open>add_timer\<close> does not give back what it acquired: when
  \<open>timer_settime\<close> fails the POSIX timer stays allocated, and destroying a timer that was added
  leaves the write end of its pipe open.
\<close>
lemma pipe_timer_leaks:
  "(case pipe_add_timer \<lparr>m_ep = 3\<rparr> pipe_timer_new None (Some \<lparr>tv_sec = 1, tv_nsec = 0\<rparr>)
          (os_sample [None, None, None, Some EINVAL]) of
      (r, tm, os) \<Rightarrow> r = -1 \<and> tm = pipe_timer_new \<and> os_open os = [3, 2, 1, 0] \<and> os_timers os = [1]) \<and>
   (case pipe_add_timer \<lparr>m_ep = 3\<rparr> pipe_timer_new None (Some \<lparr>tv_sec = 1, tv_nsec = 0\<rparr>) (os_sample []) of
      (r, tm, os) \<Rightarrow> r = 4 \<and> os_open (pipe_timer_delete tm os) = [5, 3, 2, 1, 0] \<and>
        os_timers (pipe_timer_delete tm os) = [])"
  by code_simp

text \<open>
  The thread of a timer puts exactly one value into the pipe, or closes the pipe on an error other
  than an interruption or a full pipe; it returns as soon as the calls wrote eight bytes.
\<close>

lemma timer_thread_loop_result:
  "timer_thread_loop fd rs n (os, k) = Some (os', k') \<Longrightarrow> os' = os \<and> k' = k + n \<or> os' = sys_close fd os \<and> k' < k + n"
  by (induction fd rs n "(os, k)" arbitrary: k rule: timer_thread_loop.induct) (fastforce simp: Let_def split: if_splits)+

lemma timer_thread_handler_result:
  "timer_thread_handler fd rs (os, k) = Some (os', k') \<Longrightarrow> os' = os \<and> k' = k + 8 \<or> os' = sys_close fd os \<and> k' < k + 8"
  unfolding timer_thread_handler_def by (rule timer_thread_loop_result)

lemma timer_thread_loop_returns:
  "n \<le> sum_list (map (case_sum (\<lambda>_. 0) id) rs) \<Longrightarrow> timer_thread_loop fd rs n s \<noteq> None"
  by (induction fd rs n s rule: timer_thread_loop.induct) (auto simp: Let_def min_def)

text \<open>
  After an error the timer keeps expiring with the number of the pipe, which may belong to another
  descriptor by then: the next error closes that one.
\<close>
lemma timer_thread_closes_foreign:
  "let os = os_sample [] in
   case timer_thread_handler 3 [Inr 4, Inl EPIPE] (os, 0) of
     Some (os1, k) \<Rightarrow> 3 \<notin> set (os_open os1) \<and>
       (case sys_openfd os1 of (fd, os2) \<Rightarrow> fd = 3 \<and>
          (case timer_thread_handler 3 [Inl EPIPE] (os2, k) of Some (os3, _) \<Rightarrow> fd \<notin> set (os_open os3) | None \<Rightarrow> False))
   | None \<Rightarrow> False"
  by code_simp

end
