(* ===== verification/Kernel_Kqueue.thy ===== *)
theory Kernel_Kqueue
  imports Kernel Posix
begin

text \<open>
  \<open>src/mpsrc/wavy_kernel_kqueue.h\<close>: the BSD implementation of the kernel interface. Registrations are
  \<open>kevent\<close>s with the flag \<open>EV_ONESHOT\<close>: reporting one deletes it, so \<open>reactivate\<close> adds it again and
  \<open>remove\<close> has nothing to do. Timers and signals have no descriptor; they get an ident above the
  descriptors from a table of 256 slots. The state is the object and the kevents of its queue.
\<close>

section \<open>State\<close>

datatype kfilter = EVFILT_READ | EVFILT_WRITE | EVFILT_TIMER | EVFILT_SIGNAL | EVFILT_OTHER int

record kevent =
  kev_ident :: int
  kev_filter :: kfilter
  kev_data :: int
  kev_udata :: int

definition XIDENT_MAX :: nat where
  "XIDENT_MAX = 256"

definition KQ_BACKLOG_SIZE :: nat where
  "KQ_BACKLOG_SIZE = 1024"

record kq =
  m_kq :: int
  m_fdmax :: nat
  m_xident :: "bool list"
  m_xident_index :: u32
  kq_tab :: "kevent list"
  kq_script :: "errno option list"
  kq_errno :: errno

definition kq_take :: "kq \<Rightarrow> errno option \<times> kq" where
  "kq_take s =
     (case kq_script s of
        [] \<Rightarrow> (None, s)
      | a # rest \<Rightarrow> (a, s\<lparr>kq_script := rest\<rparr>))"

text \<open>
  The constructor: \<open>fd\<close> is what \<open>kqueue()\<close> returned, \<open>nofile\<close> the result of \<open>getrlimit\<close>.
\<close>

definition kq_new :: "errno + int \<Rightarrow> errno + nat \<Rightarrow> exn + kq" where
  "kq_new fd nofile =
     (case nofile of
        Inl e \<Rightarrow> Inl (System_error e)
      | Inr n \<Rightarrow>
          (case fd of
             Inl e \<Rightarrow> Inl (System_error e)
           | Inr fd \<Rightarrow> Inr \<lparr>m_kq = fd, m_fdmax = n, m_xident = replicate XIDENT_MAX False, m_xident_index = 0,
                           kq_tab = [], kq_script = [], kq_errno = EAGAIN\<rparr>))"

text \<open>The destructor closes the queue, which drops its registrations.\<close>

definition kq_delete :: "kq \<Rightarrow> os \<Rightarrow> kq \<times> os" where
  "kq_delete s os = (s\<lparr>kq_tab := []\<rparr>, sys_close (m_kq s) os)"

definition kq_max :: "kq \<Rightarrow> nat" where
  "kq_max s = m_fdmax s + XIDENT_MAX"

section \<open>Idents of timers and signals\<close>

text \<open>The loop of \<open>alloc_xident\<close>; \<open>n\<close> is the number of iterations that are left.\<close>

primrec alloc_loop :: "nat \<Rightarrow> kq \<Rightarrow> int \<times> kq" where
  "alloc_loop 0 s = (-1, s\<lparr>kq_errno := EMFILE\<rparr>)"
| "alloc_loop (Suc n) s =
     (let x = unat (m_xident_index s) mod XIDENT_MAX; s = s\<lparr>m_xident_index := m_xident_index s + 1\<rparr> in
      if \<not> m_xident s ! x then (int (m_fdmax s + x), s\<lparr>m_xident := (m_xident s)[x := True]\<rparr>)
      else alloc_loop n s)"

definition alloc_xident :: "kq \<Rightarrow> int \<times> kq" where
  "alloc_xident s = alloc_loop (XIDENT_MAX * 2) s"

text \<open>\<open>free_xident\<close> is only called with an ident that \<open>alloc_xident\<close> returned; the index is not checked.\<close>

definition free_xident :: "int \<Rightarrow> kq \<Rightarrow> bool \<times> kq" where
  "free_xident xident s =
     (let x = nat (xident - int (m_fdmax s)) in
      if m_xident s ! x then (True, s\<lparr>m_xident := (m_xident s)[x := False]\<rparr>) else (False, s))"

section \<open>Registrations\<close>

definition same_key :: "kevent \<Rightarrow> kevent \<Rightarrow> bool" where
  "same_key a b \<longleftrightarrow> kev_ident a = kev_ident b \<and> kev_filter a = kev_filter b"

text \<open>\<open>set_event\<close> with \<open>EV_ADD|EV_ONESHOT\<close>: a registration of the same ident and filter is replaced.\<close>

definition set_event_add :: "kevent \<Rightarrow> kq \<Rightarrow> int \<times> kq" where
  "set_event_add kev s =
     (case kq_take s of
        (Some e, s) \<Rightarrow> (-1, s\<lparr>kq_errno := e\<rparr>)
      | (None, s) \<Rightarrow> (0, s\<lparr>kq_tab := filter (\<lambda>k. \<not> same_key kev k) (kq_tab s) @ [kev]\<rparr>))"

text \<open>\<open>set_event\<close> with \<open>EV_DELETE\<close>.\<close>

definition set_event_delete :: "int \<Rightarrow> kfilter \<Rightarrow> kq \<Rightarrow> int \<times> kq" where
  "set_event_delete i flt s =
     (case kq_take s of
        (Some e, s) \<Rightarrow> (-1, s\<lparr>kq_errno := e\<rparr>)
      | (None, s) \<Rightarrow>
          if list_ex (\<lambda>k. kev_ident k = i \<and> kev_filter k = flt) (kq_tab s)
          then (0, s\<lparr>kq_tab := filter (\<lambda>k. \<not> (kev_ident k = i \<and> kev_filter k = flt)) (kq_tab s)\<rparr>)
          else (-1, s\<lparr>kq_errno := ENOENT\<rparr>))"

definition kq_ident :: "kevent \<Rightarrow> int" where
  "kq_ident kev = (if kev_filter kev = EVFILT_SIGNAL then kev_udata kev else kev_ident kev)"

definition kq_add_fd :: "kfilter \<Rightarrow> int \<Rightarrow> kq \<Rightarrow> int \<times> kq" where
  "kq_add_fd event fd s = set_event_add \<lparr>kev_ident = fd, kev_filter = event, kev_data = 0, kev_udata = 0\<rparr> s"

definition kq_remove_fd :: "kfilter \<Rightarrow> int \<Rightarrow> kq \<Rightarrow> int \<times> kq" where
  "kq_remove_fd event fd s = set_event_delete fd event s"

text \<open>Timers. The object keeps its ident; \<open>-1\<close> when it was never added.\<close>

definition msec :: "timespec \<Rightarrow> int" where
  "msec ts = tv_sec ts * 1000 + tv_nsec ts div 1000 div 1000"

definition kq_add_timer :: "int \<Rightarrow> timespec option \<Rightarrow> timespec option \<Rightarrow> kq \<Rightarrow> int \<times> int \<times> kq" where
  "kq_add_timer tm value interval s =
     (let (xident, s) = alloc_xident s in
      if xident < 0 then (-1, tm, s) else
      let udata = (case interval of None \<Rightarrow> 0 | Some i \<Rightarrow> msec i);
          data = (case value of None \<Rightarrow> udata | Some v \<Rightarrow> msec v);
          (r, s) = set_event_add \<lparr>kev_ident = xident, kev_filter = EVFILT_TIMER, kev_data = data, kev_udata = udata\<rparr> s in
      if r < 0 then (-1, tm, snd (free_xident xident s))
      else (xident, xident, s))"

definition kq_remove_timer :: "int \<Rightarrow> kq \<Rightarrow> int \<times> kq" where
  "kq_remove_timer i s = set_event_delete i EVFILT_TIMER s"

definition kq_read_timer :: "kevent \<Rightarrow> int" where
  "kq_read_timer e = 0"

definition kq_timer_delete :: "int \<Rightarrow> kq \<Rightarrow> kq" where
  "kq_timer_delete tm s =
     (if 0 \<le> tm then snd (free_xident tm (snd (kq_remove_timer tm s))) else s)"

text \<open>Signals.\<close>

definition kq_add_signal :: "int \<Rightarrow> int \<Rightarrow> kq \<Rightarrow> int \<times> int \<times> kq" where
  "kq_add_signal sg signo s =
     (let (xident, s) = alloc_xident s in
      if xident < 0 then (-1, sg, s) else
      let (r, s) = set_event_add \<lparr>kev_ident = signo, kev_filter = EVFILT_SIGNAL, kev_data = 0, kev_udata = xident\<rparr> s in
      if r < 0 then (-1, sg, snd (free_xident xident s))
      else (xident, xident, s))"

definition kq_remove_signal :: "int \<Rightarrow> kq \<Rightarrow> int \<times> kq" where
  "kq_remove_signal i s = set_event_delete i EVFILT_SIGNAL s"

definition kq_read_signal :: "kevent \<Rightarrow> int" where
  "kq_read_signal e = 0"

definition kq_signal_delete :: "int \<Rightarrow> kq \<Rightarrow> kq" where
  "kq_signal_delete sg s =
     (if 0 \<le> sg then snd (free_xident sg (snd (kq_remove_signal sg s))) else s)"

definition kq_add_kernel :: "int \<Rightarrow> kq \<Rightarrow> int \<times> kq" where
  "kq_add_kernel kern s =
     (let (r, s) = kq_add_fd EVFILT_READ kern s in
      if r < 0 then (-1, s) else (kern, s))"

section \<open>Events\<close>

text \<open>\<open>rdy\<close> are the registrations whose condition holds, by ident and filter.\<close>

definition kq_wait :: "(int \<times> kfilter) list \<Rightarrow> kq \<Rightarrow> int \<times> kevent list \<times> kq" where
  "kq_wait rdy s =
     (case kq_take s of
        (Some e, s) \<Rightarrow> (-1, [], s\<lparr>kq_errno := e\<rparr>)
      | (None, s) \<Rightarrow>
          let evs = take KQ_BACKLOG_SIZE (filter (\<lambda>k. (kev_ident k, kev_filter k) \<in> set rdy) (kq_tab s)) in
          (int (length evs), evs, s\<lparr>kq_tab := filter (\<lambda>k. k \<notin> set evs) (kq_tab s)\<rparr>))"

text \<open>The limit that the second overload of \<open>wait\<close> passes on; \<open>/\<close> and \<open>%\<close> of C round towards zero.\<close>

definition kq_timeout :: "int \<Rightarrow> timespec" where
  "kq_timeout timeout_msec =
     \<lparr>tv_sec = sgn timeout_msec * (\<bar>timeout_msec\<bar> div 1000), tv_nsec = sgn timeout_msec * (\<bar>timeout_msec\<bar> mod 1000) * 1000000\<rparr>"

definition kq_reactivate :: "kevent \<Rightarrow> kq \<Rightarrow> int \<times> kq" where
  "kq_reactivate e s =
     (case kev_filter e of
        EVFILT_READ \<Rightarrow> kq_add_fd EVFILT_READ (kq_ident e) s
      | EVFILT_WRITE \<Rightarrow> kq_add_fd EVFILT_WRITE (kq_ident e) s
      | EVFILT_TIMER \<Rightarrow> let data = kev_udata e in
          set_event_add \<lparr>kev_ident = kq_ident e, kev_filter = EVFILT_TIMER, kev_data = data, kev_udata = data\<rparr> s
      | EVFILT_SIGNAL \<Rightarrow>
          set_event_add \<lparr>kev_ident = kev_ident e, kev_filter = EVFILT_SIGNAL, kev_data = 0, kev_udata = kev_udata e\<rparr> s
      | _ \<Rightarrow> (-1, s))"

definition kq_remove :: "kevent \<Rightarrow> kq \<Rightarrow> int \<times> kq" where
  "kq_remove e s =
     (case kev_filter e of
        EVFILT_READ \<Rightarrow> (0, s)
      | EVFILT_WRITE \<Rightarrow> (0, s)
      | EVFILT_TIMER \<Rightarrow> (0, s)
      | EVFILT_SIGNAL \<Rightarrow> (0, s)
      | _ \<Rightarrow> (-1, s))"

section \<open>Facts about idents\<close>

lemma unat_index_step: "unat (i + 1 :: u32) mod XIDENT_MAX = Suc (unat i) mod XIDENT_MAX"
proof -
  have "(256 :: nat) dvd 4294967296" by simp
  then show ?thesis by (simp add: unat_word_ariths XIDENT_MAX_def mod_mod_cancel)
qed

text \<open>What \<open>alloc_xident\<close> leaves alone.\<close>

definition same_queue :: "kq \<Rightarrow> kq \<Rightarrow> bool" where
  "same_queue s s' \<longleftrightarrow> kq_tab s' = kq_tab s \<and> m_fdmax s' = m_fdmax s \<and> kq_script s' = kq_script s"

lemma alloc_loop_result:
  "alloc_loop n s = (r, s') \<Longrightarrow> same_queue s s' \<and>
     (if r < 0 then m_xident s' = m_xident s \<and> (\<forall>j<n. m_xident s ! ((unat (m_xident_index s) + j) mod XIDENT_MAX))
      else \<exists>x<XIDENT_MAX. r = int (m_fdmax s + x) \<and> \<not> m_xident s ! x \<and> m_xident s' = (m_xident s)[x := True])"
proof (induction n arbitrary: s)
  case 0
  then show ?case by (auto simp: same_queue_def)
next
  case (Suc n)
  let ?x = "unat (m_xident_index s) mod XIDENT_MAX"
  let ?s = "s\<lparr>m_xident_index := m_xident_index s + 1\<rparr>"
  have lt: "?x < XIDENT_MAX" by (simp add: XIDENT_MAX_def)
  show ?case
  proof (cases "m_xident s ! ?x")
    case False
    then show ?thesis using Suc.prems lt by (auto simp: Let_def same_queue_def)
  next
    case True
    have "alloc_loop n ?s = (r, s')" using Suc.prems True by (simp add: Let_def)
    from Suc.IH [OF this] have IH: "same_queue s s'"
      "r < 0 \<Longrightarrow> m_xident s' = m_xident s \<and> (\<forall>j<n. m_xident s ! ((unat (m_xident_index s + 1) + j) mod XIDENT_MAX))"
      "\<not> r < 0 \<Longrightarrow> \<exists>x<XIDENT_MAX. r = int (m_fdmax s + x) \<and> \<not> m_xident s ! x \<and> m_xident s' = (m_xident s)[x := True]"
      by (auto simp: same_queue_def split: if_splits)
    have step: "(unat (m_xident_index s + 1) + j) mod XIDENT_MAX = (unat (m_xident_index s) + Suc j) mod XIDENT_MAX" for j
    proof -
      have "(unat (m_xident_index s + 1) + j) mod XIDENT_MAX = (unat (m_xident_index s + 1) mod XIDENT_MAX + j) mod XIDENT_MAX"
        by (simp add: mod_add_left_eq)
      then show ?thesis by (simp only: unat_index_step mod_add_left_eq) simp
    qed
    have "m_xident s ! ((unat (m_xident_index s) + j) mod XIDENT_MAX)" if "r < 0" "j < Suc n" for j
      using IH(2) [OF that(1)] that(2) True step by (cases j) auto
    then show ?thesis using IH by auto
  qed
qed



definition kq_sample :: kq where
  "kq_sample = \<lparr>m_kq = 3, m_fdmax = 64, m_xident = (replicate XIDENT_MAX False)[255 := True], m_xident_index = 4294967295,
     kq_tab = [], kq_script = [], kq_errno = EAGAIN\<rparr>"


section \<open>The kernel contract\<close>

text \<open>
  For a kernel whose descriptors are all registered with the filter \<open>flt\<close>, with timers but no
  signals: registrations have different idents, those of descriptors lie below \<open>m_fdmax\<close> and those
  of timers above.
\<close>

definition kq_fdok :: "nat \<Rightarrow> int \<Rightarrow> bool" where
  "kq_fdok fdmax fd \<longleftrightarrow> 0 \<le> fd \<and> fd < int fdmax"

definition kq_evok :: "kfilter \<Rightarrow> nat \<Rightarrow> kevent \<Rightarrow> bool" where
  "kq_evok flt fdmax e \<longleftrightarrow> (kev_filter e = flt \<and> kq_fdok fdmax (kev_ident e) \<or>
     kev_filter e = EVFILT_TIMER \<and> int fdmax \<le> kev_ident e)"

definition kq_wf :: "kfilter \<Rightarrow> nat \<Rightarrow> kq \<Rightarrow> bool" where
  "kq_wf flt fdmax s \<longleftrightarrow> m_fdmax s = fdmax \<and> list_all (kq_evok flt fdmax) (kq_tab s) \<and> distinct (map kev_ident (kq_tab s))"

definition kq_armed :: "kq \<Rightarrow> int set" where
  "kq_armed s = kq_ident ` set (kq_tab s)"

definition fd_filter :: "kfilter \<Rightarrow> bool" where
  "fd_filter flt \<longleftrightarrow> flt = EVFILT_READ \<or> flt = EVFILT_WRITE"

lemma kq_evok_ident: "fd_filter flt \<Longrightarrow> kq_evok flt fdmax e \<Longrightarrow> kq_ident e = kev_ident e"
  by (auto simp: kq_evok_def kq_ident_def fd_filter_def)

lemma kq_armed_ident: "fd_filter flt \<Longrightarrow> kq_wf flt fdmax s \<Longrightarrow> kq_armed s = kev_ident ` set (kq_tab s)"
  by (auto simp: kq_armed_def kq_wf_def list_all_iff kq_evok_ident intro!: image_cong)

lemma kq_take_keeps: "kq_take s = (a, s') \<Longrightarrow> same_queue s (s'\<lparr>kq_script := kq_script s\<rparr>) \<and> m_xident s' = m_xident s"
  by (auto simp: kq_take_def same_queue_def split: list.splits)

text \<open>Two well-formed registrations with one ident have one filter.\<close>

lemma kq_evok_key: "fd_filter flt \<Longrightarrow> kq_evok flt fdmax a \<Longrightarrow> kq_evok flt fdmax b \<Longrightarrow> kev_ident a = kev_ident b \<Longrightarrow> same_key a b"
  by (auto simp: kq_evok_def same_key_def kq_fdok_def)

lemma set_event_add_law:
  assumes flt: "fd_filter flt" and wf: "kq_wf flt fdmax s" and ok: "kq_evok flt fdmax kev" and r: "set_event_add kev s = (r, s')"
  shows "kq_wf flt fdmax s' \<and> kq_armed s' = (if r < 0 then kq_armed s else insert (kev_ident kev) (kq_armed s))"
proof -
  obtain a s1 where t: "kq_take s = (a, s1)" by fastforce
  have keep: "kq_tab s1 = kq_tab s" "m_fdmax s1 = m_fdmax s" using kq_take_keeps [OF t] by (simp_all add: same_queue_def)
  show ?thesis
  proof (cases a)
    case (Some e)
    then show ?thesis using r t keep wf by (auto simp: set_event_add_def kq_wf_def kq_armed_def)
  next
    case None
    let ?rest = "filter (\<lambda>k. \<not> same_key kev k) (kq_tab s)"
    have s': "kq_tab s' = ?rest @ [kev]" "m_fdmax s' = fdmax" "\<not> r < 0"
      using r t None keep wf by (auto simp: set_event_add_def kq_wf_def)
    have rest: "?rest = filter (\<lambda>k. kev_ident k \<noteq> kev_ident kev) (kq_tab s)"
    proof (rule filter_cong [OF refl])
      fix k assume "k \<in> set (kq_tab s)"
      then have "kq_evok flt fdmax k" using wf by (simp add: kq_wf_def list_all_iff)
      from kq_evok_key [OF flt ok this] show "\<not> same_key kev k \<longleftrightarrow> kev_ident k \<noteq> kev_ident kev"
        by (auto simp: same_key_def)
    qed
    have wf': "kq_wf flt fdmax s'"
      using s'(1,2) wf ok by (simp add: kq_wf_def rest list_all_iff distinct_map_filter image_iff)
    have "kq_armed s' = insert (kev_ident kev) (kq_armed s)"
      unfolding kq_armed_ident [OF flt wf'] kq_armed_ident [OF flt wf] s'(1) rest by auto
    then show ?thesis using wf' s'(3) by simp
  qed
qed

lemma kq_wait_law:
  assumes flt: "fd_filter flt" and wf: "kq_wf flt fdmax s" and r: "kq_wait rdy s = (n, evs, s')"
  shows "kq_wf flt fdmax s' \<and> distinct (map kq_ident evs) \<and> set (map kq_ident evs) \<subseteq> kq_armed s \<and>
     kq_armed s' = kq_armed s - set (map kq_ident evs) \<and> list_all (kq_evok flt fdmax) evs \<and> n \<le> int (length evs)"
proof -
  obtain a s1 where t: "kq_take s = (a, s1)" by fastforce
  have keep: "kq_tab s1 = kq_tab s" "m_fdmax s1 = m_fdmax s" using kq_take_keeps [OF t] by (simp_all add: same_queue_def)
  show ?thesis
  proof (cases a)
    case (Some e)
    then show ?thesis using r t keep wf by (auto simp: kq_wait_def kq_wf_def kq_armed_def)
  next
    case None
    let ?sel = "filter (\<lambda>k. (kev_ident k, kev_filter k) \<in> set rdy) (kq_tab s)"
    have e: "evs = take KQ_BACKLOG_SIZE ?sel" "n = int (length evs)" "kq_tab s' = filter (\<lambda>k. k \<notin> set evs) (kq_tab s)" "m_fdmax s' = fdmax"
      using r t None keep wf by (auto simp: kq_wait_def Let_def kq_wf_def)
    have sub: "set evs \<subseteq> set (kq_tab s)" unfolding e(1) by (auto dest: in_set_takeD)
    have ok: "list_all (kq_evok flt fdmax) evs" using sub wf by (auto simp: kq_wf_def list_all_iff)
    have ids: "map kq_ident evs = map kev_ident evs" using ok by (auto simp: list_all_iff kq_evok_ident [OF flt])
    have inj: "inj_on kev_ident (set (kq_tab s))" and dis: "distinct (kq_tab s)" using wf by (auto simp: kq_wf_def distinct_map)
    have "distinct evs" unfolding e(1) using dis by simp
    then have "distinct (map kq_ident evs)" using inj sub by (simp add: ids distinct_map inj_on_subset)
    moreover have wf': "kq_wf flt fdmax s'" using wf e(3,4)
      by (auto simp: kq_wf_def list_all_iff distinct_map intro: inj_on_subset)
    moreover have "kq_armed s' = kq_armed s - set (map kq_ident evs)"
      unfolding kq_armed_ident [OF flt wf'] kq_armed_ident [OF flt wf] e(3) ids
      using inj sub by (auto simp: inj_on_eq_iff subset_iff)
    moreover have "set (map kq_ident evs) \<subseteq> kq_armed s" unfolding kq_armed_def using sub by auto
    ultimately show ?thesis using ok e(2) by simp
  qed
qed

lemma kq_add_law:
  "fd_filter flt \<Longrightarrow> kq_wf flt fdmax s \<Longrightarrow> kq_fdok fdmax fd \<Longrightarrow> kq_add_fd flt fd s = (r, s') \<Longrightarrow>
     kq_wf flt fdmax s' \<and> kq_armed s' = (if r < 0 then kq_armed s else insert fd (kq_armed s))"
  using set_event_add_law [of flt fdmax s "\<lparr>kev_ident = fd, kev_filter = flt, kev_data = 0, kev_udata = 0\<rparr>" r s']
  by (simp add: kq_add_fd_def kq_evok_def)

lemma kq_reactivate_law:
  assumes flt: "fd_filter flt" and wf: "kq_wf flt fdmax s" and ok: "kq_evok flt fdmax e" and r: "kq_reactivate e s = (r, s')"
  shows "kq_wf flt fdmax s' \<and> kq_armed s' = (if r < 0 then kq_armed s else insert (kq_ident e) (kq_armed s))"
proof (cases "kev_filter e = EVFILT_TIMER")
  case True
  then show ?thesis
    using set_event_add_law [OF flt wf, of "\<lparr>kev_ident = kq_ident e, kev_filter = EVFILT_TIMER, kev_data = kev_udata e, kev_udata = kev_udata e\<rparr>" r s']
      r ok kq_evok_ident [OF flt ok] flt by (auto simp: kq_reactivate_def kq_evok_def fd_filter_def Let_def)
next
  case False
  then have "kq_fdok fdmax (kq_ident e)" "kq_reactivate e s = kq_add_fd flt (kq_ident e) s"
    using ok kq_evok_ident [OF flt ok] flt by (auto simp: kq_evok_def kq_reactivate_def fd_filter_def)
  with kq_add_law [OF flt wf] r show ?thesis by simp
qed

lemma kq_remove_law:
  "fd_filter flt \<Longrightarrow> kq_wf flt fdmax s \<Longrightarrow> kq_evok flt fdmax e \<Longrightarrow> kq_remove e s = (r, s') \<Longrightarrow>
     kq_wf flt fdmax s' \<and> kq_armed s' = kq_armed s"
  by (auto simp: kq_remove_def split: kfilter.splits)

lemma fd_filters [simp]: "fd_filter EVFILT_READ" "fd_filter EVFILT_WRITE"
  by (simp_all add: fd_filter_def)


interpretation kqw: event_kernel "kq_wf EVFILT_WRITE fdmax" kq_armed "kq_fdok fdmax" "kq_evok EVFILT_WRITE fdmax" kq_ident
    "kq_add_fd EVFILT_WRITE" kq_reactivate kq_remove kq_wait
  for fdmax
  by (unfold_locales; rule kq_add_law kq_wait_law kq_reactivate_law kq_remove_law; (assumption | rule fd_filters))

section \<open>Properties of the kqueue kernel\<close>



text \<open>Every timer that is registered has its slot marked.\<close>

definition slots_ok :: "kq \<Rightarrow> bool" where
  "slots_ok s \<longleftrightarrow> length (m_xident s) = XIDENT_MAX \<and>
     (\<forall>k\<in>set (kq_tab s). kev_filter k = EVFILT_TIMER \<longrightarrow>
        (\<exists>x<XIDENT_MAX. kev_ident k = int (m_fdmax s + x) \<and> m_xident s ! x))"

lemma alloc_result:
  assumes "alloc_xident s = (r, s')" and "slots_ok s"
  shows "same_queue s s' \<and> (if r < 0 then m_xident s' = m_xident s
     else \<exists>x<XIDENT_MAX. r = int (m_fdmax s + x) \<and> \<not> m_xident s ! x \<and> m_xident s' = (m_xident s)[x := True])"
  using alloc_loop_result [OF assms(1) [unfolded alloc_xident_def]] by auto

lemma free_after_alloc:
  assumes "x < length l" "\<not> l ! x" "m_xident s = l[x := True]" "xident = int (m_fdmax s + x)"
  shows "m_xident (snd (free_xident xident s)) = l" "kq_tab (snd (free_xident xident s)) = kq_tab s"
    "m_fdmax (snd (free_xident xident s)) = m_fdmax s"
  using assms list_update_same_conv [of x l False] by (simp_all add: free_xident_def Let_def)

text \<open>
  \<open>add_timer\<close> on kqueue either fails and leaves every registration and every slot as before, or
  registers one new timer with the requested milliseconds; destroying that timer object then
  restores the registrations and the slots exactly.
\<close>
lemma kq_timer_roundtrip:
  assumes "slots_ok s" and "kq_add_timer tm value interval s = (r, tm', s')" and "kq_script s' = []"
  shows "if r < 0 then tm' = tm \<and> kq_tab s' = kq_tab s \<and> m_xident s' = m_xident s
     else tm' = r \<and> kq_tab s' = kq_tab s @ [\<lparr>kev_ident = r, kev_filter = EVFILT_TIMER,
            kev_data = (case value of Some v \<Rightarrow> msec v | None \<Rightarrow> case interval of Some i \<Rightarrow> msec i | None \<Rightarrow> 0),
            kev_udata = (case interval of Some i \<Rightarrow> msec i | None \<Rightarrow> 0)\<rparr>] \<and>
          kq_tab (kq_timer_delete tm' s') = kq_tab s \<and> m_xident (kq_timer_delete tm' s') = m_xident s"
proof -
  obtain xid s1 where a: "alloc_xident s = (xid, s1)" by fastforce
  define ud where "ud = (case interval of Some i \<Rightarrow> msec i | None \<Rightarrow> 0)"
  define dt where "dt = (case value of Some v \<Rightarrow> msec v | None \<Rightarrow> ud)"
  define kev where "kev = \<lparr>kev_ident = xid, kev_filter = EVFILT_TIMER, kev_data = dt, kev_udata = ud\<rparr>"
  obtain r2 s2 where b: "set_event_add kev s1 = (r2, s2)" by fastforce
  obtain ans s3 where t: "kq_take s1 = (ans, s3)" by fastforce
  note al = alloc_result [OF a assms(1)]
  have keep: "kq_tab s3 = kq_tab s" "m_fdmax s3 = m_fdmax s" "m_xident s3 = m_xident s1"
    using kq_take_keeps [OF t] al by (auto simp: same_queue_def)
  have eq: "(r, tm', s') = (if xid < 0 then (-1, tm, s1) else if r2 < 0 then (-1, tm, snd (free_xident xid s2)) else (xid, xid, s2))"
    using assms(2) a b by (auto simp: kq_add_timer_def Let_def kev_def dt_def ud_def split: option.splits)
  show ?thesis
  proof (cases "xid < 0")
    case True
    then show ?thesis using eq al by (auto simp: same_queue_def)
  next
    case False
    then obtain x where x: "x < XIDENT_MAX" "xid = int (m_fdmax s + x)" "\<not> m_xident s ! x" "m_xident s1 = (m_xident s)[x := True]"
      using al by auto
    have len: "x < length (m_xident s)" using x(1) assms(1) by (simp add: slots_ok_def)
    have fresh: "\<not> (kev_ident k = xid \<and> kev_filter k = EVFILT_TIMER)" if "k \<in> set (kq_tab s)" for k
      using assms(1) that x(2,3) by (auto simp: slots_ok_def)
    show ?thesis
    proof (cases ans)
      case (Some er)
      then have s2: "r2 < 0" "kq_tab s2 = kq_tab s" "m_fdmax s2 = m_fdmax s" "m_xident s2 = (m_xident s)[x := True]"
        using b t keep x(4) by (auto simp: set_event_add_def)
      with free_after_alloc [OF len x(3) s2(4)] x(2) show ?thesis using eq False by auto
    next
      case None
      have "filter (\<lambda>k. \<not> same_key kev k) (kq_tab s) = kq_tab s"
      proof (intro filter_True ballI)
        fix k assume "k \<in> set (kq_tab s)"
        from fresh [OF this] show "\<not> same_key kev k" by (auto simp: same_key_def kev_def)
      qed
      then have s2: "r2 = 0" "kq_tab s2 = kq_tab s @ [kev]" "m_fdmax s2 = m_fdmax s" "m_xident s2 = (m_xident s)[x := True]"
        using b t None keep x(4) by (auto simp: set_event_add_def)
      have s': "s' = s2" "tm' = xid" "r = xid" using eq False s2(1) by auto
      have "filter (\<lambda>k. \<not> (kev_ident k = xid \<and> kev_filter k = EVFILT_TIMER)) (kq_tab s) = kq_tab s"
        using fresh by (intro filter_True) auto
      then have d: "kq_remove_timer xid s2 = (0, s2\<lparr>kq_tab := kq_tab s\<rparr>)"
        using s2(2) assms(3) s'(1) by (simp add: kq_remove_timer_def set_event_delete_def kq_take_def kev_def)
      have "kq_tab (kq_timer_delete xid s2) = kq_tab s" "m_xident (kq_timer_delete xid s2) = m_xident s"
        using False x(2) s2(3,4) free_after_alloc [OF len x(3), of "s2\<lparr>kq_tab := kq_tab s\<rparr>" xid]
        unfolding kq_timer_delete_def d by simp_all
      then show ?thesis using s' False s2(2) unfolding kev_def dt_def ud_def by simp
    qed
  qed
qed

lemma kq_timer_roundtrip_witness:
  "case kq_add_timer (-1) None (Some \<lparr>tv_sec = 1, tv_nsec = 5000000\<rparr>) kq_sample of (r, tm', s') \<Rightarrow>
     if r < 0 then tm' = -1 \<and> kq_tab s' = kq_tab kq_sample \<and> m_xident s' = m_xident kq_sample
     else tm' = r \<and> kq_tab s' = kq_tab kq_sample @ [\<lparr>kev_ident = r, kev_filter = EVFILT_TIMER,
            kev_data = (case None of Some v \<Rightarrow> msec v | None \<Rightarrow> case Some \<lparr>tv_sec = 1, tv_nsec = 5000000\<rparr> of Some i \<Rightarrow> msec i | None \<Rightarrow> 0),
            kev_udata = (case Some \<lparr>tv_sec = 1, tv_nsec = 5000000\<rparr> of Some i \<Rightarrow> msec i | None \<Rightarrow> 0)\<rparr>] \<and>
          kq_tab (kq_timer_delete tm' s') = kq_tab kq_sample \<and> m_xident (kq_timer_delete tm' s') = m_xident kq_sample"
proof -
  obtain r tm' s' where e: "kq_add_timer (-1) None (Some \<lparr>tv_sec = 1, tv_nsec = 5000000\<rparr>) kq_sample = (r, tm', s')"
    by (metis prod_cases3)
  have ok: "slots_ok kq_sample" by (simp add: slots_ok_def kq_sample_def)
  obtain xid s1 where a: "alloc_xident kq_sample = (xid, s1)" by fastforce
  have "kq_script s1 = []" using alloc_result [OF a ok] by (auto simp: same_queue_def kq_sample_def)
  then have "kq_script s' = []" using e a
    by (auto simp: kq_add_timer_def set_event_add_def kq_take_def free_xident_def Let_def split: if_splits)
  from kq_timer_roundtrip [OF ok e this] show ?thesis unfolding e prod.case .
qed

text \<open>
  \<open>remove_signal\<close> never removes a signal: the registration is keyed by the signal number, but
  \<open>remove_signal\<close> is called with the ident of the signal object. It fails with \<open>ENOENT\<close> and the
  registration stays, while the destructor frees the ident it still refers to.
\<close>
lemma kq_remove_signal_fails:
  assumes "kq_script s = []" and "alloc_xident s = (x, s1)" and "0 \<le> x" and "signo \<noteq> x"
    and "\<forall>k\<in>set (kq_tab s). kev_filter k = EVFILT_SIGNAL \<longrightarrow> kev_ident k \<noteq> x" and "length (m_xident s) = XIDENT_MAX"
    and "kq_add_signal (-1) signo s = (r, sg, s')"
  shows "fst (kq_remove_signal sg s') = -1 \<and> kq_errno (snd (kq_remove_signal sg s')) = ENOENT \<and>
     (\<exists>k\<in>set (kq_tab (kq_signal_delete sg s')). kev_ident k = signo \<and> kev_filter k = EVFILT_SIGNAL \<and> kq_ident k = sg)"
proof -
  have k1: "kq_script s1 = []" "kq_tab s1 = kq_tab s"
    using alloc_loop_result [OF assms(2) [unfolded alloc_xident_def]] assms(1) by (auto simp: same_queue_def)
  have r: "sg = x" "s' = s1\<lparr>kq_tab := filter (\<lambda>k. \<not> same_key \<lparr>kev_ident = signo, kev_filter = EVFILT_SIGNAL, kev_data = 0, kev_udata = x\<rparr> k) (kq_tab s)
      @ [\<lparr>kev_ident = signo, kev_filter = EVFILT_SIGNAL, kev_data = 0, kev_udata = x\<rparr>]\<rparr>"
    using assms(2,3,7) k1 by (auto simp: kq_add_signal_def set_event_add_def kq_take_def)
  have "kq_remove_signal x s' = (-1, s'\<lparr>kq_errno := ENOENT\<rparr>)"
    using assms(4,5) k1 r(2) by (auto simp: kq_remove_signal_def set_event_delete_def kq_take_def list_ex_iff)
  then show ?thesis using r assms(3)
    by (auto simp: kq_signal_delete_def free_xident_def Let_def kq_ident_def)
qed

lemma kq_remove_signal_fails_witness:
  "case kq_add_signal (-1) 15 kq_sample of (r, sg, s') \<Rightarrow>
     fst (kq_remove_signal sg s') = -1 \<and> kq_errno (snd (kq_remove_signal sg s')) = ENOENT \<and>
     (\<exists>k\<in>set (kq_tab (kq_signal_delete sg s')). kev_ident k = 15 \<and> kev_filter k = EVFILT_SIGNAL \<and> kq_ident k = sg)"
proof -
  obtain x s1 where a: "alloc_xident kq_sample = (x, s1)" by fastforce
  have n: "XIDENT_MAX * 2 = Suc (Suc 510)" by (simp add: XIDENT_MAX_def)
  have x: "x = 64" using a unfolding alloc_xident_def n alloc_loop.simps(2) Let_def by (simp add: kq_sample_def XIDENT_MAX_def)
  obtain r sg s' where e: "kq_add_signal (-1) 15 kq_sample = (r, sg, s')" by (metis prod_cases3)
  show ?thesis unfolding e prod.case
    by (rule kq_remove_signal_fails [OF _ a _ _ _ _ e]) (simp_all add: x kq_sample_def)
qed

text \<open>
  The limit is a valid time just for times that are not negative, and then exact to the millisecond; a
  negative one, which means no limit to epoll, is refused by kqueue.
\<close>
lemma kq_timeout_exact:
  "timespec_ok (kq_timeout ms) \<longleftrightarrow> 0 \<le> ms"
  "tv_sec (kq_timeout ms) * 1000000000 + tv_nsec (kq_timeout ms) = ms * 1000000"
proof -
  define q r where "q = \<bar>ms\<bar> div 1000" and "r = \<bar>ms\<bar> mod 1000"
  have t: "kq_timeout ms = \<lparr>tv_sec = sgn ms * q, tv_nsec = sgn ms * r * 1000000\<rparr>" by (simp add: kq_timeout_def q_def r_def)
  have d: "1000 * q + r = \<bar>ms\<bar>" "0 \<le> q" "0 \<le> r" "r < 1000" by (simp_all add: q_def r_def)
  have "(timespec_ok (kq_timeout ms) \<longleftrightarrow> 0 \<le> ms) \<and> tv_sec (kq_timeout ms) * 1000000000 + tv_nsec (kq_timeout ms) = ms * 1000000"
  proof (cases "ms < 0")
    case True
    then have "1000 * q + r = - ms" "sgn ms = - 1" using d(1) by simp_all
    then have v: "tv_sec (kq_timeout ms) = - q" "tv_nsec (kq_timeout ms) = - (r * 1000000)" "ms = - (1000 * q) - r" by (simp_all add: t)
    then have "\<not> timespec_ok (kq_timeout ms)" using d(2,3) True unfolding timespec_ok_def v by linarith
    moreover have "- q * 1000000000 + - (r * 1000000) = (- (1000 * q) - r) * 1000000" by (simp add: algebra_simps)
    ultimately show ?thesis using True v by simp
  next
    case False
    then have "1000 * q + r = ms" using d(1) by simp
    moreover from this have "sgn ms = 1 \<or> sgn ms = 0 \<and> q = 0 \<and> r = 0" using d(2,3) False by (auto simp: sgn_if)
    ultimately show ?thesis using d(2-4) False unfolding t timespec_ok_def timespec.simps by (elim disjE) simp_all
  qed
  then show "timespec_ok (kq_timeout ms) \<longleftrightarrow> 0 \<le> ms" "tv_sec (kq_timeout ms) * 1000000000 + tv_nsec (kq_timeout ms) = ms * 1000000" by blast+
qed

text \<open>
  A periodic timer whose interval is below a millisecond is registered again with a period of zero, where
  the epoll kernel keeps the interval.
\<close>
lemma kq_short_interval_vanishes:
  assumes "tv_sec i = 0" and "0 < tv_nsec i" and "tv_nsec i < 1000000" and "kq_script s = []" and "kev_filter e = EVFILT_TIMER"
    and "kev_udata e = msec i"
  shows "\<exists>s'. kq_reactivate e s = (0, s') \<and> \<lparr>kev_ident = kev_ident e, kev_filter = EVFILT_TIMER, kev_data = 0, kev_udata = 0\<rparr> \<in> set (kq_tab s')"
proof -
  have "tv_nsec i div 1000 div 1000 = tv_nsec i div 1000000" by (simp add: zdiv_zmult2_eq [symmetric])
  then have "msec i = 0" using assms(1-3) by (simp add: msec_def)
  then show ?thesis using assms(4-6) by (simp add: kq_reactivate_def set_event_add_def kq_take_def kq_ident_def)
qed

end
