(* ===== verification/Loop.thy ===== *)
theory Loop
  imports Out_Runs
begin

text \<open>
  The event loop, class \<open>loop_impl\<close> of \<open>src/mpsrc/wavy_loop.h\<close> and \<open>wavy_loop.cc\<close>: worker threads that
  share a kernel, a backlog of reported events, a queue of events to be handled again, a task
  queue, the table of handlers and the output component. A thread is a program counter; the code
  between two points where it releases or takes the mutex, or runs a callback, is one step. The
  definitions below are those pieces of \<open>thread_main\<close> and \<open>run_once\<close>; the step relation at the end
  interleaves the threads with each other and with the clients. Handlers and tasks are client
  code: they may do anything the interface offers, and return or throw.
\<close>

section \<open>State\<close>

record loop_impl =
  m_off :: nat
  m_num :: nat
  m_pollable :: bool
  m_end_flag :: bool
  m_backlog :: "event list"
  m_state :: "int \<Rightarrow> nat option"
  m_kernel :: kernel
  m_task_queue :: "nat list"
  m_more_queue :: "event list"
  m_out :: ost

abbreviation loop_os :: "loop_impl \<Rightarrow> os" where
  "loop_os l \<equiv> wd_os (snd (m_out l))"

definition set_loop_os :: "os \<Rightarrow> loop_impl \<Rightarrow> loop_impl" where
  "set_loop_os os l = l\<lparr>m_out := (fst (m_out l), set_os os (snd (m_out l)))\<rparr>"

definition MP_WAVY_TASK_QUEUE_LIMIT :: nat where
  "MP_WAVY_TASK_QUEUE_LIMIT = 16"

text \<open>
  Where a thread is. \<open>Locked\<close> and \<open>Process\<close> hold the mutex; \<open>Handling\<close> runs the callback of a handler
  for an event, with the flags of its \<open>event_impl\<close>; \<open>Died\<close> is a thread that an exception or
  undefined behaviour ended.
\<close>

datatype pc =
    Start
  | Locked
  | Waiting
  | Polling
  | Polled "event list"
  | Process event
  | React_out event
  | Dispatch event
  | Handling event nat bool bool
  | Do_out event
  | Run_task nat bool
  | Notify
  | Do_queue
  | Exited
  | Died

text \<open>A worker runs \<open>thread_main\<close>; \<open>Once block\<close> is a thread inside \<open>run_once\<close> or \<open>run_nonblock\<close>.\<close>

datatype role = Worker | Once bool

fun again :: "role \<Rightarrow> pc" where
  "again Worker = Start"
| "again (Once block) = Exited"

section \<open>Pieces of the loop\<close>

definition reset_handler :: "int \<Rightarrow> loop_impl \<Rightarrow> loop_impl" where
  "reset_handler i l = l\<lparr>m_state := (m_state l)(i := None)\<rparr>"

definition set_handler :: "int \<Rightarrow> nat \<Rightarrow> loop_impl \<Rightarrow> loop_impl" where
  "set_handler i h l = l\<lparr>m_state := (m_state l)(i \<mapsto> h)\<rparr>"

text \<open>\<open>do_task\<close> up to the call of the task.\<close>

definition do_task :: "loop_impl \<Rightarrow> loop_impl \<times> pc" where
  "do_task l =
     (case m_task_queue l of
        [] \<Rightarrow> (l, Died)
      | ev # q \<Rightarrow> (l\<lparr>m_task_queue := q\<rparr>, Run_task ev (q = [])))"

text \<open>\<open>do_out\<close> up to the call of \<open>write_event\<close>.\<close>

definition do_out :: "loop_impl \<Rightarrow> loop_impl \<times> pc" where
  "do_out l =
     (case next_event (fst (m_out l)) of
        None \<Rightarrow> (l, Died)
      | Some (ke, m) \<Rightarrow> (l\<lparr>m_out := (m, snd (m_out l))\<rparr>, Do_out ke))"

text \<open>\<open>ke = m_backlog[m_off++]\<close>\<close>

definition next_backlog :: "loop_impl \<Rightarrow> loop_impl \<times> pc" where
  "next_backlog l = (l\<lparr>m_off := m_off l + 1\<rparr>, Process (m_backlog l ! m_off l))"

text \<open>From \<open>retry_task\<close>, holding the mutex, to the point where it is given up.\<close>

definition retry_task :: "loop_impl \<Rightarrow> loop_impl \<times> pc" where
  "retry_task l =
     (if m_end_flag l then (l, Exited)
      else case m_more_queue l of
        ke # q \<Rightarrow> (l\<lparr>m_more_queue := q\<rparr>, Process ke)
      | [] \<Rightarrow>
          if \<not> m_pollable l then
            if has_queue (fst (m_out l)) then do_out l
            else if m_task_queue l \<noteq> [] then do_task l
            else (l, Waiting)
          else if MP_WAVY_TASK_QUEUE_LIMIT < length (m_task_queue l) then do_task l
          else if m_num l = m_off l then (l\<lparr>m_pollable := False\<rparr>, Polling)
          else next_backlog l)"

text \<open>The part of \<open>run_once\<close> behind the label \<open>do_queue\<close>; the result of waiting is to return.\<close>

definition do_queue :: "bool \<Rightarrow> loop_impl \<Rightarrow> loop_impl \<times> pc" where
  "do_queue block l =
     (if has_queue (fst (m_out l)) then do_out l
      else if m_task_queue l \<noteq> [] then do_task l
      else if block then (l, Waiting)
      else (l, Exited))"

text \<open>
  \<open>run_once\<close> up to the point where the mutex is given up or an event is taken; what follows (the result
  of \<open>wait\<close>, the backlog, the handler) is the code of \<open>thread_main\<close> again, in the pieces below with the
  role \<open>Once\<close>.
\<close>

definition run_once :: "bool \<Rightarrow> loop_impl \<Rightarrow> loop_impl \<times> pc" where
  "run_once block l =
     (if m_end_flag l then (l, Exited)
      else case m_more_queue l of
        ke # q \<Rightarrow> (l\<lparr>m_more_queue := q\<rparr>, Process ke)
      | [] \<Rightarrow>
          if \<not> m_pollable l then do_queue block l
          else if m_task_queue l \<noteq> [] then do_task l
          else if has_queue (fst (m_out l)) then do_out l
          else if m_num l = m_off l then (l\<lparr>m_pollable := False\<rparr>, Polling)
          else next_backlog l)"

text \<open>What \<open>m_kernel.wait\<close> returned, handled without the mutex.\<close>

definition poll_return :: "role \<Rightarrow> int list \<Rightarrow> loop_impl \<Rightarrow> loop_impl \<times> pc" where
  "poll_return rl rdy l =
     (let (num, evs, os) = wait (m_kernel l) rdy (loop_os l); l = set_loop_os os l in
      if num \<le> 0 then
        if num = 0 \<or> os_errno os = EINTR \<or> os_errno os = EAGAIN then
          (case rl of
             Worker \<Rightarrow> if m_end_flag l then (l\<lparr>m_pollable := True\<rparr>, Exited) else (l, Polling)
           | Once block \<Rightarrow> (l\<lparr>m_pollable := True\<rparr>, if block then Exited else Do_queue))
        else (l, Died)
      else (l\<lparr>m_backlog := evs\<rparr>, Polled (take (nat num) evs)))"

text \<open>After \<open>relock\<close>: publish the backlog, allow polling again, and take its first event.\<close>

definition poll_publish :: "event list \<Rightarrow> loop_impl \<Rightarrow> loop_impl \<times> pc" where
  "poll_publish evs l = next_backlog (l\<lparr>m_off := 0, m_num := length evs, m_pollable := True\<rparr>)"

text \<open>From \<open>process_handler\<close>, holding the mutex, to the call of the handler.\<close>

definition process_handler :: "int list \<Rightarrow> event \<Rightarrow> loop_impl \<Rightarrow> loop_impl \<times> pc" where
  "process_handler rdy ke l =
     (if ident ke = m_ep (o_kernel (fst (m_out l))) then
        (case poll_event rdy (m_out l) of
           Ret _ s \<Rightarrow> (l\<lparr>m_out := s\<rparr>, React_out ke)
         | Exn _ s \<Rightarrow> (l\<lparr>m_out := s\<rparr>, Died)
         | Fault _ \<Rightarrow> (l, Died))
      else (l, Dispatch ke))"

definition kernel_reactivate :: "event \<Rightarrow> loop_impl \<Rightarrow> loop_impl" where
  "kernel_reactivate ke l = (let (_, os) = reactivate (m_kernel l) ke (loop_os l) in set_loop_os os l)"

definition kernel_remove :: "event \<Rightarrow> loop_impl \<Rightarrow> loop_impl" where
  "kernel_remove ke l = (let (_, os) = remove (m_kernel l) ke (loop_os l) in set_loop_os os l)"

text \<open>
  After the handler: \<open>cont\<close> is what it returned; false when it threw or when there was no handler.
\<close>

definition after_handler :: "event \<Rightarrow> bool \<Rightarrow> bool \<Rightarrow> bool \<Rightarrow> loop_impl \<Rightarrow> loop_impl" where
  "after_handler ke reactivated removed cont l =
     (if reactivated then l
      else if removed then l
      else if \<not> cont then reset_handler (ident ke) (kernel_remove ke l)
      else kernel_reactivate ke l)"

text \<open>The handler is looked up without the mutex; without one the event is dropped.\<close>

definition dispatch :: "role \<Rightarrow> event \<Rightarrow> loop_impl \<Rightarrow> loop_impl \<times> pc" where
  "dispatch rl ke l =
     (case m_state l (ident ke) of
        None \<Rightarrow> (after_handler ke False False False l, again rl)
      | Some h \<Rightarrow> (l, Handling ke h False False))"

text \<open>\<open>write_event\<close> in \<open>do_out\<close>; when it reports that nothing is watched, \<open>flush\<close> is notified.\<close>

definition do_out_write :: "role \<Rightarrow> event \<Rightarrow> loop_impl \<Rightarrow> loop_impl \<times> pc" where
  "do_out_write rl ke l =
     (case write_event ke (m_out l) of
        Ret b s \<Rightarrow> (l\<lparr>m_out := s\<rparr>, if b then Notify else again rl)
      | Exn _ s \<Rightarrow> (l\<lparr>m_out := s\<rparr>, Died)
      | Fault _ \<Rightarrow> (l, Died))"

section \<open>Calls from handlers and clients\<close>

definition event_more :: "event \<Rightarrow> loop_impl \<Rightarrow> loop_impl" where
  "event_more ke l = l\<lparr>m_more_queue := m_more_queue l @ [ke]\<rparr>"

definition event_next :: "event \<Rightarrow> loop_impl \<Rightarrow> loop_impl" where
  "event_next ke l = kernel_reactivate ke l"

definition event_remove :: "event \<Rightarrow> loop_impl \<Rightarrow> loop_impl" where
  "event_remove ke l = reset_handler (ident ke) (kernel_remove ke l)"

text \<open>\<open>event::more\<close>, \<open>event::next\<close> and \<open>event::remove\<close> on the flags of the \<open>event_impl\<close>.\<close>

definition ev_more :: "event \<Rightarrow> nat \<Rightarrow> bool \<Rightarrow> bool \<Rightarrow> loop_impl \<Rightarrow> loop_impl \<times> pc" where
  "ev_more ke h reactivated removed l =
     (if \<not> reactivated then (event_more ke l, Handling ke h True removed) else (l, Handling ke h reactivated removed))"

definition ev_next :: "event \<Rightarrow> nat \<Rightarrow> bool \<Rightarrow> bool \<Rightarrow> loop_impl \<Rightarrow> loop_impl \<times> pc" where
  "ev_next ke h reactivated removed l =
     (if \<not> reactivated then (event_next ke l, Handling ke h True removed) else (l, Handling ke h reactivated removed))"

definition ev_remove :: "event \<Rightarrow> nat \<Rightarrow> bool \<Rightarrow> bool \<Rightarrow> loop_impl \<Rightarrow> loop_impl \<times> pc" where
  "ev_remove ke h reactivated removed l =
     (if \<not> removed then (event_remove ke l, Handling ke h reactivated True) else (l, Handling ke h reactivated removed))"

definition submit_impl :: "nat \<Rightarrow> loop_impl \<Rightarrow> loop_impl" where
  "submit_impl f l = l\<lparr>m_task_queue := m_task_queue l @ [f]\<rparr>"

definition loop_end :: "loop_impl \<Rightarrow> loop_impl" where
  "loop_end l = l\<lparr>m_end_flag := True\<rparr>"

definition is_end :: "loop_impl \<Rightarrow> bool" where
  "is_end l = m_end_flag l"

definition add_handler_impl :: "int \<Rightarrow> nat \<Rightarrow> loop_impl \<Rightarrow> (unit, loop_impl) outcome" where
  "add_handler_impl fd h l =
     (let (r, os) = sys_set_nonblock fd (loop_os l); l = set_loop_os os l in
      if r < 0 then Exn (System_error (os_errno os)) l
      else let l = set_handler fd h l; (_, os) = add_fd (m_kernel l) EVKERNEL_READ fd (loop_os l) in
        Ret () (set_loop_os os l))"

definition remove_handler :: "int \<Rightarrow> loop_impl \<Rightarrow> loop_impl" where
  "remove_handler fd l =
     (let l = reset_handler fd l; (_, os) = remove_fd (m_kernel l) fd (loop_os l) in set_loop_os os l)"

text \<open>
  The constructor: the kernel, the table of handlers (16 bytes for each descriptor), the output
  component, and its kernel registered in the loop's. The result of the registration is not checked.
\<close>

definition loop_new :: "(size_t \<Rightarrow> bool) \<Rightarrow> os \<Rightarrow> (loop_impl, os) outcome" where
  "loop_new alloc os =
     bind_outcome (kernel_new os) (\<lambda>k os.
     case kernel_max os of
       Exn e os \<Rightarrow> Exn e (kernel_delete k os)
     | Fault f \<Rightarrow> Fault f
     | Ret n os \<Rightarrow>
       if \<not> alloc (of_nat (16 * n)) then Exn Bad_alloc (kernel_delete k os)
       else (case out_new alloc os of
          Exn e os \<Rightarrow> Exn e (kernel_delete k os)
        | Fault f \<Rightarrow> Fault f
        | Ret m os \<Rightarrow>
            let (_, os) = add_kernel k (o_kernel m) os in
            Ret \<lparr>m_off = 0, m_num = 0, m_pollable = True, m_end_flag = False, m_backlog = [],
                 m_state = (\<lambda>_. None)(m_ep (o_kernel m) \<mapsto> 0), m_kernel = k, m_task_queue = [], m_more_queue = [],
                 m_out = (m, \<lparr>wd_os = os, wd_io = (\<lambda>_. ([], []))\<rparr>)\<rparr> os))"

end
