(* ===== verification/Loop_Runs.thy ===== *)
theory Loop_Runs
  imports Loop
begin

text \<open>
  Runs of the event loop: all threads, handlers, tasks and clients interleaved. The invariant says
  that the mutex has one holder, that at most one thread polls and nobody touches the backlog
  meanwhile, that every event the kernel reported is owned by exactly one party, that the output
  component is used as it expects, and that tasks start in the order of their submission.
\<close>

section \<open>The step relation\<close>

text \<open>
  The shared state and the threads, and four ghosts: the tasks submitted and started, the output
  submitted to each descriptor, and the descriptors on which some output went wrong.
\<close>

record lsys =
  ls_l :: loop_impl
  ls_thr :: "(role \<times> pc) list"
  ls_sub :: "nat list"
  ls_started :: "nat list"
  ls_osub :: "int \<Rightarrow> atom list"
  ls_obad :: "int set"

fun holds :: "pc \<Rightarrow> bool" where
  "holds Locked = True"
| "holds (Process ke) = True"
| "holds _ = False"

definition mutex_free :: "(role \<times> pc) list \<Rightarrow> bool" where
  "mutex_free ths = list_all (\<lambda>t. \<not> holds (snd t)) ths"

text \<open>A piece of code of thread \<open>i\<close>: the new shared state and where the thread is then.\<close>

definition upd :: "nat \<Rightarrow> loop_impl \<times> pc \<Rightarrow> lsys \<Rightarrow> lsys" where
  "upd i lp s = s\<lparr>ls_l := fst lp, ls_thr := (ls_thr s)[i := (fst (ls_thr s ! i), snd lp)]\<rparr>"

text \<open>Events in flight: in the backlog, in the queue of \<open>more\<close>, or with a thread.\<close>

fun token :: "pc \<Rightarrow> event list" where
  "token (Polled evs) = evs"
| "token (Process ke) = [ke]"
| "token (React_out ke) = [ke]"
| "token (Dispatch ke) = [ke]"
| "token (Handling ke h reactivated removed) = (if reactivated \<or> removed then [] else [ke])"
| "token _ = []"

definition backlog_left :: "loop_impl \<Rightarrow> event list" where
  "backlog_left l = drop (m_off l) (take (m_num l) (m_backlog l))"

definition flight :: "loop_impl \<Rightarrow> (role \<times> pc) list \<Rightarrow> event list" where
  "flight l ths = (if m_pollable l then backlog_left l else []) @ m_more_queue l @ concat (map (token \<circ> snd) ths)"

fun out_token :: "pc \<Rightarrow> event list" where
  "out_token (Do_out ke) = [ke]"
| "out_token _ = []"

definition oflight :: "(role \<times> pc) list \<Rightarrow> event list" where
  "oflight ths = concat (map (out_token \<circ> snd) ths)"

definition starts :: "pc \<Rightarrow> nat list" where
  "starts p = (case p of Run_task t fin \<Rightarrow> [t] | _ \<Rightarrow> [])"

text \<open>
  Client discipline: after \<open>remove\<close> a handler does not use the event again, a descriptor is added only
  when no event of it is in flight, and not closed while output for it is pending. The environment
  decides how descriptors answer writes, opens and closes descriptors, and sets timers and \<open>errno\<close>.
\<close>

inductive loop_step :: "(size_t \<Rightarrow> bool) \<Rightarrow> lsys \<Rightarrow> lsys \<Rightarrow> bool" for alloc where
  lock: "i < length (ls_thr s) \<Longrightarrow> snd (ls_thr s ! i) = Start \<Longrightarrow> mutex_free (ls_thr s) \<Longrightarrow>
     loop_step alloc s (upd i (ls_l s, Locked) s)"
| wake: "i < length (ls_thr s) \<Longrightarrow> ls_thr s ! i = (rl, Waiting) \<Longrightarrow> mutex_free (ls_thr s) \<Longrightarrow>
     loop_step alloc s (upd i (ls_l s, case rl of Worker \<Rightarrow> Locked | Once b \<Rightarrow> Exited) s)"
| locked: "i < length (ls_thr s) \<Longrightarrow> ls_thr s ! i = (rl, Locked) \<Longrightarrow>
     lp = (case rl of Worker \<Rightarrow> retry_task (ls_l s) | Once b \<Rightarrow> run_once b (ls_l s)) \<Longrightarrow>
     loop_step alloc s ((upd i lp s)\<lparr>ls_started := ls_started s @ starts (snd lp)\<rparr>)"
| unlocked_queue: "i < length (ls_thr s) \<Longrightarrow> snd (ls_thr s ! i) = Do_queue \<Longrightarrow> lp = do_queue False (ls_l s) \<Longrightarrow>
     loop_step alloc s ((upd i lp s)\<lparr>ls_started := ls_started s @ starts (snd lp)\<rparr>)"
| poll: "i < length (ls_thr s) \<Longrightarrow> ls_thr s ! i = (rl, Polling) \<Longrightarrow>
     loop_step alloc s (upd i (poll_return rl rdy (ls_l s)) s)"
| publish: "i < length (ls_thr s) \<Longrightarrow> snd (ls_thr s ! i) = Polled evs \<Longrightarrow> mutex_free (ls_thr s) \<Longrightarrow>
     loop_step alloc s (upd i (poll_publish evs (ls_l s)) s)"
| process: "i < length (ls_thr s) \<Longrightarrow> snd (ls_thr s ! i) = Process ke \<Longrightarrow>
     loop_step alloc s (upd i (process_handler rdy ke (ls_l s)) s)"
| react_out: "i < length (ls_thr s) \<Longrightarrow> ls_thr s ! i = (rl, React_out ke) \<Longrightarrow>
     loop_step alloc s (upd i (kernel_reactivate ke (ls_l s), again rl) s)"
| dispatch: "i < length (ls_thr s) \<Longrightarrow> ls_thr s ! i = (rl, Dispatch ke) \<Longrightarrow>
     loop_step alloc s (upd i (dispatch rl ke (ls_l s)) s)"
| more: "i < length (ls_thr s) \<Longrightarrow> snd (ls_thr s ! i) = Handling ke h re rm \<Longrightarrow> \<not> rm \<Longrightarrow> mutex_free (ls_thr s) \<Longrightarrow>
     loop_step alloc s (upd i (ev_more ke h re rm (ls_l s)) s)"
| rearm: "i < length (ls_thr s) \<Longrightarrow> snd (ls_thr s ! i) = Handling ke h re rm \<Longrightarrow> \<not> rm \<Longrightarrow>
     loop_step alloc s (upd i (ev_next ke h re rm (ls_l s)) s)"
| discard: "i < length (ls_thr s) \<Longrightarrow> snd (ls_thr s ! i) = Handling ke h re rm \<Longrightarrow>
     loop_step alloc s (upd i (ev_remove ke h re rm (ls_l s)) s)"
| finish: "i < length (ls_thr s) \<Longrightarrow> ls_thr s ! i = (rl, Handling ke h re rm) \<Longrightarrow>
     loop_step alloc s (upd i (after_handler ke re rm cont (ls_l s), again rl) s)"
| write_out: "i < length (ls_thr s) \<Longrightarrow> ls_thr s ! i = (rl, Do_out ke) \<Longrightarrow>
     loop_step alloc s (upd i (do_out_write rl ke (ls_l s)) s)"
| task_done: "i < length (ls_thr s) \<Longrightarrow> ls_thr s ! i = (rl, Run_task t fin) \<Longrightarrow>
     loop_step alloc s (upd i (ls_l s, if fin then Notify else again rl) s)"
| notify: "i < length (ls_thr s) \<Longrightarrow> ls_thr s ! i = (rl, Notify) \<Longrightarrow> mutex_free (ls_thr s) \<Longrightarrow>
     loop_step alloc s (upd i (ls_l s, again rl) s)"
| submit: "mutex_free (ls_thr s) \<Longrightarrow>
     loop_step alloc s (s\<lparr>ls_l := submit_impl f (ls_l s), ls_sub := ls_sub s @ [f]\<rparr>)"
| stop: "loop_step alloc s (s\<lparr>ls_l := loop_end (ls_l s)\<rparr>)"
| add: "fdok fd \<Longrightarrow> fd \<notin> ident ` set (flight (ls_l s) (ls_thr s)) \<Longrightarrow> add_handler_impl fd h (ls_l s) = Ret () l \<Longrightarrow>
     loop_step alloc s (s\<lparr>ls_l := l\<rparr>)"
| add_fails: "add_handler_impl fd h (ls_l s) = Exn e l \<Longrightarrow> loop_step alloc s (s\<lparr>ls_l := l\<rparr>)"
| drop: "loop_step alloc s (s\<lparr>ls_l := remove_handler fd (ls_l s)\<rparr>)"
| out_submit: "Out.submit alloc fd rq (m_out (ls_l s)) = Ret () st \<and> \<not> failed \<or> Out.submit alloc fd rq (m_out (ls_l s)) = Exn e st \<and> failed \<Longrightarrow>
     req_ok rq \<Longrightarrow> ctx_at fd (fst (m_out (ls_l s))) \<noteq> None \<Longrightarrow> fd \<in> set (os_open (loop_os (ls_l s))) \<Longrightarrow>
     loop_step alloc s (s\<lparr>ls_l := (ls_l s)\<lparr>m_out := st\<rparr>, ls_osub := (ls_osub s)(fd := ls_osub s fd @ atoms (req_items rq)),
       ls_obad := mark (failed \<or> \<not> list_all asks_bytes (req_items rq)) fd (ls_obad s)\<rparr>)"
| answer: "m_out (ls_l s) = (m, w) \<Longrightarrow>
     loop_step alloc s (s\<lparr>ls_l := (ls_l s)\<lparr>m_out := (m, set_io fd (fst (wd_io w fd), sc) w)\<rparr>,
       ls_obad := mark (\<not> healthy sc) fd (ls_obad s)\<rparr>)"
| open_fd: "sys_openfd (loop_os (ls_l s)) = (fd, os') \<Longrightarrow> loop_step alloc s (s\<lparr>ls_l := set_loop_os os' (ls_l s)\<rparr>)"
| close_fd: "\<not> pending (fst (m_out (ls_l s))) fd \<Longrightarrow> fd \<noteq> m_ep (o_kernel (fst (m_out (ls_l s)))) \<Longrightarrow> fd \<noteq> m_ep (m_kernel (ls_l s)) \<Longrightarrow>
     loop_step alloc s (s\<lparr>ls_l := set_loop_os (sys_close fd (loop_os (ls_l s))) (ls_l s)\<rparr>)"
| other_call: "os' = (loop_os (ls_l s))\<lparr>os_errno := er, os_itimer := it\<rparr> \<Longrightarrow>
     loop_step alloc s (s\<lparr>ls_l := set_loop_os os' (ls_l s)\<rparr>)"
| spawn: "loop_step alloc s (s\<lparr>ls_thr := ls_thr s @ [(rl, Start)]\<rparr>)"

section \<open>Frames: the two kernels do not interfere\<close>

lemma epoll_other:
  "epoll_ctl_add ep fd ev os = (r, os') \<Longrightarrow> e \<noteq> ep \<Longrightarrow> os_ep os' e = os_ep os e"
  "epoll_ctl_mod ep fd ev os = (r, os') \<Longrightarrow> e \<noteq> ep \<Longrightarrow> os_ep os' e = os_ep os e"
  "epoll_ctl_del ep fd os = (r, os') \<Longrightarrow> e \<noteq> ep \<Longrightarrow> os_ep os' e = os_ep os e"
  unfolding epoll_ctl_add_def epoll_ctl_mod_def epoll_ctl_del_def
  by (erule sys_call_cases; auto simp: same_resources_def sys_fail_def split: if_splits)+

lemma kernel_other:
  "add_fd k ev fd os = (r, os') \<Longrightarrow> e \<noteq> m_ep k \<Longrightarrow> os_ep os' e = os_ep os e"
  "reactivate k ke os = (r, os') \<Longrightarrow> e \<noteq> m_ep k \<Longrightarrow> os_ep os' e = os_ep os e"
  "remove k ke os = (r, os') \<Longrightarrow> e \<noteq> m_ep k \<Longrightarrow> os_ep os' e = os_ep os e"
  "remove_fd k fd os = (r, os') \<Longrightarrow> e \<noteq> m_ep k \<Longrightarrow> os_ep os' e = os_ep os e"
  unfolding add_fd_def reactivate_def remove_def remove_fd_def Let_def using epoll_other by blast+

lemma wait_other: "wait k rdy os = (n, evs, os') \<Longrightarrow> e \<noteq> m_ep k \<Longrightarrow> os_ep os' e = os_ep os e"
  by (auto simp: wait_def epoll_wait_def ep_fired_def Let_def split: prod.splits option.splits)

lemma kernel_quiet:
  assumes "os_script os = []"
  shows "add_fd k ev fd os = (r, os') \<Longrightarrow> quiet os os'" "reactivate k ke os = (r, os') \<Longrightarrow> quiet os os'"
    "remove k ke os = (r, os') \<Longrightarrow> quiet os os'" "remove_fd k fd os = (r, os') \<Longrightarrow> quiet os os'"
    "wait k rdy os = (n, evs, os') \<Longrightarrow> quiet os os'" "sys_set_nonblock fd os = (r, os') \<Longrightarrow> quiet os os'"
  using assms
  by (auto simp: add_fd_def reactivate_def remove_def remove_fd_def wait_def epoll_wait_def epoll_ctl_add_def
      epoll_ctl_mod_def epoll_ctl_del_def ep_fired_def sys_set_nonblock_def sys_fail_def sys_take_def Let_def quiet_def split: if_splits)

text \<open>A call to the kernel of the loop does not disturb the output component.\<close>

lemma out_inv_loop_os:
  assumes "out_inv fl (m_out l)" "quiet (loop_os l) os'"
    "os_ep os' (m_ep (o_kernel (fst (m_out l)))) = os_ep (loop_os l) (m_ep (o_kernel (fst (m_out l))))"
  shows "out_inv fl (m_out (set_loop_os os' l))"
proof -
  obtain m w where mw: "m_out l = (m, w)" by fastforce
  have inv: "out_inv fl (m, w)" using assms(1) mw by simp
  have "out_inv fl (m, set_os os' w)"
    using assms(2,3) mw out_invD(4,9) [OF inv] by (intro out_inv_os [OF inv]) (auto simp: quiet_def)
  then show ?thesis using mw by (simp add: set_loop_os_def)
qed

text \<open>The output component leaves the kernel of the loop alone.\<close>

definition out_frame :: "ost \<Rightarrow> ost \<Rightarrow> bool" where
  "out_frame s s' \<longleftrightarrow> o_kernel (fst s') = o_kernel (fst s) \<and>
     (\<forall>e. e \<noteq> m_ep (o_kernel (fst s)) \<longrightarrow> os_ep (wd_os (snd s')) e = os_ep (wd_os (snd s)) e)"

lemma poll_event_frame: "poll_event rdy (m, w) = Ret () s' \<Longrightarrow> out_frame (m, w) s'"
  by (auto simp: poll_event_def out_frame_def Let_def dest: wait_other split: prod.splits if_splits)

lemma shutdown_ep [simp]: "os_ep (sys_shutdown fd os) = os_ep os"
  by (simp add: sys_shutdown_def)

lemma write_event_frame:
  assumes "write_event e (m, w) = Ret b s'"
  shows "out_frame (m, w) s'"
proof -
  obtain x where x: "ctx_at (ident e) m = Some x" using assms by (auto simp: write_event_def Let_def split: option.splits)
  obtain cs yio where t: "try_write_caught (x, wd_io w (ident e)) = Ret cs yio"
    using assms x by (cases "try_write_caught (x, wd_io w (ident e))") (auto simp: write_event_def Let_def)
  obtain c sh where p1: "cs = (c, sh)" by (cases cs)
  obtain y io where p2: "yio = (y, io)" by (cases yio)
  define os where "os = (if sh then sys_shutdown (ident e) (wd_os w) else wd_os w)"
  have ep: "os_ep os = os_ep (wd_os w)" by (simp add: os_def)
  obtain r1 os1 where r1: "remove (o_kernel m) e os = (r1, os1)" by fastforce
  obtain r2 os2 where r2: "reactivate (o_kernel m) e os = (r2, os2)" by fastforce
  show ?thesis
    using assms x t p1 p2 r1 r2 kernel_other(2) [OF r2] kernel_other(3) [OF r1] ep
    by (cases c) (auto simp: write_event_def Let_def out_frame_def os_def [symmetric] split: outcome.splits)
qed

lemma watch_frame: "out_frame s (watch fd s)"
  by (cases s) (auto simp: watch_def out_frame_def dest: kernel_other(1) split: prod.splits)

lemma submit_spec_frame:
  assumes "submit_spec fd its x (m, w) r" "r = Ret () s' \<or> r = Exn e s'"
  shows "out_frame (m, w) s'"
proof -
  obtain c its' io' where ex: "exec_items its (wd_io w fd) = (c, its', io')" by (metis prod_cases3)
  have "out_frame (m, w) (watch fd (set_ctx fd y m, set_io fd io' w))" for y
    using watch_frame [of "(set_ctx fd y m, set_io fd io' w)" fd] by (simp add: out_frame_def)
  then show ?thesis using assms ex by (auto simp: submit_spec_def out_frame_def split: if_splits)
qed

section \<open>The invariant\<close>

fun polling :: "pc \<Rightarrow> bool" where
  "polling Polling = True"
| "polling (Polled evs) = True"
| "polling _ = False"

definition count_if :: "(pc \<Rightarrow> bool) \<Rightarrow> (role \<times> pc) list \<Rightarrow> nat" where
  "count_if P ths = length (filter (P \<circ> snd) ths)"

text \<open>The events are exclusive, the mutex has one holder, polling has one thread.\<close>

definition core_inv :: "loop_impl \<Rightarrow> (role \<times> pc) list \<Rightarrow> bool" where
  "core_inv l ths \<longleftrightarrow>
     count_if holds ths \<le> 1 \<and> count_if polling ths \<le> (if m_pollable l then 0 else 1) \<and>
     (\<not> m_pollable l \<longrightarrow> (\<exists>t\<in>set ths. polling (snd t) \<or> snd t = Died)) \<and>
     (m_off l = m_num l \<or> m_pollable l \<and> m_off l < m_num l \<and> m_num l \<le> length (m_backlog l)) \<and>
     (\<forall>t\<in>set ths. \<forall>evs. snd t = Polled evs \<longrightarrow> evs = m_backlog l \<and> evs \<noteq> []) \<and>
     ep_wf (m_kernel l) (loop_os l) \<and> list_all evok (flight l ths) \<and>
     exclusive (armed (m_kernel l) (loop_os l)) (map ident (flight l ths)) \<and>
     out_inv (oflight ths) (m_out l) \<and> m_ep (m_kernel l) \<noteq> m_ep (o_kernel (fst (m_out l)))"

lemma count_if_simps [simp]:
  "count_if P [] = 0" "count_if P (t # ths) = (if P (snd t) then 1 else 0) + count_if P ths"
  by (simp_all add: count_if_def)

lemma oflight_simps [simp]: "oflight [] = []" "oflight (t # ths) = out_token (snd t) @ oflight ths"
  by (simp_all add: oflight_def)

lemma mset_concat_perm: "mset xs = mset ys \<Longrightarrow> mset (concat (map f xs)) = mset (concat (map f ys))"
  unfolding mset_concat by (metis map_map mset_map sum_mset_sum_list)

lemma core_inv_perm:
  assumes "mset ths = mset ths'"
  shows "core_inv l ths = core_inv l ths'"
proof -
  have set: "set ths = set ths'" using assms by (metis set_mset_mset)
  have c: "count_if P ths = count_if P ths'" for P
    unfolding count_if_def using assms by (metis mset_filter size_mset)
  have fl: "mset (flight l ths) = mset (flight l ths')"
    using mset_concat_perm [OF assms, of "token \<circ> snd"] by (simp add: flight_def)
  then have "set (flight l ths) = set (flight l ths')" by (metis set_mset_mset)
  then have ok: "list_all evok (flight l ths) = list_all evok (flight l ths')" by (simp add: list_all_iff)
  have ex: "exclusive A (map ident (flight l ths)) = exclusive A (map ident (flight l ths'))" for A
    using fl by (intro exclusive_perm) simp
  have "out_inv (oflight ths) st = out_inv (oflight ths') st" for st
    unfolding oflight_def by (intro out_inv_perm mset_concat_perm assms)
  then show ?thesis by (simp only: core_inv_def set c ok ex)
qed

text \<open>All steps can be seen as steps of the first thread.\<close>

definition others :: "nat \<Rightarrow> 'a list \<Rightarrow> 'a list" where
  "others i ths = take i ths @ drop (Suc i) ths"

lemma mset_others: "i < length ths \<Longrightarrow> mset ths = mset (ths ! i # others i ths)"
proof -
  assume "i < length ths"
  then have "ths = take i ths @ ths ! i # drop (Suc i) ths" by (rule id_take_nth_drop)
  then have "mset ths = mset (take i ths @ ths ! i # drop (Suc i) ths)" by simp
  then show ?thesis by (simp add: others_def)
qed

lemma others_update [simp]: "others i (ths[i := t]) = others i ths"
  by (simp add: others_def)

lemma core_inv_head: "i < length ths \<Longrightarrow> core_inv l ths = core_inv l (ths ! i # others i ths)"
  by (rule core_inv_perm) (rule mset_others)

lemma core_inv_upd:
  "i < length ths \<Longrightarrow> core_inv l (ths[i := t]) = core_inv l (t # others i ths)"
  using core_inv_head [of i "ths[i := t]" l] by simp

lemma mutex_free_others: "mutex_free ths \<Longrightarrow> count_if holds (others i ths) = 0"
  by (auto simp: mutex_free_def count_if_def others_def list_all_iff filter_empty_conv dest: in_set_takeD in_set_dropD)

section \<open>Preservation\<close>

lemma core_invI:
  assumes "count_if holds ths \<le> 1" "count_if polling ths \<le> (if m_pollable l then 0 else 1)"
    "\<not> m_pollable l \<Longrightarrow> \<exists>t\<in>set ths. polling (snd t) \<or> snd t = Died"
    "m_off l = m_num l \<or> m_pollable l \<and> m_off l < m_num l \<and> m_num l \<le> length (m_backlog l)"
    "\<And>t evs. t \<in> set ths \<Longrightarrow> snd t = Polled evs \<Longrightarrow> evs = m_backlog l \<and> evs \<noteq> []"
    "ep_wf (m_kernel l) (loop_os l)" "list_all evok (flight l ths)"
    "exclusive (armed (m_kernel l) (loop_os l)) (map ident (flight l ths))"
    "out_inv (oflight ths) (m_out l)" "m_ep (m_kernel l) \<noteq> m_ep (o_kernel (fst (m_out l)))"
  shows "core_inv l ths"
  using assms unfolding core_inv_def by blast

lemma core_invD:
  assumes "core_inv l ths"
  shows "count_if holds ths \<le> 1" "count_if polling ths \<le> (if m_pollable l then 0 else 1)"
    "\<not> m_pollable l \<Longrightarrow> \<exists>t\<in>set ths. polling (snd t) \<or> snd t = Died"
    "m_off l = m_num l \<or> m_pollable l \<and> m_off l < m_num l \<and> m_num l \<le> length (m_backlog l)"
    "\<And>t evs. t \<in> set ths \<Longrightarrow> snd t = Polled evs \<Longrightarrow> evs = m_backlog l \<and> evs \<noteq> []"
    "ep_wf (m_kernel l) (loop_os l)" "list_all evok (flight l ths)"
    "exclusive (armed (m_kernel l) (loop_os l)) (map ident (flight l ths))"
    "out_inv (oflight ths) (m_out l)" "m_ep (m_kernel l) \<noteq> m_ep (o_kernel (fst (m_out l)))"
  using assms unfolding core_inv_def by blast+

lemma flight_head: "flight l (t # T) = (if m_pollable l then backlog_left l else []) @ m_more_queue l @ token (snd t) @ flight_rest"
  if "flight_rest = concat (map (token \<circ> snd) T)" for flight_rest
  using that by (simp add: flight_def)

text \<open>A thread moves on without touching shared state.\<close>

lemma core_pc:
  assumes "core_inv l ((rl, p) # T)" "holds p' \<longrightarrow> holds p \<or> count_if holds T = 0" "polling p' = polling p"
    "p = Died \<longrightarrow> p' = Died" "token p' = token p" "out_token p' = out_token p" "\<forall>evs. p' \<noteq> Polled evs"
  shows "core_inv l ((rl, p') # T)"
  using assms unfolding core_inv_def by (auto simp: flight_def)

text \<open>Fields of the loop that the invariant does not mention.\<close>

lemma core_irrelevant [simp]:
  "core_inv (l\<lparr>m_task_queue := q\<rparr>) ths = core_inv l ths" "core_inv (l\<lparr>m_state := st\<rparr>) ths = core_inv l ths"
  "core_inv (l\<lparr>m_end_flag := b\<rparr>) ths = core_inv l ths" "core_inv (reset_handler i l) ths = core_inv l ths"
  by (simp_all add: core_inv_def flight_def backlog_left_def reset_handler_def)

text \<open>A thread that owns nothing: outside the kernel's, the output's and the poller's business.\<close>

definition idle_pc :: "pc \<Rightarrow> bool" where
  "idle_pc p \<longleftrightarrow> token p = [] \<and> out_token p = [] \<and> \<not> polling p \<and> p \<noteq> Died"

lemma tokens_perm_ok: "mset fl' = mset fl \<Longrightarrow> list_all evok fl \<Longrightarrow> list_all evok fl'"
  using mset_eq_setD [of fl' fl] by (simp add: list_all_iff)

lemma tokens_perm_exclusive: "mset fl' = mset fl \<Longrightarrow> exclusive A (map ident fl) \<Longrightarrow> exclusive A (map ident fl')"
  by (subst exclusive_perm [of "map ident fl'" "map ident fl"]) (simp_all only: mset_map)

text \<open>Events change hands, the kernels are not called.\<close>

lemma core_move:
  assumes inv: "core_inv l ((rl, p) # T)" and h: "holds p' \<longrightarrow> holds p \<or> count_if holds T = 0"
    and p: "\<not> polling p" "p \<noteq> Died" "\<not> polling p'" "out_token p' = out_token p"
    and l: "m_kernel l' = m_kernel l" "m_out l' = m_out l" "m_backlog l' = m_backlog l" "m_pollable l' = m_pollable l"
    and off: "m_off l' = m_num l' \<or> m_pollable l' \<and> m_off l' < m_num l' \<and> m_num l' \<le> length (m_backlog l')"
    and perm: "mset (flight l' ((rl, p') # T)) = mset (flight l ((rl, p) # T))"
  shows "core_inv l' ((rl, p') # T)"
proof (rule core_invI)
  note I = core_invD [OF inv]
  show "count_if holds ((rl, p') # T) \<le> 1" using I(1) h by auto
  show "count_if polling ((rl, p') # T) \<le> (if m_pollable l' then 0 else 1)" using I(2) p l by simp
  show "\<exists>t\<in>set ((rl, p') # T). polling (snd t) \<or> snd t = Died" if "\<not> m_pollable l'" using I(3) p l that by simp
  show "evs = m_backlog l' \<and> evs \<noteq> []" if "t \<in> set ((rl, p') # T)" "snd t = Polled evs" for t evs
  proof -
    have "t \<in> set ((rl, p) # T)" using that p(3) by auto
    from I(5) [OF this that(2)] show ?thesis unfolding l(3) .
  qed
  show "list_all evok (flight l' ((rl, p') # T))" using tokens_perm_ok [OF perm I(7)] .
  show "exclusive (armed (m_kernel l') (loop_os l')) (map ident (flight l' ((rl, p') # T)))"
    using tokens_perm_exclusive [OF perm I(8)] l by simp
  show "ep_wf (m_kernel l') (loop_os l')" "out_inv (oflight ((rl, p') # T)) (m_out l')"
    "m_ep (m_kernel l') \<noteq> m_ep (o_kernel (fst (m_out l')))"
    using I(6,9,10) p l by simp_all
qed (rule off)

lemma do_task_inv:
  assumes "core_inv l ((rl, p) # T)" "idle_pc p" "m_task_queue l \<noteq> []"
  shows "core_inv (fst (do_task l)) ((rl, snd (do_task l)) # T) \<and> starts (snd (do_task l)) @ m_task_queue (fst (do_task l)) = m_task_queue l"
proof -
  obtain t q where q: "m_task_queue l = t # q" using assms(3) by (cases "m_task_queue l") auto
  have "core_inv l ((rl, Run_task t (q = [])) # T)"
    using assms(2) by (intro core_pc [OF assms(1)]) (auto simp: idle_pc_def)
  then show ?thesis using q by (simp add: do_task_def starts_def)
qed

lemma do_out_inv:
  assumes inv: "core_inv l ((rl, p) # T)" and p: "idle_pc p" and q: "has_queue (fst (m_out l))"
  shows "core_inv (fst (do_out l)) ((rl, snd (do_out l)) # T) \<and> starts (snd (do_out l)) = [] \<and> m_task_queue (fst (do_out l)) = m_task_queue l"
proof -
  obtain m w where mw: "m_out l = (m, w)" by fastforce
  obtain e m' where n: "next_event m = Some (e, m')"
    using q mw by (cases "o_queue m") (auto simp: has_queue_def next_event_def)
  note I = core_invD [OF inv]
  have o: "out_inv (oflight T) (m, w)" using I(9) p mw by (simp add: idle_pc_def)
  have k: "o_kernel m' = o_kernel m" using n by (auto simp: next_event_def split: list.splits)
  let ?l = "l\<lparr>m_out := (m', w)\<rparr>"
  have "core_inv ?l ((rl, Do_out e) # T)"
    using inv p next_event_result [OF o n] k mw
    unfolding core_inv_def by (auto simp: flight_def backlog_left_def idle_pc_def)
  then show ?thesis using n mw by (simp add: do_out_def starts_def)
qed

lemma next_backlog_inv:
  assumes inv: "core_inv l ((rl, p) # T)" and p: "idle_pc p" and q: "m_pollable l" "m_off l \<noteq> m_num l" "count_if holds T = 0"
  shows "core_inv (fst (next_backlog l)) ((rl, snd (next_backlog l)) # T)"
proof -
  note I = core_invD [OF inv]
  have b: "m_off l < m_num l" "m_num l \<le> length (m_backlog l)" using I(4) q(2) by auto
  let ?ke = "m_backlog l ! m_off l"
  let ?l = "l\<lparr>m_off := m_off l + 1\<rparr>"
  have left: "backlog_left l = ?ke # backlog_left ?l"
    using b by (simp add: backlog_left_def Cons_nth_drop_Suc [symmetric] nth_take)
  have "core_inv ?l ((rl, Process ?ke) # T)"
    using q p b left by (intro core_move [OF inv]) (auto simp: idle_pc_def flight_def)
  then show ?thesis by (simp add: next_backlog_def)
qed

lemma begin_poll_inv:
  assumes inv: "core_inv l ((rl, p) # T)" and p: "idle_pc p" and q: "m_pollable l" "m_num l = m_off l"
  shows "core_inv (l\<lparr>m_pollable := False\<rparr>) ((rl, Polling) # T)"
proof -
  note I = core_invD [OF inv]
  have "backlog_left l = []" using q(2) by (simp add: backlog_left_def)
  then have "flight (l\<lparr>m_pollable := False\<rparr>) ((rl, Polling) # T) = flight l ((rl, p) # T)"
    using q(1) p by (simp add: flight_def idle_pc_def)
  moreover have "count_if polling T = 0" using I(2) q(1) by simp
  ultimately show ?thesis using I(1,5-10) p q by (intro core_invI) (simp_all add: idle_pc_def, auto)
qed

lemma take_more_inv:
  assumes inv: "core_inv l ((rl, p) # T)" and p: "idle_pc p" and q: "m_more_queue l = ke # q" "count_if holds T = 0"
  shows "core_inv (l\<lparr>m_more_queue := q\<rparr>) ((rl, Process ke) # T)"
  using p q core_invD(4) [OF inv]
  by (intro core_move [OF inv]) (auto simp: idle_pc_def flight_def backlog_left_def)


text \<open>The result of a piece of code of the first thread, with the tasks it starts.\<close>

definition piece_ok :: "loop_impl \<Rightarrow> role \<Rightarrow> (role \<times> pc) list \<Rightarrow> loop_impl \<times> pc \<Rightarrow> bool" where
  "piece_ok l rl T lp \<longleftrightarrow> core_inv (fst lp) ((rl, snd lp) # T) \<and>
     starts (snd lp) @ m_task_queue (fst lp) = m_task_queue l"

lemma piece_pc:
  assumes "core_inv l ((rl, p) # T)" "idle_pc p" "idle_pc p'" "\<not> holds p'" "starts p' = []"
  shows "piece_ok l rl T (l, p')"
  unfolding piece_ok_def using assms by (auto simp: idle_pc_def intro: core_pc [of l rl p T p'])

lemma do_task_piece: "core_inv l ((rl, p) # T) \<Longrightarrow> idle_pc p \<Longrightarrow> m_task_queue l \<noteq> [] \<Longrightarrow> piece_ok l rl T (do_task l)"
  using do_task_inv by (simp add: piece_ok_def)

lemma do_out_piece: "core_inv l ((rl, p) # T) \<Longrightarrow> idle_pc p \<Longrightarrow> has_queue (fst (m_out l)) \<Longrightarrow> piece_ok l rl T (do_out l)"
  using do_out_inv by (simp add: piece_ok_def)

lemma next_backlog_piece:
  "core_inv l ((rl, p) # T) \<Longrightarrow> idle_pc p \<Longrightarrow> m_pollable l \<Longrightarrow> m_off l \<noteq> m_num l \<Longrightarrow> count_if holds T = 0 \<Longrightarrow>
     piece_ok l rl T (next_backlog l)"
  using next_backlog_inv [of l rl p T] by (simp add: piece_ok_def next_backlog_def starts_def)

lemma begin_poll_piece:
  "core_inv l ((rl, p) # T) \<Longrightarrow> idle_pc p \<Longrightarrow> m_pollable l \<Longrightarrow> m_num l = m_off l \<Longrightarrow>
     piece_ok l rl T (l\<lparr>m_pollable := False\<rparr>, Polling)"
  using begin_poll_inv [of l rl p T] by (simp add: piece_ok_def starts_def)

lemma take_more_piece:
  "core_inv l ((rl, p) # T) \<Longrightarrow> idle_pc p \<Longrightarrow> m_more_queue l = ke # q \<Longrightarrow> count_if holds T = 0 \<Longrightarrow>
     piece_ok l rl T (l\<lparr>m_more_queue := q\<rparr>, Process ke)"
  using take_more_inv [of l rl p T] by (simp add: piece_ok_def starts_def)

lemma idle_pcs [simp]: "idle_pc Locked" "idle_pc Waiting" "idle_pc Exited" "idle_pc Do_queue" "idle_pc Start" "idle_pc Notify"
  by (simp_all add: idle_pc_def)

lemma starts_simps [simp]: "starts Exited = []" "starts Waiting = []"
  by (simp_all add: starts_def)

lemmas pieces = do_task_piece do_out_piece next_backlog_piece begin_poll_piece take_more_piece piece_pc

lemma retry_task_piece:
  assumes "core_inv l ((rl, Locked) # T)"
  shows "piece_ok l rl T (retry_task l)"
proof -
  have "count_if holds T = 0" using core_invD(1) [OF assms] by simp
  then show ?thesis using assms unfolding retry_task_def
    by (auto intro!: pieces [where p = Locked] split: list.split)
qed

lemma do_queue_piece:
  "core_inv l ((rl, p) # T) \<Longrightarrow> idle_pc p \<Longrightarrow> piece_ok l rl T (do_queue block l)"
  unfolding do_queue_def by (auto intro!: pieces [where p = p])

lemma run_once_piece:
  assumes "core_inv l ((rl, Locked) # T)"
  shows "piece_ok l rl T (run_once block l)"
proof -
  have "count_if holds T = 0" using core_invD(1) [OF assms] by simp
  then show ?thesis using assms unfolding run_once_def
    by (auto intro!: pieces [where p = Locked] do_queue_piece [where p = Locked] split: list.split)
qed

text \<open>A change of the operating system by a call to the kernel of the loop.\<close>

lemma loop_os_simps [simp]:
  "loop_os (set_loop_os os l) = os" "m_kernel (set_loop_os os l) = m_kernel l" "m_off (set_loop_os os l) = m_off l"
  "m_num (set_loop_os os l) = m_num l" "m_pollable (set_loop_os os l) = m_pollable l" "m_backlog (set_loop_os os l) = m_backlog l"
  "m_more_queue (set_loop_os os l) = m_more_queue l" "m_task_queue (set_loop_os os l) = m_task_queue l"
  "fst (m_out (set_loop_os os l)) = fst (m_out l)" "m_end_flag (set_loop_os os l) = m_end_flag l"
  "m_state (set_loop_os os l) = m_state l"
  by (simp_all add: set_loop_os_def)

lemma flight_set_os [simp]: "flight (set_loop_os os l) T = flight l T"
  by (simp add: flight_def backlog_left_def)

lemma core_script: "core_inv l ths \<Longrightarrow> os_script (loop_os l) = []"
  using core_invD(9) [of l ths] out_invD(4) [of _ "fst (m_out l)" "snd (m_out l)"] by simp

lemma core_kernel_call:
  assumes inv: "core_inv l ((rl, p) # T)" and os: "quiet (loop_os l) os'" "\<And>e. e \<noteq> m_ep (m_kernel l) \<Longrightarrow> os_ep os' e = os_ep (loop_os l) e"
    and p: "\<not> polling p" "p \<noteq> Died" "\<not> polling p'" "\<not> holds p'" "out_token p' = out_token p"
    and tok: "ep_wf (m_kernel l) os'" "list_all evok (flight l ((rl, p') # T))"
      "exclusive (armed (m_kernel l) os') (map ident (flight l ((rl, p') # T)))"
  shows "core_inv (set_loop_os os' l) ((rl, p') # T)"
proof -
  note I = core_invD [OF inv]
  have o: "out_inv (oflight ((rl, p) # T)) (m_out (set_loop_os os' l))"
    using I(10) os(2) by (intro out_inv_loop_os [OF I(9) os(1)]) simp
  have pol: "evs = m_backlog l \<and> evs \<noteq> []" if "t \<in> set ((rl, p') # T)" "snd t = Polled evs" for t evs
  proof -
    have "t \<in> set ((rl, p) # T)" using that p(3) by auto
    from I(5) [OF this that(2)] show ?thesis .
  qed
  have died: "\<exists>t\<in>set T. polling (snd t) \<or> snd t = Died" if "\<not> m_pollable l" using I(3) that p(1,2) by simp
  show ?thesis
    by (rule core_invI) (use I(1,2,4,10) o p tok pol died in \<open>simp_all split: if_splits\<close>)
qed

lemma flight_token: "mset (flight l ((rl, p) # T)) = mset (token p @ flight l T)"
  by (simp add: flight_def)

text \<open>The first thread gives its event back to the kernel.\<close>

lemma core_reactivate:
  assumes inv: "core_inv l ((rl, p) # T)" and p: "token p = [ke]" "\<not> polling p" "p \<noteq> Died" "out_token p = []"
    and p': "idle_pc p' \<and> \<not> holds p' \<or> (\<exists>h rm. p' = Handling ke h True rm)"
  shows "core_inv (kernel_reactivate ke l) ((rl, p') # T)"
proof -
  note I = core_invD [OF inv]
  obtain r os' where r: "reactivate (m_kernel l) ke (loop_os l) = (r, os')" by fastforce
  have t': "token p' = []" "\<not> polling p'" "\<not> holds p'" "out_token p' = []" using p' by (auto simp: idle_pc_def)
  have perm: "mset (ke # flight l T) = mset (flight l ((rl, p) # T))" using flight_token [of l rl p T] p(1) by simp
  have ok: "list_all evok (ke # flight l T)" using tokens_perm_ok [OF perm I(7)] .
  have "exclusive (armed (m_kernel l) (loop_os l)) (map ident (ke # flight l T))"
    using tokens_perm_exclusive [OF perm I(8)] .
  then have ex: "exclusive (armed (m_kernel l) (loop_os l)) (ident ke # map ident (flight l T))" by simp
  have e: "evok ke" using ok by simp
  from epr.reactivate_exclusive [OF I(6) e ex r]
  have k: "ep_wf (m_kernel l) os'" "exclusive (armed (m_kernel l) os') (map ident (flight l T))" by auto
  have fl: "flight l ((rl, p') # T) = flight l T" using t' by (simp add: flight_def)
  have "core_inv (set_loop_os os' l) ((rl, p') # T)"
    using kernel_quiet(2) [OF core_script [OF inv] r] kernel_other(2) [OF r] p t' k ok
    by (intro core_kernel_call [OF inv]) (simp_all add: fl)
  then show ?thesis using r by (simp add: kernel_reactivate_def)
qed

text \<open>The first thread removes its event, or an event it has given back before.\<close>

lemma exclusive_shrink: "exclusive A (map ident fl) \<Longrightarrow> A' \<subseteq> A \<Longrightarrow> exclusive A' (map ident fl)"
  by (auto simp: exclusive_def)

lemma core_remove:
  assumes inv: "core_inv l ((rl, p) # T)" and p: "token p = [] \<or> token p = [ke]" "\<not> polling p" "p \<noteq> Died" "out_token p = []"
    and p': "idle_pc p' \<and> \<not> holds p' \<or> (\<exists>h re. p' = Handling ke h re True)"
  shows "core_inv (kernel_remove ke l) ((rl, p') # T)"
proof -
  note I = core_invD [OF inv]
  obtain r os' where r: "remove (m_kernel l) ke (loop_os l) = (r, os')" by fastforce
  have t': "token p' = []" "\<not> polling p'" "\<not> holds p'" "out_token p' = []" using p' by (auto simp: idle_pc_def)
  have sub: "mset (flight l ((rl, p) # T)) = mset (token p @ flight l T)" by (rule flight_token)
  have ok: "list_all evok (flight l T)" using tokens_perm_ok [OF sub [symmetric] I(7)] by simp
  have ex: "exclusive (armed (m_kernel l) (loop_os l)) (map ident (flight l T))"
    using tokens_perm_exclusive [OF sub [symmetric] I(8)] by (auto simp: exclusive_def)
  have del: "ep_wf (m_kernel l) os'" "armed (m_kernel l) os' \<subseteq> armed (m_kernel l) (loop_os l)"
    using epoll_del_law [OF I(6), of "ident ke" r os'] r by (auto simp: remove_def split: if_splits)
  have fl: "flight l ((rl, p') # T) = flight l T" using t' by (simp add: flight_def)
  have "core_inv (set_loop_os os' l) ((rl, p') # T)"
    using kernel_quiet(3) [OF core_script [OF inv] r] kernel_other(3) [OF r] p t' del ok exclusive_shrink [OF ex del(2)]
    by (intro core_kernel_call [OF inv]) (simp_all add: fl)
  then show ?thesis using r by (simp add: kernel_remove_def)
qed

lemma core_again: "idle_pc (again rl) \<and> \<not> holds (again rl)"
  by (cases rl) simp_all

lemma after_handler_inv:
  assumes inv: "core_inv l ((rl, p) # T)" and p: "p = Dispatch ke \<and> \<not> re \<and> \<not> rm \<or> (\<exists>h. p = Handling ke h re rm)"
  shows "core_inv (after_handler ke re rm cont l) ((rl, again rl) # T)"
proof (cases "re \<or> rm")
  case True
  then have "core_inv l ((rl, again rl) # T)"
    using p core_again [of rl] by (intro core_pc [OF inv]) (auto simp: idle_pc_def)
  then show ?thesis using True by (auto simp: after_handler_def)
next
  case False
  have t: "token p = [ke]" "\<not> polling p" "p \<noteq> Died" "out_token p = []" using p False by auto
  show ?thesis
  proof (cases cont)
    case True
    then show ?thesis using False core_reactivate [OF inv t disjI1 [OF core_again]] by (simp add: after_handler_def)
  next
    case c: False
    have "core_inv (kernel_remove ke l) ((rl, again rl) # T)"
      using t by (intro core_remove [OF inv _ _ _ _ disjI1 [OF core_again]]) simp_all
    then show ?thesis using False c by (simp add: after_handler_def)
  qed
qed

lemma dispatch_inv:
  assumes "core_inv l ((rl, Dispatch ke) # T)"
  shows "core_inv (fst (dispatch rl ke l)) ((rl, snd (dispatch rl ke l)) # T)"
proof -
  have "core_inv l ((rl, Handling ke h False False) # T)" for h by (intro core_pc [OF assms]) simp_all
  then show ?thesis using after_handler_inv [OF assms, of ke False False False] by (simp add: dispatch_def split: option.split)
qed

lemma ev_more_inv:
  assumes inv: "core_inv l ((rl, Handling ke h re rm) # T)" and "\<not> rm"
  shows "core_inv (fst (ev_more ke h re rm l)) ((rl, snd (ev_more ke h re rm l)) # T)"
proof (cases re)
  case False
  have "core_inv (event_more ke l) ((rl, Handling ke h True rm) # T)"
    using assms(2) False core_invD(4) [OF inv]
    by (intro core_move [OF inv]) (simp_all add: event_more_def flight_def backlog_left_def)
  then show ?thesis using False by (simp add: ev_more_def)
qed (use inv in \<open>simp add: ev_more_def\<close>)

lemma ev_next_inv:
  assumes inv: "core_inv l ((rl, Handling ke h re rm) # T)" and "\<not> rm"
  shows "core_inv (fst (ev_next ke h re rm l)) ((rl, snd (ev_next ke h re rm l)) # T)"
proof (cases re)
  case False
  have "core_inv (kernel_reactivate ke l) ((rl, Handling ke h True rm) # T)"
    using assms(2) False by (intro core_reactivate [OF inv]) auto
  then show ?thesis using False by (simp add: ev_next_def event_next_def)
qed (use inv in \<open>simp add: ev_next_def\<close>)

lemma ev_remove_inv:
  assumes inv: "core_inv l ((rl, Handling ke h re rm) # T)"
  shows "core_inv (fst (ev_remove ke h re rm l)) ((rl, snd (ev_remove ke h re rm l)) # T)"
proof (cases rm)
  case False
  have "core_inv (kernel_remove ke l) ((rl, Handling ke h re True) # T)"
    by (intro core_remove [OF inv]) auto
  then show ?thesis using False by (simp add: ev_remove_def event_remove_def)
qed (use inv in \<open>simp add: ev_remove_def\<close>)

lemma count_zero: "count_if P T = 0 \<Longrightarrow> t \<in> set T \<Longrightarrow> \<not> P (snd t)"
  by (auto simp: count_if_def filter_empty_conv)

lemma core_poller:
  assumes "core_inv l ((rl, p) # T)" "polling p"
  shows "\<not> m_pollable l" "count_if polling T = 0" "m_off l = m_num l"
  using core_invD(2,4) [OF assms(1)] assms(2) by (auto split: if_splits)

text \<open>The poller gives up polling.\<close>

lemma core_poll_stop:
  assumes inv: "core_inv l ((rl, Polling) # T)" and p': "idle_pc p'" "\<not> holds p'"
  shows "core_inv (l\<lparr>m_pollable := True\<rparr>) ((rl, p') # T)"
proof -
  note I = core_invD [OF inv] and P = core_poller [OF inv]
  have "backlog_left (l\<lparr>m_pollable := True\<rparr>) = []" using P(3) by (simp add: backlog_left_def)
  then have fl: "flight (l\<lparr>m_pollable := True\<rparr>) ((rl, p') # T) = flight l ((rl, Polling) # T)"
    using P p' by (simp add: flight_def idle_pc_def)
  have pol: "t \<in> set ((rl, p') # T) \<Longrightarrow> \<not> polling (snd t)" for t
    using p' count_zero [of polling T t] P(2) by (auto simp: idle_pc_def)
  show ?thesis
  proof (rule core_invI)
    show "evs = m_backlog (l\<lparr>m_pollable := True\<rparr>) \<and> evs \<noteq> []" if "t \<in> set ((rl, p') # T)" "snd t = Polled evs" for t evs
      using pol [OF that(1)] that(2) by simp
  qed (use I(1,6-10) P p' fl in \<open>simp_all add: idle_pc_def\<close>)
qed

lemma poll_return_inv:
  assumes inv: "core_inv l ((rl, Polling) # T)"
  shows "core_inv (fst (poll_return rl rdy l)) ((rl, snd (poll_return rl rdy l)) # T)"
proof -
  note I = core_invD [OF inv] and P = core_poller [OF inv, simplified]
  have sc: "os_script (loop_os l) = []" by (rule core_script [OF inv])
  from wait_ok [OF sc, of "m_kernel l" rdy] obtain evs os' where
    w: "wait (m_kernel l) rdy (loop_os l) = (int (length evs), evs, os')" by blast
  note law = epr.wait_law [OF I(6) w] and ex = epr.wait_exclusive [OF I(6) I(8) w]
  have q: "quiet (loop_os l) os'" by (rule kernel_quiet(5) [OF sc w])
  have o: "out_inv (oflight ((rl, Polling) # T)) (m_out (set_loop_os os' l))"
    using I(10) wait_other [OF w] by (intro out_inv_loop_os [OF I(9) q]) simp
  let ?l = "set_loop_os os' l"
  show ?thesis
  proof (cases "evs = []")
    case True
    have "core_inv ?l ((rl, Polling) # T)"
      using I(1,2,3,4,5,7,10) o law ex True by (intro core_invI) simp_all
    then show ?thesis using w True core_poll_stop [of ?l rl T]
      by (auto simp: poll_return_def Let_def split: role.split)
  next
    case False
    let ?l' = "?l\<lparr>m_backlog := evs\<rparr>"
    have perm: "mset (flight ?l' ((rl, Polled evs) # T)) = mset (evs @ flight l ((rl, Polling) # T))"
      using P by (simp add: flight_def)
    have "list_all evok (evs @ flight l ((rl, Polling) # T))" using law I(7) by simp
    from tokens_perm_ok [OF perm this] have ok: "list_all evok (flight ?l' ((rl, Polled evs) # T))" .
    have "exclusive (armed (m_kernel l) os') (map ident (evs @ flight l ((rl, Polling) # T)))" using ex by simp
    from tokens_perm_exclusive [OF perm this]
    have ex': "exclusive (armed (m_kernel l) os') (map ident (flight ?l' ((rl, Polled evs) # T)))" .
    have "core_inv ?l' ((rl, Polled evs) # T)"
    proof (rule core_invI)
      show "e = m_backlog ?l' \<and> e \<noteq> []" if "t \<in> set ((rl, Polled evs) # T)" "snd t = Polled e" for t e
        using that False count_zero [OF P(2), of t] by auto
    qed (use I(1,2,10) P law o ok ex' in simp_all)
    then show ?thesis using w False by (simp add: poll_return_def Let_def)
  qed
qed

lemma poll_publish_inv:
  assumes inv: "core_inv l ((rl, Polled evs) # T)" and free: "count_if holds T = 0"
  shows "core_inv (fst (poll_publish evs l)) ((rl, snd (poll_publish evs l)) # T)"
proof -
  note I = core_invD [OF inv] and P = core_poller [OF inv, simplified]
  have e: "m_backlog l = evs" "evs \<noteq> []" using I(5) [of "(rl, Polled evs)" evs] by auto
  let ?l = "l\<lparr>m_off := 0, m_num := length evs, m_pollable := True\<rparr>"
  have "backlog_left ?l = evs" using e by (simp add: backlog_left_def)
  then have perm: "mset (flight ?l ((rl, Start) # T)) = mset (flight l ((rl, Polled evs) # T))"
    using P by (simp add: flight_def)
  have "core_inv ?l ((rl, Start) # T)"
  proof (rule core_invI)
    show "x = m_backlog ?l \<and> x \<noteq> []" if "t \<in> set ((rl, Start) # T)" "snd t = Polled x" for t x
      using that count_zero [OF P(2), of t] by auto
    show "list_all evok (flight ?l ((rl, Start) # T))" using tokens_perm_ok [OF perm I(7)] .
    show "exclusive (armed (m_kernel ?l) (loop_os ?l)) (map ident (flight ?l ((rl, Start) # T)))"
      using tokens_perm_exclusive [OF perm I(8)] by simp
  qed (use I(1,6,9,10) P e free in simp_all)
  from next_backlog_inv [OF this] e free show ?thesis by (simp add: poll_publish_def)
qed

text \<open>A step of the output component inside the loop.\<close>

lemma core_out_step:
  assumes inv: "core_inv l ((rl, p) # T)" and o: "out_inv (oflight ((rl, p') # T)) st" "out_frame (m_out l) st"
    and p: "\<not> polling p" "p \<noteq> Died" "\<not> polling p'" "\<not> holds p'" "token p' = token p"
  shows "core_inv (l\<lparr>m_out := st\<rparr>) ((rl, p') # T)"
proof -
  note I = core_invD [OF inv]
  have ep: "os_ep (wd_os (snd st)) (m_ep (m_kernel l)) = os_ep (loop_os l) (m_ep (m_kernel l))"
    using o(2) I(10) by (simp add: out_frame_def)
  have k: "ep_wf (m_kernel l) (wd_os (snd st)) = ep_wf (m_kernel l) (loop_os l)"
    "armed (m_kernel l) (wd_os (snd st)) = armed (m_kernel l) (loop_os l)"
    using ep by (simp_all add: ep_wf_def armed_def ep_ready_def)
  have fl: "flight (l\<lparr>m_out := st\<rparr>) ((rl, p') # T) = flight l ((rl, p) # T)"
    using p(5) by (simp add: flight_def backlog_left_def)
  have pol: "evs = m_backlog l \<and> evs \<noteq> []" if "t \<in> set ((rl, p') # T)" "snd t = Polled evs" for t evs
  proof -
    have "t \<in> set ((rl, p) # T)" using that p(3) by auto
    from I(5) [OF this that(2)] show ?thesis .
  qed
  have died: "\<exists>t\<in>set T. polling (snd t) \<or> snd t = Died" if "\<not> m_pollable l" using I(3) that p(1,2) by simp
  show ?thesis
    by (rule core_invI) (use I(1,2,4,6,7,8,10) o p pol died k fl in \<open>simp_all add: out_frame_def split: if_splits\<close>)
qed

lemma process_handler_inv:
  assumes inv: "core_inv l ((rl, Process ke) # T)"
  shows "core_inv (fst (process_handler rdy ke l)) ((rl, snd (process_handler rdy ke l)) # T)"
proof (cases "ident ke = m_ep (o_kernel (fst (m_out l)))")
  case True
  obtain m w where mw: "m_out l = (m, w)" by fastforce
  have "out_inv (oflight T) (m, w)" using core_invD(9) [OF inv] mw by simp
  from poll_event_result [OF this, of rdy] obtain s' where
    s': "poll_event rdy (m, w) = Ret () s'" "out_inv (oflight T) s'" by blast
  have "core_inv (l\<lparr>m_out := s'\<rparr>) ((rl, React_out ke) # T)"
    using poll_event_frame [OF s'(1)] s'(2) mw by (intro core_out_step [OF inv]) simp_all
  then show ?thesis using True s'(1) mw by (simp add: process_handler_def)
next
  case False
  have "core_inv l ((rl, Dispatch ke) # T)" by (intro core_pc [OF inv]) simp_all
  then show ?thesis using False by (simp add: process_handler_def)
qed

lemma do_out_write_inv:
  assumes inv: "core_inv l ((rl, Do_out ke) # T)"
  shows "core_inv (fst (do_out_write rl ke l)) ((rl, snd (do_out_write rl ke l)) # T)"
proof -
  obtain m w where mw: "m_out l = (m, w)" by fastforce
  have o: "out_inv (ke # oflight T) (m, w)" using core_invD(9) [OF inv] mw by simp
  obtain x where x: "ctx_at (ident ke) m = Some x" "xf_inv x" using flight_ctx [OF o, of ke] by auto
  obtain c its' tr' sc' where ex: "exec_items (items x) (wd_io w (ident ke)) = (c, its', (tr', sc'))" by (metis prod_cases4)
  from write_event_result [OF o x ex] obtain b s' where
    s': "write_event ke (m, w) = Ret b s'" "out_inv (oflight T) s'" by blast
  let ?p = "if b then Notify else again rl"
  have "core_inv (l\<lparr>m_out := s'\<rparr>) ((rl, ?p) # T)"
    using write_event_frame [OF s'(1)] s'(2) mw core_again [of rl]
    by (intro core_out_step [OF inv]) (simp_all add: idle_pc_def)
  then show ?thesis using s'(1) mw by (simp add: do_out_write_def)
qed

text \<open>A client is a thread that owns nothing.\<close>

lemma core_client: "idle_pc p \<Longrightarrow> \<not> holds p \<Longrightarrow> core_inv l ((rl, p) # ths) = core_inv l ths"
  unfolding core_inv_def idle_pc_def by (auto simp: flight_def)

lemma core_client_call:
  assumes inv: "core_inv l ths" and os: "quiet (loop_os l) os'" "\<And>e. e \<noteq> m_ep (m_kernel l) \<Longrightarrow> os_ep os' e = os_ep (loop_os l) e"
    and tok: "ep_wf (m_kernel l) os'" "exclusive (armed (m_kernel l) os') (map ident (flight l ths))"
  shows "core_inv (set_loop_os os' l) ths"
proof -
  have h: "core_inv l ((Worker, Exited) # ths)" using inv by (simp add: core_client)
  have "flight l ((Worker, Exited) # ths) = flight l ths" by (simp add: flight_def)
  then have "core_inv (set_loop_os os' l) ((Worker, Exited) # ths)"
    using core_invD(7) [OF inv] tok by (intro core_kernel_call [OF h os]) simp_all
  then show ?thesis by (simp add: core_client)
qed

lemma set_handler_core [simp]: "core_inv (set_handler i h l) ths = core_inv l ths"
  by (simp add: set_handler_def)

lemma nonblock_frame: "sys_set_nonblock fd os = (r, os') \<Longrightarrow> os_ep os' = os_ep os"
  unfolding sys_set_nonblock_def
  by (erule sys_call_cases) (auto simp: same_resources_def sys_fail_def split: if_splits)

lemma add_handler_inv:
  assumes inv: "core_inv l ths" and fd: "fdok fd" "fd \<notin> ident ` set (flight l ths)"
    and r: "add_handler_impl fd h l = Ret () l'"
  shows "core_inv l' ths \<and> m_task_queue l' = m_task_queue l"
proof -
  note I = core_invD [OF inv] and sc = core_script [OF inv]
  obtain r1 os1 where n: "sys_set_nonblock fd (loop_os l) = (r1, os1)" by fastforce
  let ?l = "set_handler fd h (set_loop_os os1 l)"
  have ep: "os_ep os1 = os_ep (loop_os l)" by (rule nonblock_frame [OF n])
  have k: "ep_wf (m_kernel l) os1" "armed (m_kernel l) os1 = armed (m_kernel l) (loop_os l)"
    using ep I(6) by (simp_all add: ep_wf_def armed_def ep_ready_def)
  have c1: "core_inv (set_loop_os os1 l) ths"
    using k I(8) ep kernel_quiet(6) [OF sc n] by (intro core_client_call [OF inv]) simp_all
  then have c2: "core_inv ?l ths" by simp
  have fl: "flight ?l ths = flight l ths" by (simp add: flight_def backlog_left_def set_handler_def)
  have k2: "m_kernel ?l = m_kernel l" "loop_os ?l = os1" "m_task_queue ?l = m_task_queue l" by (simp_all add: set_handler_def)
  obtain r2 os2 where a: "add_fd (m_kernel l) EVKERNEL_READ fd os1 = (r2, os2)" by fastforce
  have "exclusive (armed (m_kernel l) os1) (map ident (flight l ths))" using k I(8) by simp
  from epr.add_exclusive [OF k(1) fd(1) this _ a] fd(2)
  have ex: "ep_wf (m_kernel l) os2" "exclusive (armed (m_kernel l) os2) (map ident (flight l ths))" by auto
  have sc1: "os_script os1 = []" using core_script [OF c1] by simp
  have "core_inv (set_loop_os os2 ?l) ths"
    using ex kernel_other(1) [OF a] kernel_quiet(1) [OF sc1 a] by (intro core_client_call [OF c2]) (simp_all add: k2 fl)
  moreover have "l' = set_loop_os os2 ?l" using r n a k2 by (simp add: add_handler_impl_def Let_def split: if_splits)
  ultimately show ?thesis using k2 by simp
qed

lemma add_handler_fails_inv:
  assumes inv: "core_inv l ths" and r: "add_handler_impl fd h l = Exn e l'"
  shows "core_inv l' ths \<and> m_task_queue l' = m_task_queue l"
proof -
  note I = core_invD [OF inv] and sc = core_script [OF inv]
  obtain r1 os1 where n: "sys_set_nonblock fd (loop_os l) = (r1, os1)" by fastforce
  have ep: "os_ep os1 = os_ep (loop_os l)" by (rule nonblock_frame [OF n])
  have k: "ep_wf (m_kernel l) os1" "armed (m_kernel l) os1 = armed (m_kernel l) (loop_os l)"
    using ep I(6) by (simp_all add: ep_wf_def armed_def ep_ready_def)
  have "core_inv (set_loop_os os1 l) ths"
    using k I(8) ep kernel_quiet(6) [OF sc n] by (intro core_client_call [OF inv]) simp_all
  moreover have "l' = set_loop_os os1 l" using r n by (auto simp: add_handler_impl_def Let_def split: if_splits prod.splits)
  ultimately show ?thesis by simp
qed

lemma remove_handler_inv:
  assumes inv: "core_inv l ths"
  shows "core_inv (remove_handler fd l) ths \<and> m_task_queue (remove_handler fd l) = m_task_queue l"
proof -
  let ?l = "reset_handler fd l"
  have inv': "core_inv ?l ths" using inv by simp
  note I = core_invD [OF inv'] and sc = core_script [OF inv']
  obtain r os' where r: "remove_fd (m_kernel ?l) fd (loop_os ?l) = (r, os')" by fastforce
  have del: "ep_wf (m_kernel ?l) os'" "armed (m_kernel ?l) os' \<subseteq> armed (m_kernel ?l) (loop_os ?l)"
    using epoll_del_law [OF I(6), of fd r os'] r by (auto simp: remove_fd_def split: if_splits)
  have "core_inv (set_loop_os os' ?l) ths"
    using del exclusive_shrink [OF I(8) del(2)] kernel_other(4) [OF r] kernel_quiet(4) [OF sc r]
    by (intro core_client_call [OF inv']) simp_all
  then show ?thesis using r by (simp add: remove_handler_def reset_handler_def Let_def)
qed

lemma out_submit_inv:
  assumes inv: "core_inv l ths" and al: "alloc_bounded alloc"
    and r: "Out.submit alloc fd rq (m_out l) = Ret () st \<or> Out.submit alloc fd rq (m_out l) = Exn e st"
    and ok: "req_ok rq" "ctx_at fd (fst (m_out l)) \<noteq> None" "fd \<in> set (os_open (loop_os l))"
  shows "core_inv (l\<lparr>m_out := st\<rparr>) ths"
proof -
  obtain m w where mw: "m_out l = (m, w)" by fastforce
  obtain x where x: "ctx_at fd m = Some x" using ok(2) mw by auto
  have o: "out_inv (oflight ths) (m, w)" using core_invD(9) [OF inv] mw by simp
  have xi: "xf_inv x" using ctx_at_inv [OF out_invD(1) [OF o] x] .
  note spec = submit_refines [OF x xi al ok(1), of w]
  have "out_inv (oflight ths) st" using submit_spec_effect [OF o x _ spec] r mw ok(3) by auto
  moreover have "out_frame (m, w) st" using submit_spec_frame [OF spec] r mw by auto
  moreover have h: "core_inv l ((Worker, Exited) # ths)" using inv by (simp add: core_client)
  ultimately have "core_inv (l\<lparr>m_out := st\<rparr>) ((Worker, Exited) # ths)" using mw by (intro core_out_step [OF h]) simp_all
  then show ?thesis by (simp add: core_client)
qed

section \<open>Reachable states\<close>

definition sys_inv :: "lsys \<Rightarrow> bool" where
  "sys_inv s \<longleftrightarrow> core_inv (ls_l s) (ls_thr s) \<and> ls_sub s = ls_started s @ m_task_queue (ls_l s)"

lemma upd_simps [simp]:
  "ls_l (upd i lp s) = fst lp" "ls_sub (upd i lp s) = ls_sub s" "ls_started (upd i lp s) = ls_started s"
  "ls_thr (upd i lp s) = (ls_thr s)[i := (fst (ls_thr s ! i), snd lp)]"
  by (simp_all add: upd_def)

lemma sys_inv_upd:
  assumes inv: "sys_inv s" and i: "i < length (ls_thr s)" "ls_thr s ! i = (rl, p)"
    and step: "core_inv (ls_l s) ((rl, p) # others i (ls_thr s)) \<Longrightarrow> core_inv (fst lp) ((rl, snd lp) # others i (ls_thr s))"
    and task: "starts' @ m_task_queue (fst lp) = m_task_queue (ls_l s)"
  shows "sys_inv ((upd i lp s)\<lparr>ls_started := ls_started s @ starts'\<rparr>)"
proof -
  have "core_inv (ls_l s) ((rl, p) # others i (ls_thr s))"
    using inv core_inv_head [OF i(1), of "ls_l s"] i(2) by (simp add: sys_inv_def)
  from step [OF this] have "core_inv (fst lp) ((ls_thr s)[i := (rl, snd lp)])"
    using core_inv_upd [OF i(1)] by simp
  then show ?thesis using inv i(2) by (simp add: sys_inv_def task)
qed

lemma sys_inv_step:
  assumes inv: "sys_inv s" and i: "i < length (ls_thr s)" "ls_thr s ! i = (rl, p)"
    and step: "core_inv (ls_l s) ((rl, p) # others i (ls_thr s)) \<Longrightarrow> core_inv (fst lp) ((rl, snd lp) # others i (ls_thr s))"
    and task: "m_task_queue (fst lp) = m_task_queue (ls_l s)"
  shows "sys_inv (upd i lp s)"
  using sys_inv_upd [OF inv i step, of "[]"] task by (simp add: sys_inv_def)

lemma queue_kept [simp]:
  "m_task_queue (kernel_reactivate ke l) = m_task_queue l" "m_task_queue (kernel_remove ke l) = m_task_queue l"
  "m_task_queue (reset_handler i l) = m_task_queue l"
  by (simp_all add: kernel_reactivate_def kernel_remove_def reset_handler_def Let_def split: prod.split)

lemma queue_kept_pieces [simp]:
  "m_task_queue (after_handler ke re rm cont l) = m_task_queue l" "m_task_queue (fst (dispatch rl ke l)) = m_task_queue l"
  "m_task_queue (fst (ev_more ke h re rm l)) = m_task_queue l" "m_task_queue (fst (ev_next ke h re rm l)) = m_task_queue l"
  "m_task_queue (fst (ev_remove ke h re rm l)) = m_task_queue l" "m_task_queue (fst (poll_publish evs l)) = m_task_queue l"
  "m_task_queue (fst (process_handler rdy ke l)) = m_task_queue l" "m_task_queue (fst (poll_return rl rdy l)) = m_task_queue l"
  "m_task_queue (fst (do_out_write rl ke l)) = m_task_queue l"
  by (auto simp: after_handler_def dispatch_def ev_more_def ev_next_def ev_remove_def event_more_def event_next_def event_remove_def
      poll_publish_def next_backlog_def process_handler_def poll_return_def do_out_write_def Let_def
      split: option.splits outcome.splits prod.splits role.splits)

lemma core_env:
  assumes inv: "core_inv l ths" and out: "out_inv (oflight ths) (m_out (set_loop_os os' l))"
    and k: "ep_wf (m_kernel l) os'" "armed (m_kernel l) os' \<subseteq> armed (m_kernel l) (loop_os l)"
  shows "core_inv (set_loop_os os' l) ths"
proof -
  have fl: "flight (set_loop_os os' l) ths = flight l ths" by (simp add: flight_def backlog_left_def set_loop_os_def)
  show ?thesis using inv out k exclusive_shrink [OF core_invD(8) [OF inv] k(2)]
    unfolding core_inv_def fl by (simp add: set_loop_os_def set_os_def)
qed

lemma open_fd_inv:
  assumes inv: "core_inv l ths" and o: "sys_openfd (loop_os l) = (fd, os')"
  shows "core_inv (set_loop_os os' l) ths"
proof (rule core_env [OF inv])
  have sc: "os_script (loop_os l) = []" by (rule core_script [OF inv])
  have ep: "os_ep os' = os_ep (loop_os l)" using o sc by (auto simp: sys_openfd_def sys_fail_def Let_def split: if_splits)
  then show "ep_wf (m_kernel l) os'" "armed (m_kernel l) os' \<subseteq> armed (m_kernel l) (loop_os l)"
    using core_invD(6) [OF inv] by (simp_all add: ep_wf_def armed_def ep_ready_def)
  show "out_inv (oflight ths) (m_out (set_loop_os os' l))"
    using out_inv_open [of "oflight ths" "fst (m_out l)" "snd (m_out l)" fd os'] core_invD(9) [OF inv] o by (simp add: set_loop_os_def)
qed

lemma other_call_inv:
  assumes inv: "core_inv l ths"
  shows "core_inv (set_loop_os ((loop_os l)\<lparr>os_errno := er, os_itimer := it\<rparr>) l) ths"
proof (rule core_env [OF inv])
  let ?os = "(loop_os l)\<lparr>os_errno := er, os_itimer := it\<rparr>"
  show "ep_wf (m_kernel l) ?os" "armed (m_kernel l) ?os \<subseteq> armed (m_kernel l) (loop_os l)"
    using core_invD(6) [OF inv] by (simp_all add: ep_wf_def armed_def ep_ready_def)
  show "out_inv (oflight ths) (m_out (set_loop_os ?os l))"
    using core_invD(9) [OF inv] by (rule out_inv_loop_os) (simp_all add: quiet_def)
qed

lemma close_fd_inv:
  assumes inv: "core_inv l ths" and fd: "\<not> pending (fst (m_out l)) fd" "fd \<noteq> m_ep (o_kernel (fst (m_out l)))" "fd \<noteq> m_ep (m_kernel l)"
  shows "core_inv (set_loop_os (sys_close fd (loop_os l)) l) ths"
proof (rule core_env [OF inv])
  show "ep_wf (m_kernel l) (sys_close fd (loop_os l))" "armed (m_kernel l) (sys_close fd (loop_os l)) \<subseteq> armed (m_kernel l) (loop_os l)"
    using core_invD(6) [OF inv] by (auto simp: sys_close_def ep_wf_def armed_def ep_ready_def split: option.splits if_splits)
  show "out_inv (oflight ths) (m_out (set_loop_os (sys_close fd (loop_os l)) l))"
    using out_inv_close [of "oflight ths" "fst (m_out l)" "snd (m_out l)" fd] core_invD(9) [OF inv] fd by (simp add: set_loop_os_def)
qed

lemma answer_inv:
  assumes inv: "core_inv l ths" and o: "m_out l = (m, w)"
  shows "core_inv (l\<lparr>m_out := (m, set_io fd io w)\<rparr>) ths"
proof -
  have fl: "flight (l\<lparr>m_out := x\<rparr>) ths = flight l ths" for x by (simp add: flight_def backlog_left_def)
  show ?thesis using inv o out_inv_world [of "set_io fd io w" w fd "oflight ths" m] unfolding core_inv_def fl by simp
qed

lemma loop_step_inv:
  assumes "loop_step alloc s s'" "sys_inv s" "alloc_bounded alloc"
  shows "sys_inv s'"
  using assms(1)
proof cases
  case (lock i)
  obtain rl where rl: "ls_thr s ! i = (rl, Start)" using lock by (metis prod.collapse)
  then show ?thesis using lock mutex_free_others
    by (auto intro!: sys_inv_step [OF assms(2), where p = Start and rl = rl] intro: core_pc)
next
  case (wake i rl)
  then show ?thesis using mutex_free_others
    by (auto intro!: sys_inv_step [OF assms(2), where p = Waiting and rl = rl] intro: core_pc split: role.split)
next
  case (locked i rl lp)
  have "piece_ok (ls_l s) rl (others i (ls_thr s)) lp" if "core_inv (ls_l s) ((rl, Locked) # others i (ls_thr s))"
    using that locked(4) retry_task_piece run_once_piece by (cases rl) auto
  moreover have "core_inv (ls_l s) ((rl, Locked) # others i (ls_thr s))"
    using assms(2) core_inv_head [OF locked(2), of "ls_l s"] locked(3) by (simp add: sys_inv_def)
  ultimately show ?thesis unfolding locked(1)
    by (intro sys_inv_upd [OF assms(2) locked(2,3)]) (simp_all add: piece_ok_def)
next
  case (unlocked_queue i lp)
  obtain rl where rl: "ls_thr s ! i = (rl, Do_queue)" using unlocked_queue by (metis prod.collapse)
  have "piece_ok (ls_l s) rl (others i (ls_thr s)) lp" if "core_inv (ls_l s) ((rl, Do_queue) # others i (ls_thr s))"
    using that unlocked_queue(4) do_queue_piece by auto
  moreover have "core_inv (ls_l s) ((rl, Do_queue) # others i (ls_thr s))"
    using assms(2) core_inv_head [OF unlocked_queue(2), of "ls_l s"] rl by (simp add: sys_inv_def)
  ultimately show ?thesis unfolding unlocked_queue(1)
    by (intro sys_inv_upd [OF assms(2) unlocked_queue(2) rl]) (simp_all add: piece_ok_def)
next
  case (poll i rl rdy)
  then show ?thesis by (auto intro!: sys_inv_step [OF assms(2), where p = Polling and rl = rl] poll_return_inv)
next
  case (publish i evs)
  obtain rl where rl: "ls_thr s ! i = (rl, Polled evs)" using publish by (metis prod.collapse)
  then show ?thesis using publish mutex_free_others
    by (auto intro!: sys_inv_step [OF assms(2), where p = "Polled evs" and rl = rl] poll_publish_inv)
next
  case (process i ke rdy)
  obtain rl where rl: "ls_thr s ! i = (rl, Process ke)" using process by (metis prod.collapse)
  then show ?thesis using process
    by (auto intro!: sys_inv_step [OF assms(2), where p = "Process ke" and rl = rl] process_handler_inv)
next
  case (react_out i rl ke)
  then show ?thesis using core_again [of rl]
    by (auto intro!: sys_inv_step [OF assms(2), where p = "React_out ke" and rl = rl] core_reactivate)
next
  case (dispatch i rl ke)
  then show ?thesis
    by (auto intro!: sys_inv_step [OF assms(2), where p = "Dispatch ke" and rl = rl] dispatch_inv)
next
  case (more i ke h re rm)
  obtain rl where rl: "ls_thr s ! i = (rl, Handling ke h re rm)" using more by (metis prod.collapse)
  then show ?thesis using more
    by (auto intro!: sys_inv_step [OF assms(2), where p = "Handling ke h re rm" and rl = rl] ev_more_inv)
next
  case (rearm i ke h re rm)
  obtain rl where rl: "ls_thr s ! i = (rl, Handling ke h re rm)" using rearm by (metis prod.collapse)
  then show ?thesis using rearm
    by (auto intro!: sys_inv_step [OF assms(2), where p = "Handling ke h re rm" and rl = rl] ev_next_inv)
next
  case (discard i ke h re rm)
  obtain rl where rl: "ls_thr s ! i = (rl, Handling ke h re rm)" using discard by (metis prod.collapse)
  then show ?thesis using discard
    by (auto intro!: sys_inv_step [OF assms(2), where p = "Handling ke h re rm" and rl = rl] ev_remove_inv)
next
  case (finish i rl ke h re rm cont)
  then show ?thesis
    by (auto intro!: sys_inv_step [OF assms(2), where p = "Handling ke h re rm" and rl = rl] after_handler_inv)
next
  case (write_out i rl ke)
  then show ?thesis
    by (auto intro!: sys_inv_step [OF assms(2), where p = "Do_out ke" and rl = rl] do_out_write_inv)
next
  case (task_done i rl t fin)
  have "core_inv l ((rl, Run_task t fin) # T) \<Longrightarrow> core_inv l ((rl, if fin then Notify else again rl) # T)" for l T
    using core_again [of rl] by (erule_tac core_pc) (auto simp: idle_pc_def)
  then show ?thesis using task_done
    by (auto intro!: sys_inv_step [OF assms(2), where p = "Run_task t fin" and rl = rl])
next
  case (notify i rl)
  have "core_inv l ((rl, Notify) # T) \<Longrightarrow> core_inv l ((rl, again rl) # T)" for l T
    using core_again [of rl] by (erule_tac core_pc) (auto simp: idle_pc_def)
  then show ?thesis using notify
    by (auto intro!: sys_inv_step [OF assms(2), where p = Notify and rl = rl])
next
  case (submit f)
  then show ?thesis using assms(2) by (simp add: sys_inv_def submit_impl_def)
next
  case stop
  then show ?thesis using assms(2) by (simp add: sys_inv_def loop_end_def)
next
  case (add fd h l)
  then show ?thesis using assms(2) add_handler_inv [of "ls_l s" "ls_thr s" fd h l] by (simp add: sys_inv_def)
next
  case (add_fails fd h e l)
  then show ?thesis using assms(2) add_handler_fails_inv [of "ls_l s" "ls_thr s" fd h e l] by (simp add: sys_inv_def)
next
  case (drop fd)
  then show ?thesis using assms(2) remove_handler_inv [of "ls_l s" "ls_thr s" fd] by (simp add: sys_inv_def)
next
  case (out_submit fd rq st failed e)
  then show ?thesis using assms(2) out_submit_inv [OF _ assms(3), of "ls_l s" "ls_thr s" fd rq st e] by (auto simp: sys_inv_def)
next
  case (answer m w fd sc)
  then show ?thesis using assms(2) answer_inv by (simp add: sys_inv_def)
next
  case (open_fd fd os')
  then show ?thesis using assms(2) open_fd_inv by (auto simp: sys_inv_def set_loop_os_def)
next
  case (close_fd fd)
  then show ?thesis using assms(2) close_fd_inv by (auto simp: sys_inv_def set_loop_os_def)
next
  case (other_call os' er it)
  then show ?thesis using assms(2) other_call_inv by (auto simp: sys_inv_def set_loop_os_def)
next
  case (spawn rl)
  have "core_inv (ls_l s) ((rl, Start) # ls_thr s)" using assms(2) by (simp add: sys_inv_def core_client)
  then have "core_inv (ls_l s) (ls_thr s @ [(rl, Start)])" by (subst core_inv_perm) simp_all
  then show ?thesis using spawn assms(2) by (simp add: sys_inv_def)
qed

definition start_loop :: "loop_impl \<Rightarrow> lsys" where
  "start_loop l = \<lparr>ls_l = l, ls_thr = [], ls_sub = [], ls_started = [], ls_osub = (\<lambda>_. []), ls_obad = {}\<rparr>"

inductive loop_reach :: "(size_t \<Rightarrow> bool) \<Rightarrow> lsys \<Rightarrow> bool" for alloc where
  start: "os_wf os \<Longrightarrow> os_script os = [] \<Longrightarrow> loop_new alloc os = Ret l os' \<Longrightarrow> loop_reach alloc (start_loop l)"
| step: "loop_reach alloc s \<Longrightarrow> loop_step alloc s s' \<Longrightarrow> loop_reach alloc s'"

lemma sys_openfd_wf:
  assumes "os_wf os" "os_script os = []" "sys_openfd os = (fd, os')" "\<not> fd < 0"
  shows "os_wf os' \<and> os_script os' = [] \<and> os_ep os' = os_ep os \<and> os_ep os' fd = (\<lambda>_. None) \<and> fd \<in> set (os_open os') \<and> fd \<notin> set (os_open os) \<and>
    set (os_open os) \<subseteq> set (os_open os')"
proof -
  have r: "fd = fresh_fd (os_open os)" "os' = os\<lparr>os_open := fresh_fd (os_open os) # os_open os\<rparr>"
    using assms(2-4) by (auto simp: sys_openfd_def sys_fail_def Let_def split: if_splits)
  have "os_ep os fd = (\<lambda>_. None)" using assms(1) r(1) by (auto simp: os_wf_def fun_eq_iff)
  then show ?thesis using assms(1,2) r by (auto simp: os_wf_def)
qed

text \<open>The constructor step by step, when no call fails.\<close>

lemma loop_new_parts:
  assumes "os_wf os" "os_script os = []" "loop_new alloc os = Ret l os'"
  obtains k os1 m os2 os3 where
    "os_wf os1" "os_script os1 = []" "out_new alloc os1 = Ret m os2"
    "quiet os2 os3" "os_ep os3 (m_ep (o_kernel m)) = os_ep os2 (m_ep (o_kernel m))"
    "ep_wf k os3" "m_ep k \<noteq> m_ep (o_kernel m)"
    "l = \<lparr>m_off = 0, m_num = 0, m_pollable = True, m_end_flag = False, m_backlog = [],
      m_state = (\<lambda>_. None)(m_ep (o_kernel m) \<mapsto> 0), m_kernel = k, m_task_queue = [], m_more_queue = [],
      m_out = (m, \<lparr>wd_os = os3, wd_io = (\<lambda>_. ([], []))\<rparr>)\<rparr>"
proof -
  obtain fd os1 where o: "sys_openfd os = (fd, os1)" by fastforce
  have fd: "\<not> fd < 0" using assms(3) o by (auto simp: loop_new_def kernel_new_def split: if_splits)
  note w1 = sys_openfd_wf [OF assms(1,2) o fd]
  let ?k = "\<lparr>m_ep = fd\<rparr>"
  obtain m os2 where n: "out_new alloc os1 = Ret m os2"
    using assms(3) o fd w1 by (auto simp: loop_new_def kernel_new_def kernel_max_def sys_take_def split: outcome.splits if_splits)
  obtain r os3 where a: "add_kernel ?k (o_kernel m) os2 = (r, os3)" by fastforce
  have l: "l = \<lparr>m_off = 0, m_num = 0, m_pollable = True, m_end_flag = False, m_backlog = [],
      m_state = (\<lambda>_. None)(m_ep (o_kernel m) \<mapsto> 0), m_kernel = ?k, m_task_queue = [], m_more_queue = [],
      m_out = (m, \<lparr>wd_os = os3, wd_io = (\<lambda>_. ([], []))\<rparr>)\<rparr>"
    using assms(3) o fd w1 n a by (auto simp: loop_new_def kernel_new_def kernel_max_def sys_take_def split: if_splits)
  obtain fd2 os4 where s2: "sys_openfd os1 = (fd2, os4)" by fastforce
  have nn: "\<not> fd2 < 0" using n s2 by (auto simp: out_new_def kernel_new_def split: if_splits)
  have "os_script os4 = []" using sys_openfd_wf [OF _ _ s2 nn] w1 by blast
  then have k2: "\<not> fd2 < 0" "m_ep (o_kernel m) = fd2" "os2 = os4"
    using n s2 nn by (auto simp: out_new_def kernel_new_def kernel_max_def sys_take_def split: if_splits)
  note w2 = sys_openfd_wf [OF _ _ s2 k2(1)]
  have ne: "fd2 \<noteq> fd" using w1 w2 by auto
  obtain r3 os5 where a3: "add_fd ?k EVKERNEL_READ fd2 os2 = (r3, os5)" by fastforce
  then have os3: "os3 = os5" using a k2(2) by (auto simp: add_kernel_def Let_def split: if_splits)
  have "os_ep os2 fd = (\<lambda>_. None)" using w1 w2 k2(3) by metis
  then have wf2: "ep_wf ?k os2" by (simp add: ep_wf_def)
  have sc2: "os_script os2 = []" using w1 w2 k2(3) by simp
  have fd2ok: "fdok fd2" using sys_openfd_result [OF s2] k2(1) w1 by (auto simp: fdok_def)
  have wf3: "ep_wf ?k os3" using epoll_add_law [OF wf2 fd2ok a3] os3 by blast
  have q: "quiet os2 os3" using kernel_quiet(1) [OF sc2 a3] os3 by simp
  have "os_ep os3 (m_ep (o_kernel m)) = os_ep os2 (m_ep (o_kernel m))" using kernel_other(1) [OF a3] os3 ne k2(2) by simp
  then show thesis using that [OF _ _ n q _ wf3 _ l] w1 ne k2(2) by simp
qed

lemma loop_new_inv:
  assumes "os_wf os" "os_script os = []" "loop_new alloc os = Ret l os'"
  shows "core_inv l []" "m_task_queue l = []"
proof -
  have "core_inv l [] \<and> m_task_queue l = []"
    using assms
  proof (rule loop_new_parts)
    fix k os1 m os2 os3
    assume n: "os_wf os1" "os_script os1 = []" "out_new alloc os1 = Ret m os2"
      and q: "quiet os2 os3" "os_ep os3 (m_ep (o_kernel m)) = os_ep os2 (m_ep (o_kernel m))"
      and k: "ep_wf k os3" "m_ep k \<noteq> m_ep (o_kernel m)"
      and l: "l = \<lparr>m_off = 0, m_num = 0, m_pollable = True, m_end_flag = False, m_backlog = [],
        m_state = (\<lambda>_. None)(m_ep (o_kernel m) \<mapsto> 0), m_kernel = k, m_task_queue = [], m_more_queue = [],
        m_out = (m, \<lparr>wd_os = os3, wd_io = (\<lambda>_. ([], []))\<rparr>)\<rparr>"
    have o2: "out_inv [] (m, \<lparr>wd_os = os2, wd_io = (\<lambda>_. ([], []))\<rparr>)" using out_new_result [OF n] by blast
    have "out_inv [] (m, set_os os3 \<lparr>wd_os = os2, wd_io = (\<lambda>_. ([], []))\<rparr>)"
      using q out_invD(4,9) [OF o2] by (intro out_inv_os [OF o2]) (auto simp: quiet_def)
    then have o3: "out_inv [] (m, \<lparr>wd_os = os3, wd_io = (\<lambda>_. ([], []))\<rparr>)" by (simp add: set_os_def)
    have "core_inv l []" using o3 k by (intro core_invI) (simp_all add: l flight_def backlog_left_def)
    then show ?thesis by (simp add: l)
  qed
  then show "core_inv l []" "m_task_queue l = []" by simp_all
qed

lemma loop_reach_inv:
  assumes "loop_reach alloc s" "alloc_bounded alloc"
  shows "sys_inv s"
  using assms(1)
proof induction
  case (start os l os')
  then show ?case using loop_new_inv [OF start] by (simp add: sys_inv_def start_loop_def)
next
  case (step s s')
  then show ?case using loop_step_inv assms(2) by blast
qed

section \<open>No thread dies\<close>

lemma do_task_alive: "m_task_queue l \<noteq> [] \<Longrightarrow> snd (do_task l) \<noteq> Died"
  by (auto simp: do_task_def split: list.split)

lemma do_out_alive: "has_queue (fst (m_out l)) \<Longrightarrow> snd (do_out l) \<noteq> Died"
  by (auto simp: do_out_def has_queue_def next_event_def split: list.split)

lemma locked_alive: "snd (retry_task l) \<noteq> Died" "snd (run_once b l) \<noteq> Died" "snd (do_queue b l) \<noteq> Died"
  using do_task_alive [of l] do_out_alive [of l]
  by (auto simp: retry_task_def run_once_def do_queue_def next_backlog_def split: list.split)

lemma again_alive: "again rl \<noteq> Died"
  by (cases rl) simp_all

lemma poll_return_alive:
  assumes "core_inv l ths"
  shows "snd (poll_return rl rdy l) \<noteq> Died"
proof -
  from wait_ok [OF core_script [OF assms], of "m_kernel l" rdy] obtain evs os' where
    "wait (m_kernel l) rdy (loop_os l) = (int (length evs), evs, os')" by blast
  then show ?thesis by (auto simp: poll_return_def Let_def split: role.split)
qed

lemma process_alive:
  assumes "core_inv l ths"
  shows "snd (process_handler rdy ke l) \<noteq> Died"
proof -
  obtain m w where mw: "m_out l = (m, w)" by fastforce
  have "out_inv (oflight ths) (m, w)" using core_invD(9) [OF assms] mw by simp
  from poll_event_result [OF this, of rdy] mw show ?thesis by (auto simp: process_handler_def)
qed

lemma write_alive:
  assumes inv: "core_inv l ((rl, Do_out ke) # T)"
  shows "snd (do_out_write rl ke l) \<noteq> Died"
proof -
  obtain m w where mw: "m_out l = (m, w)" by fastforce
  have o: "out_inv (ke # oflight T) (m, w)" using core_invD(9) [OF inv] mw by simp
  obtain x where x: "ctx_at (ident ke) m = Some x" "xf_inv x" using flight_ctx [OF o, of ke] by auto
  obtain c its' tr' sc' where ex: "exec_items (items x) (wd_io w (ident ke)) = (c, its', (tr', sc'))" by (metis prod_cases4)
  from write_event_result [OF o x ex] mw again_alive [of rl] show ?thesis by (auto simp: do_out_write_def split: if_splits)
qed

definition alive :: "lsys \<Rightarrow> bool" where
  "alive s \<longleftrightarrow> (\<forall>t\<in>set (ls_thr s). snd t \<noteq> Died)"

lemma alive_upd: "alive s \<Longrightarrow> snd lp \<noteq> Died \<Longrightarrow> alive (upd i lp s)"
  by (auto simp: alive_def dest!: set_update_subset_insert [THEN subsetD])

lemma alive_started [simp]: "alive (s\<lparr>ls_started := x\<rparr>) = alive s"
  by (simp add: alive_def)

lemma loop_step_alive:
  assumes "loop_step alloc s s'" "sys_inv s" "alive s"
  shows "alive s'"
  using assms(1)
proof cases
  case (locked i rl lp)
  then show ?thesis using alive_upd [OF assms(3), of lp i] locked_alive by (cases rl) auto
next
  case (unlocked_queue i lp)
  then show ?thesis using alive_upd [OF assms(3), of lp i] locked_alive by auto
next
  case (poll i rl rdy)
  then show ?thesis using assms(2,3) poll_return_alive by (auto simp: sys_inv_def intro!: alive_upd)
next
  case (process i ke rdy)
  then show ?thesis using assms(2,3) process_alive by (auto simp: sys_inv_def intro!: alive_upd)
next
  case (write_out i rl ke)
  then have "core_inv (ls_l s) ((rl, Do_out ke) # others i (ls_thr s))"
    using assms(2) core_inv_head [of i "ls_thr s" "ls_l s"] by (simp add: sys_inv_def)
  then show ?thesis using write_out assms(3) write_alive by (auto intro!: alive_upd)
qed (use assms(3) again_alive in \<open>auto intro!: alive_upd simp: poll_publish_def next_backlog_def dispatch_def ev_more_def
      ev_next_def ev_remove_def split: option.splits role.splits\<close>, auto simp: alive_def)

lemma loop_reach_alive:
  assumes "loop_reach alloc s" "alloc_bounded alloc"
  shows "alive s"
  using assms(1)
proof induction
  case (start os l os')
  then show ?case by (simp add: alive_def start_loop_def)
next
  case (step s s')
  then show ?case using loop_step_alive loop_reach_inv assms(2) by blast
qed

end
