(* ===== verification/Loop_Props.thy ===== *)
theory Loop_Props
  imports Loop_Runs
begin

text \<open>
  What the runs of the event loop guarantee: one holder of the mutex and one polling thread, every
  event with one owner, tasks started in order and once, and an orderly end; and where the loop
  falls short of what it means to do.
\<close>

section \<open>A loop to run\<close>

definition sample_loop :: loop_impl where
  "sample_loop =
     \<lparr>m_off = 0, m_num = 0, m_pollable = True, m_end_flag = False, m_backlog = [], m_state = [5 \<mapsto> 0],
      m_kernel = \<lparr>m_ep = 4\<rparr>, m_task_queue = [], m_more_queue = [],
      m_out = (\<lparr>o_kernel = \<lparr>m_ep = 5\<rparr>, o_ctx = replicate 64 xfer_new, o_watching = 0, o_queue = []\<rparr>,
        \<lparr>wd_os = snd (add_kernel \<lparr>m_ep = 4\<rparr> \<lparr>m_ep = 5\<rparr> (os_sample []\<lparr>os_open := [5, 4, 3, 2, 1, 0]\<rparr>)),
         wd_io = (\<lambda>_. ([], []))\<rparr>)\<rparr>"

lemma sample_loop_new: "\<exists>os. loop_new sample_alloc (os_sample []) = Ret sample_loop os"
proof -
  have s: "os_sample [] = \<lparr>os_open = [3, 2, 1, 0], os_nofile = 64, os_ep = (\<lambda>_ _. None), os_nonblock = [], os_timers = [],
      os_itimer = (\<lambda>_. None), os_script = [], os_errno = EAGAIN, os_shutdown = []\<rparr>" by (simp add: os_sample_def)
  have k: "kernel_new (os_sample []) = Ret \<lparr>m_ep = 4\<rparr> (os_sample []\<lparr>os_open := [4, 3, 2, 1, 0]\<rparr>)"
    by (simp add: s kernel_new_def sys_openfd_def sys_call_def sys_take_def fresh_fd_def Let_def)
  have o: "out_new sample_alloc (os_sample []\<lparr>os_open := [4, 3, 2, 1, 0]\<rparr>) =
      Ret \<lparr>o_kernel = \<lparr>m_ep = 5\<rparr>, o_ctx = replicate 64 xfer_new, o_watching = 0, o_queue = []\<rparr>
        (os_sample []\<lparr>os_open := [5, 4, 3, 2, 1, 0]\<rparr>)"
    by (simp add: s out_new_def sample_alloc_def kernel_new_def sys_openfd_def sys_call_def sys_take_def fresh_fd_def kernel_max_def Let_def)
  have m: "kernel_max (os_sample []\<lparr>os_open := [4, 3, 2, 1, 0]\<rparr>) = Ret 64 (os_sample []\<lparr>os_open := [4, 3, 2, 1, 0]\<rparr>)"
    by (simp add: s kernel_max_def sys_take_def)
  show ?thesis by (simp add: loop_new_def k m o sample_loop_def sample_alloc_def split: prod.split)
qed

lemma sample_loop_reach: "loop_reach sample_alloc (start_loop sample_loop)"
proof -
  from sample_loop_new obtain os where "loop_new sample_alloc (os_sample []) = Ret sample_loop os" by blast
  moreover have "os_script (os_sample []) = []" by (simp add: os_sample_def)
  ultimately show ?thesis using loop_reach.start os_sample_wf by blast
qed

text \<open>
  A schedule: which thread moves next, what the environment reports ready, what clients do. Performing
  one gives a state that the step relation reaches.
\<close>

datatype act =
    Lock nat
  | Go nat "int list"
  | Finish nat bool
  | Submit nat
  | Stop
  | Add int nat
  | Spawn role

definition go :: "nat \<Rightarrow> int list \<Rightarrow> lsys \<Rightarrow> lsys option" where
  "go i rdy s =
     (case ls_thr s ! i of
        (rl, Locked) \<Rightarrow>
          let lp = (case rl of Worker \<Rightarrow> retry_task (ls_l s) | Once b \<Rightarrow> run_once b (ls_l s)) in
          Some ((upd i lp s)\<lparr>ls_started := ls_started s @ starts (snd lp)\<rparr>)
      | (rl, Do_queue) \<Rightarrow>
          let lp = do_queue False (ls_l s) in Some ((upd i lp s)\<lparr>ls_started := ls_started s @ starts (snd lp)\<rparr>)
      | (rl, Polling) \<Rightarrow> Some (upd i (poll_return rl rdy (ls_l s)) s)
      | (rl, Polled evs) \<Rightarrow> if mutex_free (ls_thr s) then Some (upd i (poll_publish evs (ls_l s)) s) else None
      | (rl, Process ke) \<Rightarrow> Some (upd i (process_handler rdy ke (ls_l s)) s)
      | (rl, React_out ke) \<Rightarrow> Some (upd i (kernel_reactivate ke (ls_l s), again rl) s)
      | (rl, Dispatch ke) \<Rightarrow> Some (upd i (dispatch rl ke (ls_l s)) s)
      | (rl, Do_out ke) \<Rightarrow> Some (upd i (do_out_write rl ke (ls_l s)) s)
      | (rl, Run_task t fin) \<Rightarrow> Some (upd i (ls_l s, if fin then Notify else again rl) s)
      | (rl, Notify) \<Rightarrow> if mutex_free (ls_thr s) then Some (upd i (ls_l s, again rl) s) else None
      | _ \<Rightarrow> None)"

fun perform :: "act \<Rightarrow> lsys \<Rightarrow> lsys option" where
  "perform (Lock i) s =
     (if i < length (ls_thr s) \<and> mutex_free (ls_thr s) \<and> snd (ls_thr s ! i) = Start
      then Some (upd i (ls_l s, Locked) s) else None)"
| "perform (Go i rdy) s = (if i < length (ls_thr s) then go i rdy s else None)"
| "perform (Finish i cont) s =
     (if i < length (ls_thr s)
      then case ls_thr s ! i of
          (rl, Handling ke h re rm) \<Rightarrow> Some (upd i (after_handler ke re rm cont (ls_l s), again rl) s)
        | _ \<Rightarrow> None
      else None)"
| "perform (Submit f) s =
     (if mutex_free (ls_thr s) then Some (s\<lparr>ls_l := submit_impl f (ls_l s), ls_sub := ls_sub s @ [f]\<rparr>) else None)"
| "perform Stop s = Some (s\<lparr>ls_l := loop_end (ls_l s)\<rparr>)"
| "perform (Add fd h) s =
     (if fdok fd \<and> fd \<notin> set (map ident (flight (ls_l s) (ls_thr s)))
      then case add_handler_impl fd h (ls_l s) of Ret u l \<Rightarrow> Some (s\<lparr>ls_l := l\<rparr>) | _ \<Rightarrow> None
      else None)"
| "perform (Spawn rl) s = Some (s\<lparr>ls_thr := ls_thr s @ [(rl, Start)]\<rparr>)"

fun performs :: "act list \<Rightarrow> lsys \<Rightarrow> lsys option" where
  "performs [] s = Some s"
| "performs (a # as) s = (case perform a s of None \<Rightarrow> None | Some s' \<Rightarrow> performs as s')"

lemma go_sound: "go i rdy s = Some s' \<Longrightarrow> i < length (ls_thr s) \<Longrightarrow> loop_step alloc s s'"
  by (cases "ls_thr s ! i"; cases "snd (ls_thr s ! i)")
     (auto simp: go_def Let_def split: if_splits intro: loop_step.intros dest: loop_step.task_done)

lemma perform_sound: "perform a s = Some s' \<Longrightarrow> loop_step alloc s s'"
  by (cases a) (auto simp: go_sound split: if_splits prod.splits pc.splits outcome.splits intro: loop_step.intros)

lemma performs_reach: "loop_reach alloc s \<Longrightarrow> performs as s = Some s' \<Longrightarrow> loop_reach alloc s'"
  by (induction as arbitrary: s) (auto dest: loop_reach.step [OF _ perform_sound] split: option.splits)

definition run_sample :: "act list \<Rightarrow> lsys" where
  "run_sample as = (case performs as (start_loop sample_loop) of None \<Rightarrow> start_loop sample_loop | Some s \<Rightarrow> s)"

lemma run_sample_reach: "loop_reach sample_alloc (run_sample as)"
  using performs_reach [OF sample_loop_reach, of as] sample_loop_reach by (auto simp: run_sample_def split: option.split)


section \<open>What holds in every reachable state\<close>








section \<open>The end of the loop\<close>








lemma end_stays [simp]:
  "m_end_flag (set_loop_os os l) = m_end_flag l" "m_end_flag (kernel_reactivate ke l) = m_end_flag l"
  "m_end_flag (kernel_remove ke l) = m_end_flag l" "m_end_flag (reset_handler i l) = m_end_flag l"
  "m_end_flag (set_handler i h l) = m_end_flag l" "m_end_flag (remove_handler i l) = m_end_flag l"
  "m_end_flag (submit_impl f l) = m_end_flag l" "m_end_flag (loop_end l)"
  by (simp_all add: set_loop_os_def kernel_reactivate_def kernel_remove_def reset_handler_def set_handler_def remove_handler_def
      submit_impl_def loop_end_def Let_def split: prod.split)

lemma end_stays_pieces [simp]:
  "m_end_flag (after_handler ke re rm cont l) = m_end_flag l" "m_end_flag (fst (dispatch rl ke l)) = m_end_flag l"
  "m_end_flag (fst (ev_more ke h re rm l)) = m_end_flag l" "m_end_flag (fst (ev_next ke h re rm l)) = m_end_flag l"
  "m_end_flag (fst (ev_remove ke h re rm l)) = m_end_flag l" "m_end_flag (fst (poll_publish evs l)) = m_end_flag l"
  "m_end_flag (fst (process_handler rdy ke l)) = m_end_flag l" "m_end_flag (fst (poll_return rl rdy l)) = m_end_flag l"
  "m_end_flag (fst (do_out_write rl ke l)) = m_end_flag l"
  "m_end_flag (fst (do_queue b l)) = m_end_flag l"
  by (auto simp: after_handler_def dispatch_def ev_more_def ev_next_def ev_remove_def event_more_def event_next_def event_remove_def
      poll_publish_def next_backlog_def process_handler_def poll_return_def do_out_write_def do_queue_def do_out_def do_task_def Let_def
      split: option.splits outcome.splits prod.splits role.splits list.splits)













section \<open>Where the loop falls short\<close>

text \<open>
  C27. A single worker never serves output or tasks while the queue is short: with up to
  \<open>MP_WAVY_TASK_QUEUE_LIMIT\<close> tasks waiting, and whatever output is ready, the worker alone goes on to
  poll or to handle an event, because \<open>do_out\<close> and \<open>do_task\<close> are only taken while another thread
  polls; if it polls and nothing is ready it polls again.
\<close>
theorem single_worker_starves:
  assumes "loop_reach alloc s" and "alloc_bounded alloc" and "ls_thr s = [(Worker, Locked)]"
    and "length (m_task_queue (ls_l s)) \<le> MP_WAVY_TASK_QUEUE_LIMIT"
  shows "\<exists>l p. retry_task (ls_l s) = (l, p) \<and> (p = Exited \<or> p = Polling \<or> (\<exists>ke. p = Process ke)) \<and>
     m_task_queue l = m_task_queue (ls_l s) \<and> m_out l = m_out (ls_l s) \<and>
     (p = Polling \<longrightarrow> (\<exists>l'. poll_return Worker [] l = (l', Polling) \<and> m_task_queue l' = m_task_queue (ls_l s)))"
proof -
  have c: "core_inv (ls_l s) (ls_thr s)" using loop_reach_inv [OF assms(1,2)] by (simp add: sys_inv_def)
  have p: "m_pollable (ls_l s)" using core_invD(3) [OF c] assms(3) by auto
  have sc: "os_script (loop_os (ls_l s)) = []" using core_script [OF c] .
  have again: "\<exists>l'. poll_return Worker [] (ls_l s\<lparr>m_pollable := False\<rparr>) = (l', Polling) \<and> m_task_queue l' = m_task_queue (ls_l s)"
    if "\<not> m_end_flag (ls_l s)"
    using that sc by (simp add: poll_return_def wait_def epoll_wait_def sys_take_def Let_def set_loop_os_def)
  show ?thesis
  proof (cases "m_end_flag (ls_l s)")
    case False
    then show ?thesis using p assms(4) again [OF False]
      by (cases "m_more_queue (ls_l s)") (auto simp: retry_task_def next_backlog_def not_less)
  qed (simp add: retry_task_def)
qed

theorem single_worker_starves_witness:
  "let s = run_sample [Spawn Worker, Submit 7, Lock 0] in
   m_task_queue (ls_l s) = [7] \<and> (\<exists>l. retry_task (ls_l s) = (l, Polling) \<and>
     (\<exists>l'. poll_return Worker [] l = (l', Polling) \<and> m_task_queue l' = [7]))"
proof -
  let ?s = "run_sample [Spawn Worker, Submit 7, Lock 0]"
  have t: "ls_thr ?s = [(Worker, Locked)]" "m_task_queue (ls_l ?s) = [7]" by code_simp+
  have q: "length (m_task_queue (ls_l ?s)) \<le> MP_WAVY_TASK_QUEUE_LIMIT" by (simp add: t MP_WAVY_TASK_QUEUE_LIMIT_def)
  have p: "snd (retry_task (ls_l ?s)) = Polling" by code_simp
  from single_worker_starves [OF run_sample_reach sample_alloc_bounded t(1) q] show ?thesis using t p by (auto simp: Let_def)
qed

text \<open>
  When the kernel fails in \<open>wait\<close> with an error other than \<open>EINTR\<close> and \<open>EAGAIN\<close>, the exception leaves
  \<open>m_pollable\<close> false although nobody polls: the thread is gone, and a later \<open>run_once\<close> on the idle loop
  waits for a signal that no poller will send.
\<close>
lemma poll_failure_wedges:
  assumes "os_script (loop_os l) = Some e # sc" and "e \<noteq> EINTR" and "e \<noteq> EAGAIN" and "\<not> m_pollable l"
  shows "\<exists>l'. poll_return rl rdy l = (l', Died) \<and> \<not> m_pollable l' \<and>
     (\<not> m_end_flag l \<and> m_more_queue l = [] \<and> \<not> has_queue (fst (m_out l)) \<and> m_task_queue l = [] \<longrightarrow>
        run_once True l' = (l', Waiting) \<and> retry_task l' = (l', Waiting))"
  using assms
  by (auto simp: poll_return_def wait_def epoll_wait_def sys_take_def Let_def set_loop_os_def run_once_def do_queue_def retry_task_def)

lemma poll_failure_wedges_witness:
  "let l = set_loop_os (os_sample [Some EBADF]) (sample_loop\<lparr>m_pollable := False\<rparr>) in
   \<exists>l'. poll_return (Once True) [] l = (l', Died) \<and> \<not> m_pollable l' \<and> run_once True l' = (l', Waiting) \<and> retry_task l' = (l', Waiting)"
proof -
  let ?l = "set_loop_os (os_sample [Some EBADF]) (sample_loop\<lparr>m_pollable := False\<rparr>)"
  have "os_script (loop_os ?l) = [Some EBADF]" "\<not> m_pollable ?l" "\<not> m_end_flag ?l" "m_more_queue ?l = []"
    "\<not> has_queue (fst (m_out ?l))" "m_task_queue ?l = []" by code_simp+
  with poll_failure_wedges [of ?l EBADF "[]" "Once True" "[]"] show ?thesis by (simp add: Let_def)
qed

text \<open>
  After an empty poll \<open>run_nonblock\<close> jumps to \<open>do_queue\<close> without the mutex: a state is reachable in
  which another thread holds the mutex and both are about to take the same task from the queue.
\<close>
lemma run_nonblock_unlocked:
  "\<exists>s f. loop_reach sample_alloc s \<and> ls_thr s = [(Once False, Do_queue), (Once True, Locked)] \<and>
     snd (do_queue False (ls_l s)) = Run_task f True \<and> snd (run_once True (ls_l s)) = Run_task f True"
proof (intro exI conjI)
  let ?as = "[Spawn (Once False), Spawn (Once True), Lock 0, Go 0 [], Go 0 [], Submit 7, Lock 1]"
  show "loop_reach sample_alloc (run_sample ?as)" by (rule run_sample_reach)
  show "ls_thr (run_sample ?as) = [(Once False, Do_queue), (Once True, Locked)]" by code_simp
  show "snd (do_queue False (ls_l (run_sample ?as))) = Run_task 7 True" by code_simp
  show "snd (run_once True (ls_l (run_sample ?as))) = Run_task 7 True" by code_simp
qed

text \<open>
  A descriptor that is removed and added again while one of its events is on its way gets two owners. The
  event was reported before \<open>remove_handler\<close>, which cannot take it back; \<open>add_handler\<close> arms the
  descriptor again, the kernel reports it a second time, and both threads look up the new handler and
  run it at the same time. No client can know of the first event, so nobody can avoid this.
\<close>
lemma readded_handler_runs_twice:
  assumes "loop_reach alloc s" and "alloc_bounded alloc" and "i < length (ls_thr s)" and "ls_thr s ! i = (rl, Dispatch ke)"
    and "fdok (ident ke)" and "ident ke \<in> set (os_open (loop_os (ls_l s)))"
  shows "\<exists>l2 l3 e. add_handler_impl (ident ke) h (remove_handler (ident ke) (ls_l s)) = Ret () l2 \<and>
     poll_return Worker [ident ke] l2 = (l3, Polled [e]) \<and> ident e = ident ke \<and>
     dispatch rl ke l3 = (l3, Handling ke h False False) \<and> dispatch Worker e l3 = (l3, Handling e h False False)"
proof -
  have core: "core_inv (ls_l s) (ls_thr s)" using loop_reach_inv [OF assms(1,2)] by (simp add: sys_inv_def)
  let ?fd = "ident ke" and ?k = "m_kernel (ls_l s)" and ?l = "reset_handler (ident ke) (ls_l s)"
  have sc: "os_script (loop_os (ls_l s)) = []" by (rule core_script [OF core])
  obtain r1 os1 where r1: "remove_fd ?k ?fd (loop_os (ls_l s)) = (r1, os1)" by fastforce
  note q1 = kernel_quiet(4) [OF sc r1]
  have sc1: "os_script os1 = []" "?fd \<in> set (os_open os1)" using q1 sc assms(6) by (simp_all add: quiet_def)
  have gone: "\<not> registered ?k os1 ?fd" using r1 sc assms(6) by (auto simp: remove_fd_def epoll_ctl_del_def sys_fail_def registered_def split: if_splits)
  have wf1: "ep_wf ?k os1" using r1 sc core_invD(6) [OF core]
    by (auto simp: remove_fd_def epoll_ctl_del_def sys_fail_def ep_wf_def split: if_splits)
  let ?os2 = "os1\<lparr>os_nonblock := List.insert ?fd (os_nonblock os1)\<rparr>"
  have n: "sys_set_nonblock ?fd os1 = (0, ?os2)" using sc1 by (simp add: sys_set_nonblock_def)
  have gone2: "\<not> registered ?k ?os2 ?fd" using gone by (simp add: registered_def)
  obtain os3 where a: "add_fd ?k EVKERNEL_READ ?fd ?os2 = (0, os3)" "quiet ?os2 os3"
    using add_fd_ok [OF _ _ gone2] sc1 by auto
  have wf2: "ep_wf ?k ?os2" using wf1 by (simp add: ep_wf_def)
  have arm: "ep_wf ?k os3" "?fd \<in> armed ?k os3" "os_script os3 = []"
    using epr.add_law [OF wf2 assms(5) a(1)] a(2) sc1 by (simp_all add: quiet_def)
  from wait_single [OF arm(1,3,2), of "[?fd]"] obtain e os4 where w: "wait ?k [?fd] os3 = (1, [e], os4)" "ident e = ?fd" by auto
  define l2 where "l2 = set_loop_os os3 (set_handler ?fd h ?l)"
  have "add_handler_impl ?fd h (remove_handler ?fd (ls_l s)) = Ret () l2"
    using r1 n a(1) by (simp add: add_handler_impl_def remove_handler_def l2_def reset_handler_def set_handler_def set_loop_os_def)
  moreover have "poll_return Worker [?fd] l2 = ((set_loop_os os4 l2)\<lparr>m_backlog := [e]\<rparr>, Polled [e])"
    using w(1) by (simp add: poll_return_def l2_def set_loop_os_def set_handler_def reset_handler_def)
  ultimately show ?thesis using w(2) by (auto simp: dispatch_def l2_def set_loop_os_def set_handler_def)
qed

lemma readded_handler_runs_twice_witness:
  "\<exists>s l2 l3 ke e. loop_reach sample_alloc s \<and> ls_thr s = [(Worker, Dispatch ke)] \<and>
     add_handler_impl 1 8 (remove_handler 1 (ls_l s)) = Ret () l2 \<and> poll_return Worker [1] l2 = (l3, Polled [e]) \<and>
     dispatch Worker ke l3 = (l3, Handling ke 8 False False) \<and> dispatch Worker e l3 = (l3, Handling e 8 False False)"
proof -
  let ?s = "run_sample [Add 1 7, Spawn Worker, Lock 0, Go 0 [], Go 0 [1], Go 0 [], Go 0 []]"
  obtain ke where t: "ls_thr ?s = [(Worker, Dispatch ke)]" "ident ke = 1"
  proof
    show "ls_thr ?s = [(Worker, Dispatch (event_data 1 (EVKERNEL_READ OR EPOLLONESHOT)))]" by code_simp
    show "ident (event_data 1 (EVKERNEL_READ OR EPOLLONESHOT)) = 1" by code_simp
  qed
  have "1 \<in> set (os_open (loop_os (ls_l ?s)))" by code_simp
  with readded_handler_runs_twice [OF run_sample_reach sample_alloc_bounded, of 0 "[Add 1 7, Spawn Worker, Lock 0, Go 0 [], Go 0 [1], Go 0 [], Go 0 []]" Worker ke 8] t
  obtain l2 l3 e where "add_handler_impl 1 8 (remove_handler 1 (ls_l ?s)) = Ret () l2" "poll_return Worker [1] l2 = (l3, Polled [e])"
    "dispatch Worker ke l3 = (l3, Handling ke 8 False False)" "dispatch Worker e l3 = (l3, Handling e 8 False False)" by (auto simp: fdok_def)
  then show ?thesis using t(1) run_sample_reach by blast
qed

end
