(* ===== verification/Loop_Table.thy ===== *)
theory Loop_Table
  imports Loop_Props
begin

text \<open>
  The tables of the loop. \<open>m_state\<close> and the contexts of the output component are arrays of
  \<open>kernel::max()\<close> elements, indexed by descriptors and by the descriptors that events carry, without a
  check. Nothing outside the arrays is ever touched, because every such descriptor was open once.
\<close>

section \<open>Descriptors below the limit\<close>



text \<open>Calls that open and close nothing and register only what is open.\<close>

definition confined :: "os \<Rightarrow> os \<Rightarrow> bool" where
  "confined os os' \<longleftrightarrow> os_nofile os' = os_nofile os \<and> os_open os' = os_open os \<and>
     (\<forall>e fd. os_ep os' e fd \<noteq> None \<longrightarrow> os_ep os e fd \<noteq> None \<or> fd \<in> set (os_open os))"

lemma confined_refl [simp]: "confined os os"
  by (simp add: confined_def)




lemma shutdown_confined [simp]: "confined os (sys_shutdown fd os')  = confined os os'"
  by (simp add: confined_def sys_shutdown_def)




section \<open>The output component\<close>

definition out_confined :: "ost \<Rightarrow> ost \<Rightarrow> bool" where
  "out_confined s s' \<longleftrightarrow> length (o_ctx (fst s')) = length (o_ctx (fst s)) \<and> o_kernel (fst s') = o_kernel (fst s) \<and> confined (wd_os (snd s)) (wd_os (snd s'))"






section \<open>The loop\<close>

text \<open>The event a thread is about to handle or is handling.\<close>

fun touches :: "pc \<Rightarrow> event list" where
  "touches (Process ke) = [ke]"
| "touches (React_out ke) = [ke]"
| "touches (Dispatch ke) = [ke]"
| "touches (Handling ke h reactivated removed) = [ke]"
| "touches _ = []"



text \<open>A piece of code that opens and closes nothing, registers only what is open, and adds no handler and no event.\<close>

definition tame :: "loop_impl \<Rightarrow> loop_impl \<Rightarrow> bool" where
  "tame l l' \<longleftrightarrow> out_confined (m_out l) (m_out l') \<and> m_kernel l' = m_kernel l \<and> (\<forall>fd. m_state l' fd = m_state l fd \<or> m_state l' fd = None) \<and>
     set (m_backlog l') \<subseteq> set (m_backlog l) \<and> set (m_more_queue l') \<subseteq> set (m_more_queue l)"



lemma tame_refl [simp]: "tame l l"
  by (simp add: tame_def out_confined_def)



lemma tame_fields [simp]:
  "tame l (l'\<lparr>m_off := a\<rparr>) = tame l l'" "tame l (l'\<lparr>m_num := b\<rparr>) = tame l l'" "tame l (l'\<lparr>m_pollable := c\<rparr>) = tame l l'"
  "tame l (l'\<lparr>m_end_flag := d\<rparr>) = tame l l'" "tame l (l'\<lparr>m_task_queue := q\<rparr>) = tame l l'"
  by (simp_all add: tame_def)










lemma touches_again [simp]: "touches (again rl) = []"
  by (cases rl) simp_all


section \<open>From the constructor on\<close>









end
