(* ===== verification/Out_Closed.thy ===== *)
theory Out_Closed
  imports Out_Runs
begin

text \<open>
  Closing a descriptor that still has pending output, as \<open>handler::~handler\<close> of \<open>src/mp/wavy.hmpl\<close> does whatever
  the output component holds for it. The runs of \<open>Out_Runs\<close> rule it out; here is what happens otherwise. The
  rest of the component goes on as if the descriptor had nothing pending, which makes the invariant of the
  component available for the state in which its context is hidden.
\<close>

section \<open>A handler and its descriptor\<close>


section \<open>Hiding the output of a descriptor\<close>

definition hide :: "int \<Rightarrow> out \<Rightarrow> out" where
  "hide fd m = (set_ctx fd xfer_new m)\<lparr>o_watching := o_watching m - 1\<rparr>"


lemma hide_simps [simp]:
  "o_kernel (hide fd m) = o_kernel m" "o_queue (hide fd m) = o_queue m" "o_watching (hide fd m) = o_watching m - 1"
  "hide fd (m\<lparr>o_queue := q\<rparr>) = (hide fd m)\<lparr>o_queue := q\<rparr>" "hide fd (m\<lparr>o_watching := n\<rparr>) = (hide fd m)\<lparr>o_watching := n - 1\<rparr>"
  "hide fd (set_ctx fd y m) = hide fd m"
  by (simp_all add: hide_def set_ctx_def)






section \<open>Nothing frees it\<close>








end
