(* ===== verification/Handler_Life.thy ===== *)
theory Handler_Life
  imports Loop_Table Out_Closed
begin

text \<open>
  Handlers as objects: \<open>handler\<close> of \<open>src/mp/wavy.hmpl\<close> owns a descriptor, and its destructor closes it. A handler
  is shared by the table \<open>m_state\<close>, by the threads that run it, each of which copies the pointer out of
  the table, and by clients. When the last of these references goes the destructor runs. Runs of
  the loop are extended with these objects; a thread never runs a handler whose descriptor is
  closed or belongs to another.
\<close>

section \<open>Runs with handlers\<close>


fun runs :: "pc \<Rightarrow> (event \<times> nat) option" where
  "runs (Handling ke h re rm) = Some (ke, h)"
| "runs _ = None"






section \<open>Who runs what\<close>

text \<open>A thread that runs a handler ran it before or has just found it in the table.\<close>

lemma runs_pieces [simp]:
  "runs (snd (retry_task l)) = None" "runs (snd (run_once b l)) = None" "runs (snd (do_queue b l)) = None"
  "runs (snd (poll_return rl rdy l)) = None" "runs (snd (poll_publish evs l)) = None" "runs (snd (process_handler rdy ke l)) = None"
  "runs (again rl) = None" "runs (snd (do_out_write rl ke l)) = None"
proof -
  show a: "runs (again rl) = None" for rl by (cases rl) simp_all
  show "runs (snd (retry_task l)) = None" "runs (snd (run_once b l)) = None" "runs (snd (do_queue b l)) = None"
    by (auto simp: retry_task_def run_once_def do_queue_def do_task_def do_out_def next_backlog_def split: list.split option.split)
  show "runs (snd (poll_return rl rdy l)) = None" by (auto simp: poll_return_def Let_def split: prod.split role.split)
  show "runs (snd (poll_publish evs l)) = None" by (simp add: poll_publish_def next_backlog_def)
  show "runs (snd (process_handler rdy ke l)) = None" by (auto simp: process_handler_def split: outcome.split)
  show "runs (snd (do_out_write rl ke l)) = None" using a by (auto simp: do_out_write_def split: outcome.split)
qed



section \<open>The invariant\<close>












section \<open>The steps of the loop are covered\<close>







end
