(* ===== verification/Loop_Flush.thy ===== *)
theory Loop_Flush
  imports Loop_Props
begin

text \<open>
  \<open>run_once\<close>, \<open>run_nonblock\<close> and \<open>flush\<close> of \<open>src/mpsrc/wavy_loop.cc\<close> as one thread executes them on a loop without workers:
  the pieces of \<open>Loop\<close> put together from the call to the return. The environment gives, for each call,
  what \<open>wait\<close> reports in the two kernels; the clients' code is a function for tasks and one for handlers.
\<close>

record client =
  c_task :: "nat \<Rightarrow> loop_impl \<Rightarrow> loop_impl"
  c_handler :: "event \<Rightarrow> nat \<Rightarrow> loop_impl \<Rightarrow> bool \<times> loop_impl"

text \<open>From a point of \<open>run_once\<close> to its return; \<open>None\<close> when it blocks, throws or has no defined behaviour.\<close>

definition process_once :: "client \<Rightarrow> int list \<Rightarrow> event \<Rightarrow> loop_impl \<Rightarrow> loop_impl option" where
  "process_once c rdy ke l =
     (case process_handler rdy ke l of
        (l, React_out ke) \<Rightarrow> Some (kernel_reactivate ke l)
      | (l, Dispatch ke) \<Rightarrow>
          (case m_state l (ident ke) of
             None \<Rightarrow> Some (after_handler ke False False False l)
           | Some h \<Rightarrow> let (cont, l) = c_handler c ke h l in Some (after_handler ke False False cont l))
      | _ \<Rightarrow> None)"

definition queue_once :: "client \<Rightarrow> loop_impl \<times> pc \<Rightarrow> loop_impl option" where
  "queue_once c lp =
     (case lp of
        (l, Exited) \<Rightarrow> Some l
      | (l, Run_task t fin) \<Rightarrow> Some (c_task c t l)
      | (l, Do_out ke) \<Rightarrow> (case do_out_write (Once True) ke l of (l, Notify) \<Rightarrow> Some l | (l, Exited) \<Rightarrow> Some l | _ \<Rightarrow> None)
      | _ \<Rightarrow> None)"

definition once_from :: "bool \<Rightarrow> client \<Rightarrow> int list \<Rightarrow> int list \<Rightarrow> loop_impl \<times> pc \<Rightarrow> loop_impl option" where
  "once_from block c rdy ordy lp =
     (case lp of
        (l, Process ke) \<Rightarrow> process_once c ordy ke l
      | (l, Polling) \<Rightarrow>
          (case poll_return (Once block) rdy l of
             (l, Exited) \<Rightarrow> Some l
           | (l, Do_queue) \<Rightarrow> queue_once c (do_queue block l)
           | (l, Polled evs) \<Rightarrow>
               (case poll_publish evs l of (l, Process ke) \<Rightarrow> process_once c ordy ke l | _ \<Rightarrow> None)
           | _ \<Rightarrow> None)
      | _ \<Rightarrow> queue_once c lp)"

definition run_once_call :: "client \<Rightarrow> int list \<times> int list \<Rightarrow> loop_impl \<Rightarrow> loop_impl option" where
  "run_once_call c env l = once_from True c (fst env) (snd env) (run_once True l)"

definition run_nonblock_call :: "client \<Rightarrow> int list \<times> int list \<Rightarrow> loop_impl \<Rightarrow> loop_impl option" where
  "run_nonblock_call c env l = once_from False c (fst env) (snd env) (run_once False l)"

text \<open>
  \<open>flush\<close> on a loop without workers; the list has what the environment reports in each round, and \<open>None\<close>
  is a \<open>flush\<close> that goes on beyond it. The result lists the tasks that were run.
\<close>

fun flush :: "client \<Rightarrow> (int list \<times> int list) list \<Rightarrow> loop_impl \<Rightarrow> (nat list \<times> loop_impl) option" where
  "flush c [] l = (if \<not> out_empty (fst (m_out l)) \<or> m_task_queue l \<noteq> [] then None else Some ([], l))"
| "flush c (env # envs) l =
     (if \<not> out_empty (fst (m_out l)) \<or> m_task_queue l \<noteq> [] then
        (case run_once_call c env l of
           None \<Rightarrow> None
         | Some l' \<Rightarrow> map_option (\<lambda>(log, r). (starts (snd (run_once True l)) @ log, r)) (flush c envs l'))
      else Some ([], l))"

section \<open>Properties\<close>

text \<open>Nothing to do but tasks.\<close>

definition idle :: "loop_impl \<Rightarrow> bool" where
  "idle l \<longleftrightarrow> \<not> m_end_flag l \<and> m_more_queue l = [] \<and> m_pollable l \<and> out_empty (fst (m_out l))"

lemma flush_task_round:
  assumes "idle l" "m_task_queue l = t # q"
  shows "run_once True l = (l\<lparr>m_task_queue := q\<rparr>, Run_task t (q = []))"
    and "run_once_call c env l = Some (c_task c t (l\<lparr>m_task_queue := q\<rparr>))"
  using assms by (simp_all add: run_once_call_def run_once_def do_task_def once_from_def queue_once_def idle_def)

lemma flush_returns_idle: "flush c envs l = Some (log, l') \<Longrightarrow> out_empty (fst (m_out l')) \<and> m_task_queue l' = []"
  by (induction c envs l arbitrary: log rule: flush.induct) (auto split: if_splits list.splits option.splits)

text \<open>
  \<open>flush\<close> returns only when no output is watched and no task is queued. On a loop without workers and
  with nothing else to do it does return: it runs the queued tasks in the order of their submission,
  one in each round, whatever they do short of submitting work themselves.
\<close>
lemma flush_runs_tasks:
  assumes "idle l" and "\<And>t l. idle l \<Longrightarrow> idle (c_task c t l) \<and> m_task_queue (c_task c t l) = m_task_queue l"
    and "length (m_task_queue l) \<le> length envs"
  shows "\<exists>l'. flush c envs l = Some (m_task_queue l, l') \<and> out_empty (fst (m_out l')) \<and> m_task_queue l' = []"
  using assms(1,3)
proof (induction envs arbitrary: l)
  case Nil
  then show ?case by (simp add: idle_def)
next
  case (Cons env envs)
  show ?case
  proof (cases "m_task_queue l")
    case Nil
    then show ?thesis using Cons.prems(1) by (simp add: idle_def)
  next
    case (Cons t q)
    let ?l = "c_task c t (l\<lparr>m_task_queue := q\<rparr>)"
    have "idle (l\<lparr>m_task_queue := q\<rparr>)" using Cons.prems(1) by (simp add: idle_def)
    from assms(2) [OF this] have l: "idle ?l" "m_task_queue ?l = q" by simp_all
    from Cons.IH [OF l(1)] l(2) Cons.prems(2) Cons obtain l' where
      "flush c envs ?l = Some (q, l')" "out_empty (fst (m_out l'))" "m_task_queue l' = []" by auto
    then show ?thesis using flush_task_round(1) [OF Cons.prems(1) Cons] flush_task_round(2) [OF Cons.prems(1) Cons, of c env] Cons by (auto simp: starts_def)
  qed
qed

lemma flush_runs_tasks_witness:
  "\<exists>l'. flush \<lparr>c_task = (\<lambda>t l. l), c_handler = (\<lambda>e h l. (False, l))\<rparr> [([], []), ([], [])] (sample_loop\<lparr>m_task_queue := [7, 8]\<rparr>) =
     Some ([7, 8], l') \<and> m_task_queue l' = []"
proof -
  let ?l = "sample_loop\<lparr>m_task_queue := [7, 8]\<rparr>" and ?c = "\<lparr>c_task = (\<lambda>t l. l), c_handler = (\<lambda>e h l. (False, l))\<rparr> :: client"
  have "idle ?l" by (simp add: idle_def sample_loop_def out_empty_def)
  from flush_runs_tasks [OF this, of ?c "[([], []), ([], [])]"] show ?thesis by auto
qed

section \<open>One round returns\<close>

lemma process_once_returns:
  assumes "out_inv fl (m_out l)"
  shows "\<exists>l'. process_once c rdy ke l = Some l'"
proof -
  obtain m w where mw: "m_out l = (m, w)" by fastforce
  from poll_event_result [of fl m w rdy] assms mw obtain s where "poll_event rdy (m_out l) = Ret () s" by auto
  then show ?thesis by (auto simp: process_once_def process_handler_def split: option.split prod.split)
qed

lemma queue_once_returns:
  assumes "out_inv fl (m_out l)"
  shows "\<exists>l'. queue_once c (do_queue False l) = Some l'" "m_task_queue l \<noteq> [] \<Longrightarrow> \<exists>l'. queue_once c (do_task l) = Some l'"
    "has_queue (fst (m_out l)) \<Longrightarrow> \<exists>l'. queue_once c (do_out l) = Some l'"
proof -
  obtain m w where mw: "m_out l = (m, w)" by fastforce
  show task: "\<exists>l'. queue_once c (do_task l) = Some l'" if "m_task_queue l \<noteq> []" using that by (cases "m_task_queue l") (simp_all add: do_task_def queue_once_def)
  show out: "\<exists>l'. queue_once c (do_out l) = Some l'" if hq: "has_queue (fst (m_out l))"
  proof -
    obtain ke m' where n: "next_event m = Some (ke, m')" using hq mw by (cases "o_queue m") (auto simp: has_queue_def next_event_def)
    have "out_inv (ke # fl) (m', w)" using next_event_result [OF _ n] assms mw by simp
    moreover from flight_ctx [OF this, of ke] obtain x where "ctx_at (ident ke) m' = Some x" "xf_inv x" by auto
    moreover obtain cc its' tr' sc' where "exec_items (items x) (wd_io w (ident ke)) = (cc, its', (tr', sc'))" by (metis prod_cases4)
    ultimately obtain b s where "write_event ke (m', w) = Ret b s" using write_event_result by blast
    then show ?thesis using n mw by (simp add: do_out_def queue_once_def do_out_write_def)
  qed
  show "\<exists>l'. queue_once c (do_queue False l) = Some l'" using task out by (cases "m_task_queue l = []") (auto simp: do_queue_def queue_once_def)
qed

text \<open>
  On a loop without other threads \<open>run_once\<close> and \<open>run_nonblock\<close> always return: after one task, one write, one
  event or an empty poll, whatever the kernels report and whatever the client's functions do.
\<close>
lemma once_returns:
  assumes "core_inv l ths" and "list_all (\<lambda>t. snd t = Exited) ths"
  shows "\<exists>l'. run_once_call c env l = Some l'" "\<exists>l'. run_nonblock_call c env l = Some l'"
proof -
  note I = core_invD [OF assms(1)]
  have pol: "m_pollable l" using I(3) assms(2) by (auto simp: list_all_iff)
  have proc: "\<exists>l2. process_once c rdy ke l1 = Some l2" if "out_inv (oflight ths) (m_out l1)" for rdy ke l1
    using process_once_returns [OF that] .
  have poll: "\<exists>l2. once_from block c rdy ordy (l\<lparr>m_pollable := False\<rparr>, Polling) = Some l2" for block rdy ordy
  proof -
    from wait_ok [OF core_script [OF assms(1)], of "m_kernel l" rdy] obtain evs os' where
      w: "wait (m_kernel l) rdy (loop_os l) = (int (length evs), evs, os')" "quiet (loop_os l) os'" by blast
    have o: "out_inv (oflight ths) (m_out (set_loop_os os' l))"
      using wait_other [OF w(1)] I(10) by (intro out_inv_loop_os [OF I(9) w(2)]) simp
    have "out_inv (oflight ths) (m_out ((set_loop_os os' l)\<lparr>m_pollable := True\<rparr>))" using o by simp
    from queue_once_returns(1) [OF this, of c] show ?thesis using w(1) o
      by (cases "evs = []"; cases block)
         (auto simp: once_from_def poll_return_def poll_publish_def next_backlog_def set_loop_os_def intro!: proc)
  qed
  have "\<exists>l2. once_from block c rdy ordy (run_once block l) = Some l2" for block rdy ordy
  proof -
    note q = queue_once_returns [OF I(9), of c]
    have task: "once_from block c rdy ordy (do_task l) = queue_once c (do_task l)" if "m_task_queue l \<noteq> []"
      using that by (cases "m_task_queue l") (simp_all add: do_task_def once_from_def)
    have out: "once_from block c rdy ordy (do_out l) = queue_once c (do_out l)" by (simp add: do_out_def once_from_def split: option.split prod.split)
    show ?thesis using pol q(2,3) task out poll [of block rdy ordy] I(9)
      by (auto simp: run_once_def next_backlog_def once_from_def [of _ _ _ _ "(_, Process _)"] once_from_def [of _ _ _ _ "(_, Exited)"]
          queue_once_def [of _ "(_, Exited)"] intro!: proc split: list.split)
  qed
  then show "\<exists>l'. run_once_call c env l = Some l'" "\<exists>l'. run_nonblock_call c env l = Some l'" by (simp_all add: run_once_call_def run_nonblock_call_def)
qed

end
