(* ===== verification/Loop_Output.thy ===== *)
theory Loop_Output
  imports Loop_Props
begin

text \<open>
  The loop as a client of the output component: what the threads of the loop, its clients and its kernel do
  is, as far as the output component can see, one of the runs of \<open>Out_Runs\<close>. So everything proved of
  those runs holds in the loop.
\<close>

section \<open>Seen from the output component\<close>









section \<open>Steps of the loop\<close>

lemma ghosts_upd [simp]: "ls_osub (upd i lp s) = ls_osub s" "ls_obad (upd i lp s) = ls_obad s"
  by (simp_all add: upd_def)








lemma out_token_again [simp]: "out_token (again rl) = []"
  by (cases rl) simp_all











end
