(* ===== verification/Loop_Drain.thy ===== *)
theory Loop_Drain
  imports Loop_Flush Loop_Output
begin

text \<open>
  \<open>flush\<close> with output pending: on a loop without workers it polls for writable descriptors and writes until
  nothing is left. Descriptors must accept as many writes as there are bytes; how the bytes are spread
  over the writes, and how often a write would block in between, is up to them.
\<close>

section \<open>Descriptors that accept output\<close>







section \<open>The rounds of flush\<close>








section \<open>Draining\<close>



















end
