(* ===== verification/Pthread.thy ===== *)
theory Pthread
  imports Prelude
begin

text \<open>
  The wrappers of \<open>src/mp/pthread.h\<close>: mutexes, read-write locks, condition variables and threads on a
  model of the POSIX calls they make, and the three scoped locks. A POSIX lock call that would block
  has the value \<open>None\<close>; the wrappers pass that on. The scoped locks are clients of the locale
  \<open>lockable\<close>: what they guarantee is proved once there and holds for mutexes, read locks and write
  locks by interpretation.
\<close>

section \<open>POSIX mutexes\<close>

text \<open>Linux error numbers the wrappers test for or that their calls return.\<close>

definition c_EPERM :: int where "c_EPERM = 1"
definition c_ESRCH :: int where "c_ESRCH = 3"
definition c_EBUSY :: int where "c_EBUSY = 16"
definition c_EINVAL :: int where "c_EINVAL = 22"
definition c_EDEADLK :: int where "c_EDEADLK = 35"
definition c_ETIMEDOUT :: int where "c_ETIMEDOUT = 110"

lemmas errno_codes = c_EPERM_def c_ESRCH_def c_EBUSY_def c_EINVAL_def c_EDEADLK_def c_ETIMEDOUT_def

lemma code_nonzero [simp]: "c_EPERM \<noteq> 0" "c_ESRCH \<noteq> 0" "c_EBUSY \<noteq> 0" "c_EINVAL \<noteq> 0" "c_EDEADLK \<noteq> 0" "c_ETIMEDOUT \<noteq> 0"
  by (simp_all add: errno_codes)

datatype mutex_kind = Normal | Errorcheck | Recursive

text \<open>The owner, and how often a recursive mutex has been locked beyond the first time.\<close>

record pthread_mutex =
  mx_kind :: mutex_kind
  mx_owner :: "nat option"
  mx_depth :: nat

text \<open>\<open>pthread_mutex_lock\<close>, \<open>_trylock\<close> and \<open>_unlock\<close> by thread \<open>t\<close>: an error code and the new state.\<close>

definition posix_mutex_lock :: "nat \<Rightarrow> pthread_mutex \<Rightarrow> (int \<times> pthread_mutex) option" where
  "posix_mutex_lock t m =
     (case mx_owner m of
        None \<Rightarrow> Some (0, m\<lparr>mx_owner := Some t, mx_depth := 0\<rparr>)
      | Some u \<Rightarrow>
          if u = t then
            (case mx_kind m of
               Normal \<Rightarrow> None
             | Errorcheck \<Rightarrow> Some (c_EDEADLK, m)
             | Recursive \<Rightarrow> Some (0, m\<lparr>mx_depth := Suc (mx_depth m)\<rparr>))
          else None)"

definition posix_mutex_trylock :: "nat \<Rightarrow> pthread_mutex \<Rightarrow> int \<times> pthread_mutex" where
  "posix_mutex_trylock t m =
     (case mx_owner m of
        None \<Rightarrow> (0, m\<lparr>mx_owner := Some t, mx_depth := 0\<rparr>)
      | Some u \<Rightarrow> if u = t \<and> mx_kind m = Recursive then (0, m\<lparr>mx_depth := Suc (mx_depth m)\<rparr>) else (c_EBUSY, m))"

text \<open>Unlocking a normal mutex that the caller does not own has no defined behaviour.\<close>

definition posix_mutex_unlock :: "nat \<Rightarrow> pthread_mutex \<Rightarrow> (int, pthread_mutex) outcome" where
  "posix_mutex_unlock t m =
     (if mx_owner m \<noteq> Some t then if mx_kind m = Normal then Fault Undefined_call else Ret c_EPERM m
      else if 0 < mx_depth m then Ret 0 (m\<lparr>mx_depth := mx_depth m - 1\<rparr>)
      else Ret 0 (m\<lparr>mx_owner := None\<rparr>))"

section \<open>The class \<open>pthread_mutex\<close>\<close>

definition pthread_mutex_new :: pthread_mutex where
  "pthread_mutex_new = \<lparr>mx_kind = Normal, mx_owner = None, mx_depth = 0\<rparr>"

definition pthread_mutex_new_kind :: "mutex_kind \<Rightarrow> pthread_mutex" where
  "pthread_mutex_new_kind kind = \<lparr>mx_kind = kind, mx_owner = None, mx_depth = 0\<rparr>"

definition mutex_lock :: "nat \<Rightarrow> pthread_mutex \<Rightarrow> (unit, pthread_mutex) outcome option" where
  "mutex_lock t m =
     (case posix_mutex_lock t m of
        None \<Rightarrow> None
      | Some (err, m) \<Rightarrow> Some (if err \<noteq> 0 then Exn (Pthread_error (- err)) m else Ret () m))"

definition mutex_trylock :: "nat \<Rightarrow> pthread_mutex \<Rightarrow> (bool, pthread_mutex) outcome" where
  "mutex_trylock t m =
     (let (err, m) = posix_mutex_trylock t m in
      if err \<noteq> 0 then if err = c_EBUSY then Ret False m else Exn (Pthread_error (- err)) m
      else Ret True m)"

definition mutex_unlock :: "nat \<Rightarrow> pthread_mutex \<Rightarrow> (unit, pthread_mutex) outcome" where
  "mutex_unlock t m =
     bind_outcome (posix_mutex_unlock t m) (\<lambda>err m. if err \<noteq> 0 then Exn (Pthread_error (- err)) m else Ret () m)"

text \<open>The destructor; destroying a mutex that is locked has no defined behaviour.\<close>

definition pthread_mutex_delete :: "pthread_mutex \<Rightarrow> (unit, unit) outcome" where
  "pthread_mutex_delete m = (if mx_owner m = None then Ret () () else Fault Undefined_call)"

section \<open>Read-write locks\<close>

record pthread_rwlock =
  rw_readers :: "nat list"
  rw_writer :: "nat option"

definition posix_rdlock :: "nat \<Rightarrow> pthread_rwlock \<Rightarrow> (int \<times> pthread_rwlock) option" where
  "posix_rdlock t m =
     (case rw_writer m of
        None \<Rightarrow> Some (0, m\<lparr>rw_readers := t # rw_readers m\<rparr>)
      | Some u \<Rightarrow> if u = t then Some (c_EDEADLK, m) else None)"


definition posix_wrlock :: "nat \<Rightarrow> pthread_rwlock \<Rightarrow> (int \<times> pthread_rwlock) option" where
  "posix_wrlock t m =
     (if rw_writer m = None \<and> rw_readers m = [] then Some (0, m\<lparr>rw_writer := Some t\<rparr>)
      else if rw_writer m = Some t then Some (c_EDEADLK, m)
      else None)"


definition posix_rwunlock :: "nat \<Rightarrow> pthread_rwlock \<Rightarrow> (int, pthread_rwlock) outcome" where
  "posix_rwunlock t m =
     (if rw_writer m = Some t then Ret 0 (m\<lparr>rw_writer := None\<rparr>)
      else if t \<in> set (rw_readers m) then Ret 0 (m\<lparr>rw_readers := remove1 t (rw_readers m)\<rparr>)
      else Fault Undefined_call)"

definition pthread_rwlock_new :: pthread_rwlock where
  "pthread_rwlock_new = \<lparr>rw_readers = [], rw_writer = None\<rparr>"

definition rwlock_rdlock :: "nat \<Rightarrow> pthread_rwlock \<Rightarrow> (unit, pthread_rwlock) outcome option" where
  "rwlock_rdlock t m =
     (case posix_rdlock t m of
        None \<Rightarrow> None
      | Some (err, m) \<Rightarrow> Some (if err \<noteq> 0 then Exn (Pthread_error (- err)) m else Ret () m))"


definition rwlock_wrlock :: "nat \<Rightarrow> pthread_rwlock \<Rightarrow> (unit, pthread_rwlock) outcome option" where
  "rwlock_wrlock t m =
     (case posix_wrlock t m of
        None \<Rightarrow> None
      | Some (err, m) \<Rightarrow> Some (if err \<noteq> 0 then Exn (Pthread_error (- err)) m else Ret () m))"


definition rwlock_unlock :: "nat \<Rightarrow> pthread_rwlock \<Rightarrow> (unit, pthread_rwlock) outcome" where
  "rwlock_unlock t m =
     bind_outcome (posix_rwunlock t m) (\<lambda>err m. if err \<noteq> 0 then Exn (Pthread_error (- err)) m else Ret () m)"

definition pthread_rwlock_delete :: "pthread_rwlock \<Rightarrow> (unit, unit) outcome" where
  "pthread_rwlock_delete m = (if rw_writer m = None \<and> rw_readers m = [] then Ret () () else Fault Undefined_call)"

section \<open>Scoped locks\<close>

text \<open>
  A scoped lock is the pointer \<open>m_mutex\<close>; the locks live at addresses. The three classes differ only in
  the call that takes the lock, so their code is written once over the operations \<open>lk\<close> and \<open>un\<close>.
\<close>

type_synonym 'l locks = "nat \<Rightarrow> 'l"
type_synonym 'l lock_call = "nat \<Rightarrow> 'l \<Rightarrow> (unit, 'l) outcome option"
type_synonym 'l unlock_call = "nat \<Rightarrow> 'l \<Rightarrow> (unit, 'l) outcome"

definition scoped_new :: "'l lock_call \<Rightarrow> nat \<Rightarrow> nat \<Rightarrow> 'l locks \<Rightarrow> (unit, nat option \<times> 'l locks) outcome option" where
  "scoped_new lk t a w =
     (case lk t (w a) of
        None \<Rightarrow> None
      | Some (Ret _ l) \<Rightarrow> Some (Ret () (Some a, w(a := l)))
      | Some (Exn e l) \<Rightarrow> Some (Exn e (None, w(a := l)))
      | Some (Fault f) \<Rightarrow> Some (Fault f))"

definition scoped_unlock :: "'l unlock_call \<Rightarrow> nat \<Rightarrow> nat option \<times> 'l locks \<Rightarrow> (unit, nat option \<times> 'l locks) outcome" where
  "scoped_unlock un t s =
     (case fst s of
        None \<Rightarrow> Ret () s
      | Some a \<Rightarrow>
          (case un t (snd s a) of
             Ret _ l \<Rightarrow> Ret () (None, (snd s)(a := l))
           | Exn e l \<Rightarrow> Exn e (Some a, (snd s)(a := l))
           | Fault f \<Rightarrow> Fault f))"

definition scoped_relock ::
  "'l lock_call \<Rightarrow> 'l unlock_call \<Rightarrow> nat \<Rightarrow> nat \<Rightarrow> nat option \<times> 'l locks \<Rightarrow> (unit, nat option \<times> 'l locks) outcome option" where
  "scoped_relock lk un t a s =
     (case scoped_unlock un t s of
        Ret _ s \<Rightarrow> scoped_new lk t a (snd s)
      | Exn e s \<Rightarrow> Some (Exn e s)
      | Fault f \<Rightarrow> Some (Fault f))"

definition scoped_owns :: "nat option \<Rightarrow> bool" where
  "scoped_owns sl = (sl \<noteq> None)"

definition scoped_delete :: "'l unlock_call \<Rightarrow> nat \<Rightarrow> nat option \<times> 'l locks \<Rightarrow> (unit, 'l locks) outcome" where
  "scoped_delete un t s =
     (case fst s of
        None \<Rightarrow> Ret () (snd s)
      | Some a \<Rightarrow>
          (case un t (snd s a) of
             Ret _ l \<Rightarrow> Ret () ((snd s)(a := l))
           | Exn e l \<Rightarrow> Exn e ((snd s)(a := l))
           | Fault f \<Rightarrow> Fault f))"

text \<open>The three classes.\<close>

definition scoped_lock_new :: "nat \<Rightarrow> nat \<Rightarrow> pthread_mutex locks \<Rightarrow> (unit, nat option \<times> pthread_mutex locks) outcome option" where
  "scoped_lock_new = scoped_new mutex_lock"

definition scoped_lock_unlock :: "nat \<Rightarrow> nat option \<times> pthread_mutex locks \<Rightarrow> (unit, nat option \<times> pthread_mutex locks) outcome" where
  "scoped_lock_unlock = scoped_unlock mutex_unlock"

definition scoped_lock_relock :: "nat \<Rightarrow> nat \<Rightarrow> nat option \<times> pthread_mutex locks \<Rightarrow> (unit, nat option \<times> pthread_mutex locks) outcome option" where
  "scoped_lock_relock = scoped_relock mutex_lock mutex_unlock"

definition scoped_rdlock_new :: "nat \<Rightarrow> nat \<Rightarrow> pthread_rwlock locks \<Rightarrow> (unit, nat option \<times> pthread_rwlock locks) outcome option" where
  "scoped_rdlock_new = scoped_new rwlock_rdlock"

definition scoped_rdlock_unlock :: "nat \<Rightarrow> nat option \<times> pthread_rwlock locks \<Rightarrow> (unit, nat option \<times> pthread_rwlock locks) outcome" where
  "scoped_rdlock_unlock = scoped_unlock rwlock_unlock"

definition scoped_rdlock_delete :: "nat \<Rightarrow> nat option \<times> pthread_rwlock locks \<Rightarrow> (unit, pthread_rwlock locks) outcome" where
  "scoped_rdlock_delete = scoped_delete rwlock_unlock"

definition scoped_rdlock_relock :: "nat \<Rightarrow> nat \<Rightarrow> nat option \<times> pthread_rwlock locks \<Rightarrow> (unit, nat option \<times> pthread_rwlock locks) outcome option" where
  "scoped_rdlock_relock = scoped_relock rwlock_rdlock rwlock_unlock"

definition scoped_wrlock_new :: "nat \<Rightarrow> nat \<Rightarrow> pthread_rwlock locks \<Rightarrow> (unit, nat option \<times> pthread_rwlock locks) outcome option" where
  "scoped_wrlock_new = scoped_new rwlock_wrlock"

definition scoped_wrlock_unlock :: "nat \<Rightarrow> nat option \<times> pthread_rwlock locks \<Rightarrow> (unit, nat option \<times> pthread_rwlock locks) outcome" where
  "scoped_wrlock_unlock = scoped_unlock rwlock_unlock"

definition scoped_wrlock_delete :: "nat \<Rightarrow> nat option \<times> pthread_rwlock locks \<Rightarrow> (unit, pthread_rwlock locks) outcome" where
  "scoped_wrlock_delete = scoped_delete rwlock_unlock"

definition scoped_wrlock_relock :: "nat \<Rightarrow> nat \<Rightarrow> nat option \<times> pthread_rwlock locks \<Rightarrow> (unit, nat option \<times> pthread_rwlock locks) outcome option" where
  "scoped_wrlock_relock = scoped_relock rwlock_wrlock rwlock_unlock"

text \<open>
  A block that declares a scoped lock, uses it, and leaves by its end or by an exception; between two
  statements other threads change the locks. An exception of the destructor while another is on its
  way would end the program.
\<close>

datatype 'l sop = Unlock | Relock nat | Others "nat \<Rightarrow> 'l \<Rightarrow> 'l"

fun scoped_ops :: "'l lock_call \<Rightarrow> 'l unlock_call \<Rightarrow> nat \<Rightarrow> 'l sop list \<Rightarrow> nat option \<times> 'l locks \<Rightarrow>
    (unit, nat option \<times> 'l locks) outcome option" where
  "scoped_ops lk un t [] s = Some (Ret () s)"
| "scoped_ops lk un t (Unlock # ops) s =
     (case scoped_unlock un t s of Ret _ s \<Rightarrow> scoped_ops lk un t ops s | r \<Rightarrow> Some r)"
| "scoped_ops lk un t (Relock a # ops) s =
     (case scoped_relock lk un t a s of Some (Ret _ s) \<Rightarrow> scoped_ops lk un t ops s | r \<Rightarrow> r)"
| "scoped_ops lk un t (Others f # ops) s = scoped_ops lk un t ops (fst s, \<lambda>a. f a (snd s a))"

definition scoped_block :: "'l lock_call \<Rightarrow> 'l unlock_call \<Rightarrow> nat \<Rightarrow> nat \<Rightarrow> 'l sop list \<Rightarrow> 'l locks \<Rightarrow> (unit, 'l locks) outcome option" where
  "scoped_block lk un t a ops w =
     (case scoped_new lk t a w of
        None \<Rightarrow> None
      | Some (Fault f) \<Rightarrow> Some (Fault f)
      | Some (Exn e s) \<Rightarrow> Some (Exn e (snd s))
      | Some (Ret _ s) \<Rightarrow>
          (case scoped_ops lk un t ops s of
             None \<Rightarrow> None
           | Some (Fault f) \<Rightarrow> Some (Fault f)
           | Some (Ret _ s) \<Rightarrow> Some (scoped_delete un t s)
           | Some (Exn e s) \<Rightarrow>
               Some (case scoped_delete un t s of Ret _ w \<Rightarrow> Exn e w | Exn _ _ \<Rightarrow> Fault No_return | Fault f \<Rightarrow> Fault f)))"

section \<open>What a lock promises\<close>

text \<open>
  The interface between the locks and the scoped locks: \<open>held t l\<close> is how often thread \<open>t\<close> holds \<open>l\<close>.
  Taking a lock changes that by one for the caller only, a failure changes nothing, and whoever holds
  a lock can release it.
\<close>

locale lockable =
  fixes lk :: "'l lock_call" and un :: "'l unlock_call" and held :: "nat \<Rightarrow> 'l \<Rightarrow> nat" and valid :: "'l \<Rightarrow> bool"
  assumes lock_ok: "valid l \<Longrightarrow> lk t l = Some (Ret u l') \<Longrightarrow>
      valid l' \<and> held t l' = Suc (held t l) \<and> (\<forall>v. v \<noteq> t \<longrightarrow> held v l' = held v l)"
    and lock_err: "lk t l = Some (Exn e l') \<Longrightarrow> l' = l"
    and lock_safe: "lk t l \<noteq> Some (Fault f)"
    and unlock_ok: "valid l \<Longrightarrow> 0 < held t l \<Longrightarrow>
      \<exists>l'. un t l = Ret () l' \<and> valid l' \<and> held t l' = held t l - 1 \<and> (\<forall>v. v \<noteq> t \<longrightarrow> held v l' = held v l)"
begin

text \<open>What thread \<open>t\<close> holds beyond \<open>w0\<close> is exactly what the scoped lock \<open>sl\<close> owns.\<close>

definition owns_exactly :: "nat \<Rightarrow> 'l locks \<Rightarrow> nat option \<times> 'l locks \<Rightarrow> bool" where
  "owns_exactly t w0 s \<longleftrightarrow> (\<forall>b. valid (snd s b) \<and> held t (snd s b) = held t (w0 b) + (if fst s = Some b then 1 else 0))"

definition others_ok :: "nat \<Rightarrow> 'l sop list \<Rightarrow> bool" where
  "others_ok t ops \<longleftrightarrow> (\<forall>f b l. Others f \<in> set ops \<longrightarrow> valid l \<longrightarrow> valid (f b l) \<and> held t (f b l) = held t l)"

lemma owns_none: "owns_exactly t w0 (None, w) \<longleftrightarrow> (\<forall>b. valid (w b) \<and> held t (w b) = held t (w0 b))"
  by (simp add: owns_exactly_def)

lemma scoped_new_owns:
  assumes "\<forall>b. valid (w b)"
  shows "case scoped_new lk t a w of
      None \<Rightarrow> True | Some (Ret u s) \<Rightarrow> owns_exactly t w s | Some (Exn e s) \<Rightarrow> s = (None, w) | Some (Fault f) \<Rightarrow> False"
proof (cases "lk t (w a)")
  case (Some r)
  then show ?thesis using assms lock_ok [of "w a" t] lock_err [of t "w a"] lock_safe [of t "w a"]
    by (cases r) (auto simp: scoped_new_def owns_exactly_def)
qed (simp add: scoped_new_def)

lemma scoped_unlock_owns:
  assumes "owns_exactly t w0 s"
  shows "\<exists>w. scoped_unlock un t s = Ret () (None, w) \<and> owns_exactly t w0 (None, w)"
proof (cases "fst s")
  case None
  then show ?thesis using assms by (cases s) (simp add: scoped_unlock_def)
next
  case (Some a)
  from assms Some have "valid (snd s a)" "held t (snd s a) = Suc (held t (w0 a))" by (simp_all add: owns_exactly_def)
  from unlock_ok [of "snd s a" t] this obtain l where "un t (snd s a) = Ret () l" "valid l" "held t l = held t (w0 a)" by auto
  then show ?thesis using assms Some by (auto simp: scoped_unlock_def owns_exactly_def)
qed

lemma scoped_relock_owns:
  assumes "owns_exactly t w0 s"
  shows "case scoped_relock lk un t a s of
      None \<Rightarrow> True | Some (Ret u s) \<Rightarrow> owns_exactly t w0 s | Some (Exn e s) \<Rightarrow> owns_exactly t w0 s | Some (Fault f) \<Rightarrow> False"
proof -
  from scoped_unlock_owns [OF assms] obtain w where w: "scoped_unlock un t s = Ret () (None, w)" "owns_exactly t w0 (None, w)" by blast
  then have "\<forall>b. valid (w b)" "\<forall>b. held t (w b) = held t (w0 b)" by (simp_all add: owns_none)
  then have "owns_exactly t w = owns_exactly t w0" by (simp add: owns_exactly_def fun_eq_iff)
  then show ?thesis using scoped_new_owns [OF \<open>\<forall>b. valid (w b)\<close>, of t a] w
    by (auto simp: scoped_relock_def split: option.splits outcome.splits)
qed

lemma scoped_ops_owns:
  "owns_exactly t w0 s \<Longrightarrow> others_ok t ops \<Longrightarrow>
   case scoped_ops lk un t ops s of
     None \<Rightarrow> True | Some (Ret u s) \<Rightarrow> owns_exactly t w0 s | Some (Exn e s) \<Rightarrow> owns_exactly t w0 s | Some (Fault f) \<Rightarrow> False"
proof (induction ops arbitrary: s)
  case (Cons op ops)
  have ok: "others_ok t ops" using Cons.prems(2) by (auto simp: others_ok_def)
  show ?case
  proof (cases op)
    case Unlock
    with scoped_unlock_owns [OF Cons.prems(1)] Cons.IH [OF _ ok] show ?thesis by auto
  next
    case (Relock a)
    show ?thesis
    proof (cases "\<exists>s'. scoped_relock lk un t a s = Some (Ret () s')")
      case True
      then obtain s' where s': "scoped_relock lk un t a s = Some (Ret () s')" by blast
      then have "owns_exactly t w0 s'" using scoped_relock_owns [OF Cons.prems(1), of a] by simp
      with Relock s' Cons.IH [OF _ ok] show ?thesis by simp
    next
      case False
      then show ?thesis using Relock scoped_relock_owns [OF Cons.prems(1), of a] by (auto split: option.splits outcome.splits)
    qed
  next
    case (Others f)
    have "owns_exactly t w0 (fst s, \<lambda>a. f a (snd s a))"
      using Cons.prems Others by (auto simp: owns_exactly_def others_ok_def)
    with Others Cons.IH [OF _ ok] show ?thesis by simp
  qed
qed simp

lemma scoped_delete_owns:
  assumes "owns_exactly t w0 s"
  shows "\<exists>w. scoped_delete un t s = Ret () w \<and> owns_exactly t w0 (None, w)"
  using scoped_unlock_owns [OF assms] by (auto simp: scoped_delete_def scoped_unlock_def split: option.splits outcome.splits)

text \<open>However the block is left, the thread holds what it held before.\<close>

lemma scoped_block_balanced:
  assumes "\<forall>b. valid (w b)" "others_ok t ops" "scoped_block lk un t a ops w = Some r"
  shows "\<exists>w'. (r = Ret () w' \<or> (\<exists>e. r = Exn e w')) \<and> (\<forall>b. valid (w' b) \<and> held t (w' b) = held t (w b))"
proof -
  from assms(3) obtain r1 where r1: "scoped_new lk t a w = Some r1" by (auto simp: scoped_block_def split: option.splits)
  show ?thesis
  proof (cases r1)
    case (Ret u s)
    then have own: "owns_exactly t w s" using scoped_new_owns [OF assms(1), of t a] r1 by simp
    obtain r2 where r2: "scoped_ops lk un t ops s = Some r2" using assms(3) r1 Ret by (auto simp: scoped_block_def split: option.splits)
    obtain s2 where s2: "r2 = Ret () s2 \<or> (\<exists>e. r2 = Exn e s2)" "owns_exactly t w s2"
      using scoped_ops_owns [OF own assms(2)] r2 by (cases r2) auto
    from scoped_delete_owns [OF s2(2)] obtain w' where "scoped_delete un t s2 = Ret () w'" "owns_exactly t w (None, w')" by blast
    then have "(r = Ret () w' \<or> (\<exists>e. r = Exn e w')) \<and> (\<forall>b. valid (w' b) \<and> held t (w' b) = held t (w b))"
      using s2(1) assms(3) r1 r2 Ret by (auto simp: scoped_block_def owns_none)
    then show ?thesis by blast
  next
    case (Exn e s)
    then show ?thesis using scoped_new_owns [OF assms(1), of t a] r1 assms(1,3) by (auto simp: scoped_block_def)
  next
    case (Fault f)
    then show ?thesis using scoped_new_owns [OF assms(1), of t a] r1 by simp
  qed
qed

end

text \<open>A lock that one thread at a time holds.\<close>

locale exclusive_lockable = lockable +
  assumes lock_excl: "valid l \<Longrightarrow> 0 < held t l \<Longrightarrow> lk v l = Some (Ret u l') \<Longrightarrow> v = t"
begin

lemma holder_excludes: "valid l \<Longrightarrow> 0 < held t l \<Longrightarrow> v \<noteq> t \<Longrightarrow> \<nexists>u l'. lk v l = Some (Ret u l')"
  using lock_excl by blast

end

section \<open>The locks keep the promise\<close>

definition mutex_held :: "nat \<Rightarrow> pthread_mutex \<Rightarrow> nat" where
  "mutex_held t m = (if mx_owner m = Some t then Suc (mx_depth m) else 0)"

definition rd_held :: "nat \<Rightarrow> pthread_rwlock \<Rightarrow> nat" where
  "rd_held t m = count_list (rw_readers m) t"

definition wr_held :: "nat \<Rightarrow> pthread_rwlock \<Rightarrow> nat" where
  "wr_held t m = (if rw_writer m = Some t then 1 else 0)"

definition rw_valid :: "pthread_rwlock \<Rightarrow> bool" where
  "rw_valid m \<longleftrightarrow> rw_writer m = None \<or> rw_readers m = []"

lemma count_list_remove1: "count_list (remove1 x xs) y = count_list xs y - (if x = y then 1 else 0)"
  by (induction xs) (auto simp: count_list_0_iff)

text \<open>Any state of a mutex is as good as any other.\<close>

interpretation mx: exclusive_lockable mutex_lock mutex_unlock mutex_held "\<lambda>_. True"
  by unfold_locales
     (auto simp: mutex_lock_def posix_mutex_lock_def mutex_unlock_def posix_mutex_unlock_def mutex_held_def
        split: option.splits if_splits mutex_kind.splits)

interpretation rd: lockable rwlock_rdlock rwlock_unlock rd_held rw_valid
  by unfold_locales
     (auto simp: rwlock_rdlock_def posix_rdlock_def rwlock_unlock_def posix_rwunlock_def rd_held_def rw_valid_def
        count_list_remove1 count_list_0_iff split: option.splits if_splits)

interpretation wr: exclusive_lockable rwlock_wrlock rwlock_unlock wr_held rw_valid
  by unfold_locales
     (auto simp: rwlock_wrlock_def posix_wrlock_def rwlock_unlock_def posix_rwunlock_def wr_held_def rw_valid_def
        split: option.splits if_splits)


text \<open>
  C17. A block with a \<open>pthread_scoped_lock\<close> is balanced: whatever it does with the lock, whatever other
  threads do to the mutexes meanwhile (short of releasing what this thread holds), and whether the
  block ends normally or by an exception, the destructor neither throws nor unlocks a mutex that is
  not held, and afterwards the thread holds every mutex exactly as often as before.
\<close>
theorem scoped_lock_balanced:
  assumes "scoped_block mutex_lock mutex_unlock t a ops w = Some r"
    and "\<forall>f b l. Others f \<in> set ops \<longrightarrow> mutex_held t (f b l) = mutex_held t l"
  shows "\<exists>w'. (r = Ret () w' \<or> (\<exists>e. r = Exn e w')) \<and> (\<forall>b. mutex_held t (w' b) = mutex_held t (w b))"
  using mx.scoped_block_balanced [OF _ _ assms(1)] assms(2) by (simp add: mx.others_ok_def)

text \<open>Thread 1 unlocks and locks another mutex while thread 2 takes and leaves the first.\<close>

definition sample_ops :: "pthread_mutex sop list" where
  "sample_ops = [Unlock, Others (\<lambda>b l. if b = 0 \<and> mx_owner l = None then l\<lparr>mx_owner := Some 2\<rparr> else l), Relock 1, Relock 1]"

theorem scoped_lock_balanced_witness:
  "\<exists>r w'. scoped_block mutex_lock mutex_unlock 1 0 sample_ops (\<lambda>_. pthread_mutex_new) = Some r \<and> r = Ret () w' \<and>
     mx_owner (w' 0) = Some 2 \<and> mutex_held 1 (w' 1) = 0"
proof -
  let ?r = "scoped_block mutex_lock mutex_unlock 1 0 sample_ops (\<lambda>_. pthread_mutex_new)"
  obtain r where r: "?r = Some r" "\<exists>w'. r = Ret () w' \<and> mx_owner (w' 0) = Some 2"
    by (simp add: scoped_block_def sample_ops_def scoped_new_def scoped_unlock_def scoped_relock_def scoped_delete_def mutex_lock_def
        posix_mutex_lock_def mutex_unlock_def posix_mutex_unlock_def pthread_mutex_new_def)
  have "\<forall>f b l. Others f \<in> set sample_ops \<longrightarrow> mutex_held 1 (f b l) = mutex_held 1 l"
    by (auto simp: sample_ops_def mutex_held_def)
  from scoped_lock_balanced [OF r(1) this] r(2) obtain w' where
    "r = Ret () w'" "mx_owner (w' 0) = Some 2" "mutex_held 1 (w' 1) = mutex_held 1 pthread_mutex_new" by auto
  moreover have "mutex_held 1 pthread_mutex_new = 0" by (simp add: mutex_held_def pthread_mutex_new_def)
  ultimately show ?thesis using r(1) by metis
qed

text \<open>
  A mutex can be destroyed once no thread holds it, as after a block that had it to itself; a read-write
  lock likewise.
\<close>

lemma mutex_delete_unheld: "pthread_mutex_delete m = Ret () () \<longleftrightarrow> (\<forall>t. mutex_held t m = 0)"
  by (auto simp: pthread_mutex_delete_def mutex_held_def)

lemma rwlock_delete_unheld: "pthread_rwlock_delete m = Ret () () \<longleftrightarrow> (\<forall>t. rd_held t m = 0 \<and> wr_held t m = 0)"
  by (cases "rw_readers m") (auto simp: pthread_rwlock_delete_def rd_held_def wr_held_def)

lemma block_then_delete:
  assumes "scoped_block mutex_lock mutex_unlock t a ops w = Some (Ret () w')" "\<forall>f. Others f \<notin> set ops"
    and "pthread_mutex_delete (w b) = Ret () ()"
  shows "mutex_held t (w' b) = 0"
  using mx.scoped_block_balanced [OF _ _ assms(1)] assms(2,3) by (auto simp: mx.others_ok_def mutex_delete_unheld)



end
