(* ===== verification/Threads.thy ===== *)
theory Threads
  imports Pthread
begin

text \<open>
  Condition variables and threads of \<open>src/mp/pthread.h\<close>, and what the event loop does with its worker
  threads (\<open>start\<close>, \<open>add_thread\<close>, \<open>join\<close>, \<open>detach\<close> and \<open>run\<close> of \<open>src/mpsrc/wavy_loop.cc\<close>).
\<close>

section \<open>Condition variables\<close>

text \<open>The threads blocked on a condition variable, in the order of their calls.\<close>

record pthread_cond =
  cv_waiters :: "nat list"

definition pthread_cond_new :: pthread_cond where
  "pthread_cond_new = \<lparr>cv_waiters = []\<rparr>"

text \<open>Destroying a condition variable on which threads wait has no defined behaviour.\<close>

definition pthread_cond_delete :: "pthread_cond \<Rightarrow> (unit, unit) outcome" where
  "pthread_cond_delete c = (if cv_waiters c = [] then Ret () () else Fault Undefined_call)"

definition cond_signal :: "pthread_cond \<Rightarrow> (unit, pthread_cond) outcome" where
  "cond_signal c = Ret () (c\<lparr>cv_waiters := drop 1 (cv_waiters c)\<rparr>)"

definition cond_broadcast :: "pthread_cond \<Rightarrow> (unit, pthread_cond) outcome" where
  "cond_broadcast c = Ret () (c\<lparr>cv_waiters := []\<rparr>)"

text \<open>
  \<open>pthread_cond_wait\<close> in two parts: the mutex is given up and the caller queued in one step; it goes on
  when the call has its code, 0 or \<open>ETIMEDOUT\<close>, and the mutex is taken again.
\<close>

definition cond_wait_begin :: "nat \<Rightarrow> pthread_mutex \<Rightarrow> pthread_cond \<Rightarrow> (unit, pthread_mutex \<times> pthread_cond) outcome" where
  "cond_wait_begin t m c =
     (case mutex_unlock t m of
        Ret _ m \<Rightarrow> Ret () (m, c\<lparr>cv_waiters := cv_waiters c @ [t]\<rparr>)
      | Exn e m \<Rightarrow> Exn e (m, c)
      | Fault f \<Rightarrow> Fault f)"

definition cond_resume :: "nat \<Rightarrow> pthread_mutex \<times> pthread_cond \<Rightarrow> (pthread_mutex \<times> pthread_cond) option" where
  "cond_resume t s =
     (case posix_mutex_lock t (fst s) of
        Some (err, m) \<Rightarrow> Some (m, (snd s)\<lparr>cv_waiters := remove1 t (cv_waiters (snd s))\<rparr>)
      | None \<Rightarrow> None)"

definition cond_wait_end :: "int \<Rightarrow> nat \<Rightarrow> pthread_mutex \<times> pthread_cond \<Rightarrow> (unit, pthread_mutex \<times> pthread_cond) outcome option" where
  "cond_wait_end err t s =
     map_option (\<lambda>s. if err \<noteq> 0 then Exn (Pthread_error (- err)) s else Ret () s) (cond_resume t s)"

definition cond_timedwait_end :: "int \<Rightarrow> nat \<Rightarrow> pthread_mutex \<times> pthread_cond \<Rightarrow> (bool, pthread_mutex \<times> pthread_cond) outcome option" where
  "cond_timedwait_end err t s =
     map_option (\<lambda>s.
       if err \<noteq> 0 then if err = c_ETIMEDOUT then Ret False s else Exn (Pthread_error (- err)) s
       else Ret True s) (cond_resume t s)"

section \<open>Threads\<close>

text \<open>
  The threads of the process: running or finished, to be joined or detached. The environment decides
  which calls of \<open>pthread_create\<close> fail.
\<close>

datatype tstate = Joinable bool | Detached bool

record procs =
  p_threads :: "nat \<rightharpoonup> tstate"
  p_next :: nat
  p_create :: "int list"
  p_funcs :: nat
  p_cancelled :: "nat list"

text \<open>\<open>m_thread\<close> is not initialised until \<open>create\<close> has stored the id.\<close>

record pthread_thread =
  m_thread :: "nat option"

definition posix_create :: "procs \<Rightarrow> int \<times> nat \<times> procs" where
  "posix_create p =
     (case p_create p of
        [] \<Rightarrow> (0, p_next p, p\<lparr>p_threads := (p_threads p)(p_next p \<mapsto> Joinable False), p_next := Suc (p_next p)\<rparr>)
      | err # rest \<Rightarrow>
          let p = p\<lparr>p_create := rest\<rparr> in
          if err \<noteq> 0 then (err, 0, p)
          else (0, p_next p, p\<lparr>p_threads := (p_threads p)(p_next p \<mapsto> Joinable False), p_next := Suc (p_next p)\<rparr>))"

definition posix_detach :: "nat \<Rightarrow> procs \<Rightarrow> int \<times> procs" where
  "posix_detach t p =
     (case p_threads p t of
        None \<Rightarrow> (c_ESRCH, p)
      | Some (Detached fin) \<Rightarrow> (c_EINVAL, p)
      | Some (Joinable fin) \<Rightarrow> (0, p\<lparr>p_threads := (p_threads p)(t := if fin then None else Some (Detached False))\<rparr>))"

text \<open>\<open>pthread_join\<close> by thread \<open>self\<close>; it blocks while the thread runs.\<close>

definition posix_join :: "nat \<Rightarrow> nat \<Rightarrow> procs \<Rightarrow> (int \<times> procs) option" where
  "posix_join self t p =
     (case p_threads p t of
        None \<Rightarrow> Some (c_ESRCH, p)
      | Some (Detached fin) \<Rightarrow> Some (c_EINVAL, p)
      | Some (Joinable fin) \<Rightarrow>
          if t = self then Some (c_EDEADLK, p)
          else if fin then Some (0, p\<lparr>p_threads := (p_threads p)(t := None)\<rparr>)
          else None)"

definition thread_create :: "pthread_thread \<Rightarrow> procs \<Rightarrow> (pthread_thread, procs) outcome" where
  "thread_create th p =
     (let (err, t, p) = posix_create p in
      if err \<noteq> 0 then Exn (Pthread_error err) p else Ret (th\<lparr>m_thread := Some t\<rparr>) p)"

text \<open>The function object of \<open>run\<close> is owned by an \<open>auto_ptr\<close> until the thread has it.\<close>

definition thread_run :: "pthread_thread \<Rightarrow> procs \<Rightarrow> (pthread_thread, procs) outcome" where
  "thread_run th p =
     (case thread_create th (p\<lparr>p_funcs := Suc (p_funcs p)\<rparr>) of
        Exn e p \<Rightarrow> Exn e (p\<lparr>p_funcs := p_funcs p - 1\<rparr>)
      | r \<Rightarrow> r)"

definition thread_detach :: "pthread_thread \<Rightarrow> procs \<Rightarrow> (unit, procs) outcome" where
  "thread_detach th p =
     (case m_thread th of
        None \<Rightarrow> Fault Uninitialised
      | Some t \<Rightarrow> let (err, p) = posix_detach t p in if err \<noteq> 0 then Exn (Pthread_error err) p else Ret () p)"

definition thread_join :: "nat \<Rightarrow> pthread_thread \<Rightarrow> procs \<Rightarrow> (unit, procs) outcome option" where
  "thread_join self th p =
     (case m_thread th of
        None \<Rightarrow> Some (Fault Uninitialised)
      | Some t \<Rightarrow>
          map_option (\<lambda>(err, p). if err \<noteq> 0 then Exn (Pthread_error err) p else Ret () p) (posix_join self t p))"

definition thread_eq :: "pthread_thread \<Rightarrow> pthread_thread \<Rightarrow> bool" where
  "thread_eq a b = (m_thread a = m_thread b)"

definition thread_ne :: "pthread_thread \<Rightarrow> pthread_thread \<Rightarrow> bool" where
  "thread_ne a b = (\<not> thread_eq a b)"

text \<open>
  \<open>trampoline\<close> runs the function and deletes it on every path; an exception is reported and passed on,
  which ends the program.
\<close>

definition trampoline :: "(unit, procs) outcome \<Rightarrow> (unit, procs) outcome" where
  "trampoline body =
     (case body of
        Ret _ p \<Rightarrow> Ret () (p\<lparr>p_funcs := p_funcs p - 1\<rparr>)
      | Exn e p \<Rightarrow> Exn e (p\<lparr>p_funcs := p_funcs p - 1\<rparr>)
      | Fault f \<Rightarrow> Fault f)"

text \<open>A request to cancel stays with its thread until it comes to a cancellation point. The code is ignored.\<close>

definition posix_cancel :: "nat \<Rightarrow> procs \<Rightarrow> int \<times> procs" where
  "posix_cancel t p =
     (case p_threads p t of
        None \<Rightarrow> (c_ESRCH, p)
      | Some st \<Rightarrow> (0, p\<lparr>p_cancelled := List.insert t (p_cancelled p)\<rparr>))"

definition thread_cancel :: "pthread_thread \<Rightarrow> procs \<Rightarrow> (unit, procs) outcome" where
  "thread_cancel th p = (case m_thread th of None \<Rightarrow> Fault Uninitialised | Some t \<Rightarrow> Ret () (snd (posix_cancel t p)))"

text \<open>A thread comes to its end.\<close>

definition finish_thread :: "nat \<Rightarrow> procs \<Rightarrow> procs" where
  "finish_thread t p =
     (case p_threads p t of
        Some (Joinable fin) \<Rightarrow> p\<lparr>p_threads := (p_threads p)(t \<mapsto> Joinable True)\<rparr>
      | Some (Detached fin) \<Rightarrow> p\<lparr>p_threads := (p_threads p)(t := None)\<rparr>
      | None \<Rightarrow> p)"

text \<open>\<open>exit\<close> does not return; this is the state it leaves. A cancellation point ends the thread in the same way.\<close>

definition thread_exit :: "nat \<Rightarrow> procs \<Rightarrow> procs" where
  "thread_exit self p = finish_thread self p"

definition cancellation_point :: "nat \<Rightarrow> procs \<Rightarrow> procs" where
  "cancellation_point self p =
     (if self \<in> set (p_cancelled p) then thread_exit self (p\<lparr>p_cancelled := removeAll self (p_cancelled p)\<rparr>) else p)"

section \<open>The worker threads of the loop\<close>

type_synonym workers = "pthread_thread list"

definition is_running :: "workers \<Rightarrow> bool" where
  "is_running ws = (ws \<noteq> [])"

fun add_thread :: "nat \<Rightarrow> workers \<times> procs \<Rightarrow> (unit, workers \<times> procs) outcome" where
  "add_thread 0 s = Ret () s"
| "add_thread (Suc n) s =
     (case thread_run \<lparr>m_thread = None\<rparr> (snd s) of
        Ret th p \<Rightarrow> add_thread n (fst s @ [th], p)
      | Exn e p \<Rightarrow> Exn e (fst s, p)
      | Fault f \<Rightarrow> Fault f)"

definition loop_start :: "nat \<Rightarrow> workers \<times> procs \<Rightarrow> (unit, workers \<times> procs) outcome" where
  "loop_start num s = (if is_running (fst s) then Exn Runtime_error s else add_thread num s)"

text \<open>
  The loop of \<open>join\<close> over the workers; \<open>None\<close> while it waits for a thread. A worker that joins itself is
  detached instead.
\<close>

fun join_from :: "nat \<Rightarrow> workers \<Rightarrow> procs \<Rightarrow> (unit, procs) outcome option" where
  "join_from self [] p = Some (Ret () p)"
| "join_from self (th # ws) p =
     (case thread_join self th p of
        None \<Rightarrow> None
      | Some (Ret _ p) \<Rightarrow> join_from self ws p
      | Some (Fault f) \<Rightarrow> Some (Fault f)
      | Some (Exn e p) \<Rightarrow>
          if e = Pthread_error c_EDEADLK then
            (case thread_detach th p of
               Ret _ p \<Rightarrow> join_from self ws p
             | Exn e p \<Rightarrow> Some (Exn e p)
             | Fault f \<Rightarrow> Some (Fault f))
          else Some (Exn e p))"

definition loop_join :: "nat \<Rightarrow> workers \<times> procs \<Rightarrow> (unit, workers \<times> procs) outcome option" where
  "loop_join self s =
     (case join_from self (fst s) (snd s) of
        None \<Rightarrow> None
      | Some (Ret _ p) \<Rightarrow> Some (Ret () ([], p))
      | Some (Exn e p) \<Rightarrow> Some (Exn e (fst s, p))
      | Some (Fault f) \<Rightarrow> Some (Fault f))"

text \<open>\<open>loop::run\<close> is \<open>start\<close> and then \<open>join\<close>.\<close>

definition loop_run :: "nat \<Rightarrow> nat \<Rightarrow> workers \<times> procs \<Rightarrow> (unit, workers \<times> procs) outcome option" where
  "loop_run self num s =
     (case loop_start num s of
        Ret _ s \<Rightarrow> loop_join self s
      | Exn e s \<Rightarrow> Some (Exn e s)
      | Fault f \<Rightarrow> Some (Fault f))"

fun detach_from :: "workers \<Rightarrow> procs \<Rightarrow> (unit, procs) outcome" where
  "detach_from [] p = Ret () p"
| "detach_from (th # ws) p = bind_outcome (thread_detach th p) (\<lambda>_ p. detach_from ws p)"

definition loop_detach :: "workers \<times> procs \<Rightarrow> (unit, workers \<times> procs) outcome" where
  "loop_detach s =
     (case detach_from (fst s) (snd s) of
        Ret _ p \<Rightarrow> Ret () (fst s, p)
      | Exn e p \<Rightarrow> Exn e (fst s, p)
      | Fault f \<Rightarrow> Fault f)"

section \<open>Starting and joining\<close>

definition ids :: "workers \<Rightarrow> nat list" where
  "ids ws = map (\<lambda>th. the (m_thread th)) ws"

text \<open>The workers are different threads that exist and can be joined.\<close>

definition workers_ok :: "workers \<Rightarrow> procs \<Rightarrow> bool" where
  "workers_ok ws p \<longleftrightarrow> (\<forall>th\<in>set ws. m_thread th \<noteq> None) \<and> distinct (ids ws) \<and>
     (\<forall>t\<in>set (ids ws). \<exists>fin. p_threads p t = Some (Joinable fin)) \<and> (\<forall>t. p_threads p t \<noteq> None \<longrightarrow> t < p_next p)"

lemma ids_simps [simp]: "ids [] = []" "ids (th # ws) = the (m_thread th) # ids ws" "ids (ws @ ws') = ids ws @ ids ws'"
  by (simp_all add: ids_def)

lemma thread_run_result:
  assumes "workers_ok ws p"
  shows "case thread_run th p of
      Ret th' p' \<Rightarrow> workers_ok (ws @ [th']) p' \<and> p_funcs p' = Suc (p_funcs p) \<and> the (m_thread th') = p_next p
    | Exn e p' \<Rightarrow> workers_ok ws p' \<and> p_funcs p' = p_funcs p \<and> p_threads p' = p_threads p \<and> (\<exists>err. e = Pthread_error err)
    | Fault f \<Rightarrow> False"
proof -
  have lt: "p_next p \<notin> set (ids ws)" "p_threads p (p_next p) = None"
    using assms by (auto simp: workers_ok_def)
  then show ?thesis using assms
    by (auto simp: thread_run_def thread_create_def posix_create_def workers_ok_def Let_def less_Suc_eq split: list.split)
qed

lemma add_thread_result:
  "workers_ok ws p \<Longrightarrow>
   (\<exists>ws' p'. add_thread n (ws, p) = Ret () (ws @ ws', p') \<and> length ws' = n \<and> workers_ok (ws @ ws') p' \<and> p_funcs p' = p_funcs p + n) \<or>
   (\<exists>ws' p' err. add_thread n (ws, p) = Exn (Pthread_error err) (ws @ ws', p') \<and> length ws' < n \<and> workers_ok (ws @ ws') p' \<and>
      p_funcs p' = p_funcs p + length ws')"
proof (induction n arbitrary: ws p)
  case (Suc n)
  note r = thread_run_result [OF Suc.prems, of "\<lparr>m_thread = None\<rparr>"]
  show ?case
  proof (cases "thread_run \<lparr>m_thread = None\<rparr> p")
    case (Ret th p1)
    then have p1: "workers_ok (ws @ [th]) p1" "p_funcs p1 = Suc (p_funcs p)" using r by simp_all
    from Suc.IH [OF p1(1)] show ?thesis
    proof (elim disjE exE conjE)
      fix ws' p'
      assume "add_thread n (ws @ [th], p1) = Ret () ((ws @ [th]) @ ws', p')" "length ws' = n" "workers_ok ((ws @ [th]) @ ws') p'"
        "p_funcs p' = p_funcs p1 + n"
      then show ?thesis using Ret p1(2) by (intro disjI1 exI [of _ "th # ws'"] exI [of _ p']) simp
    next
      fix ws' p' err
      assume "add_thread n (ws @ [th], p1) = Exn (Pthread_error err) ((ws @ [th]) @ ws', p')" "length ws' < n"
        "workers_ok ((ws @ [th]) @ ws') p'" "p_funcs p' = p_funcs p1 + length ws'"
      then show ?thesis using Ret p1(2) by (intro disjI2 exI [of _ "th # ws'"] exI [of _ p'] exI [of _ err]) simp
    qed
  next
    case (Exn e p1)
    then show ?thesis using r by (intro disjI2 exI [of _ "[]"] exI [of _ p1]) auto
  qed (use r in simp)
qed simp

text \<open>All workers but the caller have finished.\<close>

definition others_finished :: "nat \<Rightarrow> workers \<Rightarrow> procs \<Rightarrow> bool" where
  "others_finished self ws p \<longleftrightarrow> (\<forall>t\<in>set (ids ws). t \<noteq> self \<longrightarrow> p_threads p t = Some (Joinable True))"

lemma join_from_result:
  "workers_ok ws p \<Longrightarrow> others_finished self ws p \<Longrightarrow> p_threads p self \<noteq> Some (Joinable True) \<Longrightarrow>
   \<exists>p'. join_from self ws p = Some (Ret () p') \<and>
     p_threads p' = (\<lambda>t. if t \<in> set (ids ws) then if t = self then Some (Detached False) else None else p_threads p t)"
proof (induction ws arbitrary: p)
  case (Cons th ws)
  obtain t where t: "m_thread th = Some t" using Cons.prems(1) by (auto simp: workers_ok_def)
  have ok: "t \<notin> set (ids ws)" "\<exists>fin. p_threads p t = Some (Joinable fin)" using Cons.prems(1) t by (auto simp: workers_ok_def)
  show ?case
  proof (cases "t = self")
    case True
    let ?p = "p\<lparr>p_threads := (p_threads p)(t \<mapsto> Detached False)\<rparr>"
    have jf: "p_threads p t = Some (Joinable False)" using ok(2) Cons.prems(3) True by auto
    have "workers_ok ws ?p" "others_finished self ws ?p" using Cons.prems ok t True by (auto simp: workers_ok_def others_finished_def)
    from Cons.IH [OF this] show ?thesis using t True jf ok(1)
      by (auto simp: thread_join_def posix_join_def thread_detach_def posix_detach_def fun_eq_iff)
  next
    case False
    let ?p = "p\<lparr>p_threads := (p_threads p)(t := None)\<rparr>"
    have jf: "p_threads p t = Some (Joinable True)" using Cons.prems(2) t False by (simp add: others_finished_def)
    have "workers_ok ws ?p" "others_finished self ws ?p" using Cons.prems ok t False by (auto simp: workers_ok_def others_finished_def)
    from Cons.IH [OF this] Cons.prems(3) show ?thesis using t False jf ok(1)
      by (auto simp: thread_join_def posix_join_def fun_eq_iff)
  qed
qed simp

text \<open>Every worker is gone; the one that called \<open>join\<close> itself is detached.\<close>

definition reaped :: "nat \<Rightarrow> workers \<Rightarrow> procs \<Rightarrow> bool" where
  "reaped self ws p \<longleftrightarrow> (\<forall>t\<in>set (ids ws). p_threads p t = (if t = self then Some (Detached False) else None))"

text \<open>
  C33. \<open>start\<close> on an idle loop creates exactly \<open>num\<close> workers, different threads that can be joined, or
  throws with the workers created so far kept and no function object leaked. When the workers have
  finished, \<open>join\<close> (from outside or from a worker, which detaches itself) returns, reaps every one of
  them and leaves the loop idle.
\<close>
theorem workers_lifecycle:
  assumes "workers_ok [] p"
  shows "case loop_start num ([], p) of
      Ret _ (ws, p1) \<Rightarrow> length ws = num \<and> workers_ok ws p1 \<and> p_funcs p1 = p_funcs p + num \<and>
        (\<forall>p2 self. workers_ok ws p2 \<longrightarrow> others_finished self ws p2 \<longrightarrow> p_threads p2 self \<noteq> Some (Joinable True) \<longrightarrow>
           (\<exists>p3. loop_join self (ws, p2) = Some (Ret () ([], p3)) \<and> reaped self ws p3))
    | Exn e (ws, p1) \<Rightarrow> length ws < num \<and> workers_ok ws p1 \<and> p_funcs p1 = p_funcs p + length ws
    | Fault f \<Rightarrow> False"
proof -
  have join: "\<exists>p3. loop_join self (ws, p2) = Some (Ret () ([], p3)) \<and> reaped self ws p3"
    if "workers_ok ws p2" "others_finished self ws p2" "p_threads p2 self \<noteq> Some (Joinable True)" for ws p2 self
    using join_from_result [OF that] by (auto simp: loop_join_def reaped_def)
  have "loop_start num ([], p) = add_thread num ([], p)" by (simp add: loop_start_def is_running_def)
  then show ?thesis using add_thread_result [OF assms, of num] join by auto
qed

definition sample_procs :: procs where
  "sample_procs = \<lparr>p_threads = [0 \<mapsto> Joinable False], p_next = 1, p_create = [0, 11], p_funcs = 0, p_cancelled = []\<rparr>"

theorem workers_lifecycle_witness:
  "workers_ok [] sample_procs \<and>
   (\<exists>p3. loop_join 0 (let p = sample_procs\<lparr>p_create := []\<rparr> in
       case loop_start 1 ([], p) of Ret _ (ws, p1) \<Rightarrow> (ws, finish_thread 1 p1) | _ \<Rightarrow> ([], p)) = Some (Ret () ([], p3)) \<and>
     p_threads p3 1 = None)"
proof -
  let ?p = "sample_procs\<lparr>p_create := []\<rparr>"
  let ?ws = "[\<lparr>m_thread = Some 1\<rparr>]"
  let ?p1 = "?p\<lparr>p_threads := [0 \<mapsto> Joinable False, 1 \<mapsto> Joinable False], p_next := 2, p_funcs := 1\<rparr>"
  have ok: "workers_ok [] sample_procs" "workers_ok [] ?p" by (auto simp: workers_ok_def sample_procs_def)
  have st: "loop_start 1 ([], ?p) = Ret () (?ws, ?p1)"
    by (simp add: loop_start_def is_running_def thread_run_def thread_create_def posix_create_def sample_procs_def)
  have f: "workers_ok ?ws (finish_thread 1 ?p1)" "others_finished 0 ?ws (finish_thread 1 ?p1)" "p_threads (finish_thread 1 ?p1) 0 \<noteq> Some (Joinable True)"
    by (auto simp: workers_ok_def others_finished_def finish_thread_def sample_procs_def)
  from workers_lifecycle [OF ok(2), of 1] st f obtain p3 where
    "loop_join 0 (?ws, finish_thread 1 ?p1) = Some (Ret () ([], p3))" "reaped 0 ?ws p3" by auto
  then show ?thesis using ok(1) st by (auto simp: Let_def reaped_def)
qed

text \<open>
  \<open>detach\<close> leaves the detached threads in \<open>m_workers\<close>, so the \<open>join\<close> that the destructor calls throws:
  a detached worker cannot be joined.
\<close>
lemma detach_then_join_throws:
  assumes "workers_ok ws p" and "ws \<noteq> []" and "\<forall>t\<in>set (ids ws). p_threads p t = Some (Joinable False)"
  shows "\<exists>p'. loop_detach (ws, p) = Ret () (ws, p') \<and> loop_join self (ws, p') = Some (Exn (Pthread_error c_EINVAL) (ws, p'))"
proof -
  have det: "\<exists>p'. detach_from ws p = Ret () p' \<and> (\<forall>t. t \<in> set (ids ws) \<longrightarrow> p_threads p' t = Some (Detached False)) \<and>
      (\<forall>t. t \<notin> set (ids ws) \<longrightarrow> p_threads p' t = p_threads p t)"
    using assms(1,3)
  proof (induction ws arbitrary: p)
    case (Cons th ws)
    obtain t where t: "m_thread th = Some t" using Cons.prems(1) by (auto simp: workers_ok_def)
    let ?p = "p\<lparr>p_threads := (p_threads p)(t \<mapsto> Detached False)\<rparr>"
    have "workers_ok ws ?p" "\<forall>t\<in>set (ids ws). p_threads ?p t = Some (Joinable False)" "t \<notin> set (ids ws)"
      using Cons.prems t by (auto simp: workers_ok_def)
    with Cons.IH [of ?p] Cons.prems(2) t show ?case by (auto simp: thread_detach_def posix_detach_def)
  qed simp
  then obtain p' where p': "detach_from ws p = Ret () p'" "\<forall>t. t \<in> set (ids ws) \<longrightarrow> p_threads p' t = Some (Detached False)" by blast
  obtain th vs t where ws: "ws = th # vs" "m_thread th = Some t" using assms(1,2) by (cases ws) (auto simp: workers_ok_def)
  have "join_from self ws p' = Some (Exn (Pthread_error c_EINVAL) p')"
    using p'(2) ws by (simp add: thread_join_def posix_join_def c_EINVAL_def c_EDEADLK_def)
  then show ?thesis using p'(1) by (simp add: loop_detach_def loop_join_def)
qed

lemma detach_then_join_throws_witness:
  "let ws = [\<lparr>m_thread = Some 0\<rparr>] in
   \<exists>p'. loop_detach (ws, sample_procs) = Ret () (ws, p') \<and> loop_join 7 (ws, p') = Some (Exn (Pthread_error c_EINVAL) (ws, p'))"
  unfolding Let_def by (rule detach_then_join_throws) (auto simp: workers_ok_def sample_procs_def)

text \<open>
  \<open>cancel\<close> only asks: the thread goes on, so that \<open>join\<close> still waits for it, until it comes to a cancellation
  point; then \<open>join\<close> returns and the thread is gone. Cancelling a thread that has been joined changes
  nothing.
\<close>
lemma cancel_then_join:
  assumes "m_thread th = Some t" and "p_threads p t = Some (Joinable False)" and "t \<noteq> self"
  shows "\<exists>p1 p2. thread_cancel th p = Ret () p1 \<and> p_threads p1 = p_threads p \<and> thread_join self th p1 = None \<and>
     thread_join self th (cancellation_point t p1) = Some (Ret () p2) \<and> p_threads p2 = (p_threads p)(t := None) \<and>
     thread_cancel th p2 = Ret () p2"
  using assms
  by (simp add: thread_cancel_def posix_cancel_def thread_join_def posix_join_def cancellation_point_def thread_exit_def finish_thread_def)

end
