(* ===== verification/Loop_Lifecycle.thy ===== *)
theory Loop_Lifecycle
  imports Loop_Props Threads
begin

text \<open>
  The life of an event loop from its constructor to its destructor, \<open>~loop_impl\<close> of
  \<open>src/mpsrc/wavy_loop.cc\<close>: it ends and joins the workers, then releases the table of handlers and,
  with the members, the output component and the kernel.
\<close>

section \<open>The destructor\<close>

text \<open>
  \<open>delete[] m_state\<close> drops the handlers from the last descriptor to the first. \<open>release h fd\<close> stands for
  what dropping the reference to the client's handler \<open>h\<close> does; the output component in the table has
  another reference in \<open>m_out\<close> and lives on.
\<close>

fun delete_handlers :: "(nat \<Rightarrow> int \<Rightarrow> os \<Rightarrow> os) \<Rightarrow> nat \<Rightarrow> loop_impl \<Rightarrow> loop_impl" where
  "delete_handlers release 0 l = l"
| "delete_handlers release (Suc i) l =
     delete_handlers release i
       (case m_state l (int i) of
          None \<Rightarrow> l
        | Some h \<Rightarrow> if int i = m_ep (o_kernel (fst (m_out l))) then l else set_loop_os (release h (int i) (loop_os l)) l)"

text \<open>
  The destructor of a loop with a table of \<open>slots\<close> handlers, run by thread \<open>self\<close>. \<open>leave\<close> is what the
  workers do between \<open>end\<close> and the return of \<open>join\<close>. Where \<open>join\<close> throws, the members are still destroyed,
  but the table keeps the output component alive.
\<close>

definition loop_delete ::
    "(loop_impl \<times> procs \<Rightarrow> loop_impl \<times> procs) \<Rightarrow> (nat \<Rightarrow> int \<Rightarrow> os \<Rightarrow> os) \<Rightarrow> nat \<Rightarrow> nat \<Rightarrow> loop_impl \<times> workers \<times> procs \<Rightarrow>
     (unit, world \<times> procs) outcome option" where
  "loop_delete leave release slots self s =
     (let (l, ws, p) = s; (l, p) = leave (loop_end l, p) in
      case loop_join self (ws, p) of
        None \<Rightarrow> None
      | Some (Fault f) \<Rightarrow> Some (Fault f)
      | Some (Exn e (ws, p)) \<Rightarrow> Some (Exn e (set_os (kernel_delete (m_kernel l) (loop_os l)) (snd (m_out l)), p))
      | Some (Ret _ (ws, p)) \<Rightarrow>
          (case out_delete (m_out (delete_handlers release slots l)) of
             Ret _ (m, w) \<Rightarrow> Some (Ret () (set_os (kernel_delete (m_kernel l) (wd_os w)) w, p))
           | Exn e (m, w) \<Rightarrow> Some (Exn e (w, p))
           | Fault f \<Rightarrow> Some (Fault f)))"

section \<open>Output that is still pending\<close>

text \<open>The items of \<open>fd\<close> that were not written.\<close>

definition left_items :: "out \<Rightarrow> int \<Rightarrow> item list" where
  "left_items m fd = (case ctx_at fd m of None \<Rightarrow> [] | Some x \<Rightarrow> items x)"

lemma xfer_delete_result: "xf_inv x \<Longrightarrow> xfer_delete x = Ret () (fins (items x))"
  using clear_items [of x] xfer_new_inv(2) by (auto simp: xfer_delete_def items_def xf_bytes_def xfer_new_def fins_def)

lemma delete_ctxs_result:
  "list_all xf_inv (o_ctx m) \<Longrightarrow> i \<le> length (o_ctx m) \<Longrightarrow>
   \<exists>w'. delete_ctxs i (m, w) = Ret () (m, w') \<and> wd_os w' = wd_os w \<and>
     (\<forall>fd. fst (wd_io w' fd) = fst (wd_io w fd) @ (if 0 \<le> fd \<and> nat fd < i then fins (items (o_ctx m ! nat fd)) else []))"
proof (induction i arbitrary: w)
  case (Suc i)
  let ?w = "set_io (int i) (fst (wd_io w (int i)) @ fins (items (o_ctx m ! i)), snd (wd_io w (int i))) w"
  have "xf_inv (o_ctx m ! i)" using Suc.prems by (simp add: list_all_length)
  then have "delete_ctxs (Suc i) (m, w) = delete_ctxs i (m, ?w)" by (simp add: xfer_delete_result)
  moreover from Suc.IH [of ?w] Suc.prems obtain w' where "delete_ctxs i (m, ?w) = Ret () (m, w')" "wd_os w' = wd_os ?w"
    "\<forall>fd. fst (wd_io w' fd) = fst (wd_io ?w fd) @ (if 0 \<le> fd \<and> nat fd < i then fins (items (o_ctx m ! nat fd)) else [])" by auto
  ultimately show ?case by (intro exI [of _ w']) (auto simp: set_io_def less_Suc_eq nat_eq_iff)
qed simp

lemma out_delete_result:
  assumes "list_all xf_inv (o_ctx m)"
  shows "\<exists>m' w'. out_delete (m, w) = Ret () (m', w') \<and> wd_os w' = kernel_delete (o_kernel m) (wd_os w) \<and>
     (\<forall>fd. fst (wd_io w' fd) = fst (wd_io w fd) @ fins (left_items m fd))"
proof -
  from delete_ctxs_result [OF assms le_refl, of w] obtain w' where
    "delete_ctxs (length (o_ctx m)) (m, w) = Ret () (m, w')" "wd_os w' = wd_os w"
    "\<forall>fd. fst (wd_io w' fd) = fst (wd_io w fd) @ (if 0 \<le> fd \<and> nat fd < length (o_ctx m) then fins (items (o_ctx m ! nat fd)) else [])"
    by blast
  moreover have "fins [] = []" by (simp add: fins_def)
  ultimately show ?thesis by (auto simp: out_delete_def set_os_def left_items_def ctx_at_def)
qed

lemma delete_handlers_result:
  "fst (m_out (delete_handlers release n l)) = fst (m_out l) \<and> wd_io (snd (m_out (delete_handlers release n l))) = wd_io (snd (m_out l)) \<and>
   m_kernel (delete_handlers release n l) = m_kernel l"
proof (induction n arbitrary: l)
  case (Suc n)
  show ?case using Suc [of "set_loop_os x l" for x] Suc [of l]
    by (auto simp: set_loop_os_def set_os_def split: option.split)
qed simp

section \<open>Teardown\<close>


lemma loop_delete_result:
  assumes "list_all xf_inv (o_ctx (fst (m_out l)))" and "leave (loop_end l0, p0) = (l, p)"
    and "loop_join self (ws, p) = Some (Ret () ([], p'))"
  shows "\<exists>w. loop_delete leave release slots self (l0, ws, p0) = Some (Ret () (w, p')) \<and>
     wd_os w = kernel_delete (m_kernel l) (kernel_delete (o_kernel (fst (m_out l))) (loop_os (delete_handlers release slots l))) \<and>
     (\<forall>fd. fst (wd_io w fd) = fst (wd_io (snd (m_out l)) fd) @ fins (left_items (fst (m_out l)) fd))"
proof -
  let ?l = "delete_handlers release slots l"
  obtain m w where mw: "m_out ?l = (m, w)" by fastforce
  have same: "m = fst (m_out l)" "wd_io w = wd_io (snd (m_out l))"
    using delete_handlers_result [of release slots l] mw by auto
  from out_delete_result [of m w] assms(1) same(1) obtain m' w' where
    "out_delete (m, w) = Ret () (m', w')" "wd_os w' = kernel_delete (o_kernel m) (wd_os w)"
    "\<forall>fd. fst (wd_io w' fd) = fst (wd_io w fd) @ fins (left_items m fd)" by auto
  then show ?thesis using assms(2,3) mw same by (simp add: loop_delete_def set_os_def)
qed




section \<open>A loop that was not used\<close>

lemma sys_openfd_keeps_wf:
  assumes "sys_openfd os = (fd, os')" "os_wf os"
  shows "os_wf os'"
  using assms(1) unfolding sys_openfd_def
proof (cases rule: sys_call_cases)
  case (2 os1)
  then show ?thesis using same_resources_wf [OF 2(1)] assms(2)
    by (auto simp: Let_def os_wf_def sys_fail_def split: if_splits)
qed (use same_resources_wf assms in blast)

lemma kernel_new_result:
  assumes "os_wf os"
  shows "case kernel_new os of Ret k os' \<Rightarrow> plus_fd (m_ep k) os os' \<and> os_wf os' | Exn e os' \<Rightarrow> same_resources os os' | Fault f \<Rightarrow> False"
  using sys_openfd_result [OF _ assms] sys_openfd_keeps_wf [OF _ assms]
  by (cases "sys_openfd os") (auto simp: kernel_new_def)

lemma kernel_max_same:
  "case kernel_max os of Ret n os' \<Rightarrow> same_resources os os' | Exn e os' \<Rightarrow> same_resources os os' | Fault f \<Rightarrow> False"
  using sys_take_same [of os] by (auto simp: kernel_max_def split: prod.split option.split)

lemma kernel_delete_plus: "plus_fd (m_ep k) os os' \<Longrightarrow> same_resources os' os'' \<Longrightarrow> same_resources os (kernel_delete k os'')"
  unfolding kernel_delete_def by (intro plus_fd_close) (rule plus_fd_same)

lemma out_new_resources:
  assumes "os_wf os"
  shows "case out_new alloc os of
      Ret m os' \<Rightarrow> plus_fd (m_ep (o_kernel m)) os os' \<and> (\<forall>x\<in>set (o_ctx m). x = xfer_new)
    | Exn e os' \<Rightarrow> same_resources os os'
    | Fault f \<Rightarrow> False"
proof (cases "kernel_new os")
  case (Ret k os1)
  then have p: "plus_fd (m_ep k) os os1" using kernel_new_result [OF assms] by simp
  show ?thesis using Ret p kernel_max_same [of os1] kernel_delete_plus [OF p] plus_fd_same [OF p]
    by (cases "kernel_max os1") (auto simp: out_new_def)
qed (use kernel_new_result [OF assms] in \<open>auto simp: out_new_def\<close>)

lemma add_kernel_plus:
  assumes "plus_fd (m_ep k2) os os1" "add_kernel k k2 os1 = (r, os2)"
  shows "plus_fd (m_ep k2) os os2"
  using assms epoll_ctl_add_result [OF assms(1)] by (auto simp: add_kernel_def add_fd_def Let_def split: prod.splits if_splits)

lemma delete_handlers_only_out:
  assumes "\<forall>i. m_state l i \<noteq> None \<longrightarrow> i = m_ep (o_kernel (fst (m_out l)))"
  shows "delete_handlers release n l = l"
  using assms by (induction n) (auto split: option.split)

text \<open>
  Creating a loop fails without effect, or destroying it unused gives back every resource, whatever
  system calls fail.
\<close>
lemma loop_new_delete:
  assumes "os_wf os"
  shows "case loop_new alloc os of
      Ret l os1 \<Rightarrow> \<exists>w. loop_delete (\<lambda>s. s) release slots self (l, [], p) = Some (Ret () (w, p)) \<and> same_resources os (wd_os w)
    | Exn e os1 \<Rightarrow> same_resources os os1
    | Fault f \<Rightarrow> False"
proof (cases "kernel_new os")
  case (Ret k os1)
  then have k: "plus_fd (m_ep k) os os1" "os_wf os1" using kernel_new_result [OF assms] by simp_all
  note close = kernel_delete_plus [OF k(1)]
  show ?thesis
  proof (cases "kernel_max os1")
    case max: (Ret n os2)
    then have s2: "same_resources os1 os2" using kernel_max_same [of os1] by simp
    then have wf2: "os_wf os2" using same_resources_wf k(2) by blast
    show ?thesis
    proof (cases "alloc (of_nat (16 * n))")
      case True
      note o = out_new_resources [OF wf2, of alloc]
      show ?thesis
      proof (cases "out_new alloc os2")
        case out: (Ret m os3)
        then have m: "plus_fd (m_ep (o_kernel m)) os2 os3" "\<forall>x\<in>set (o_ctx m). x = xfer_new" using o by simp_all
        obtain r os4 where a: "add_kernel k (o_kernel m) os3 = (r, os4)" by fastforce
        let ?l = "\<lparr>m_off = 0, m_num = 0, m_pollable = True, m_end_flag = False, m_backlog = [],
          m_state = (\<lambda>_. None)(m_ep (o_kernel m) \<mapsto> 0), m_kernel = k, m_task_queue = [], m_more_queue = [],
          m_out = (m, \<lparr>wd_os = os4, wd_io = (\<lambda>_. ([], []))\<rparr>)\<rparr>"
        have "loop_new alloc os = Ret ?l os4" using Ret max True out a by (simp add: loop_new_def)
        moreover have "list_all xf_inv (o_ctx (fst (m_out (loop_end ?l))))" using m(2) by (auto simp: loop_end_def list_all_iff)
        note loop_delete_result [OF this, where leave = "\<lambda>s. s" and release = release and slots = slots and self = self and ws = "[]"
            and ?l0.0 = ?l and ?p0.0 = p and p = p and p' = p]
        moreover have "delete_handlers release slots (loop_end ?l) = loop_end ?l"
          by (rule delete_handlers_only_out) (simp add: loop_end_def)
        moreover have "same_resources os2 (kernel_delete (o_kernel m) os4)"
          using kernel_delete_plus [OF add_kernel_plus [OF m(1) a] same_resources_refl] .
        then have "same_resources os (kernel_delete k (kernel_delete (o_kernel m) os4))"
          using close same_resources_trans s2 by blast
        ultimately show ?thesis by (auto simp: loop_join_def loop_end_def)
      next
        case (Exn e os3)
        then show ?thesis using Ret max True o close same_resources_trans [OF s2] by (simp add: loop_new_def)
      qed (use o in simp)
    qed (use Ret max close [OF s2] in \<open>simp add: loop_new_def\<close>)
  qed (use Ret kernel_max_same [of os1] close in \<open>auto simp: loop_new_def\<close>)
qed (use kernel_new_result [OF assms] in \<open>auto simp: loop_new_def\<close>)

end
