(* ===== verification/Doubles.thy ===== *)
theory Doubles
  imports Complex_Main Posix
begin

text \<open>
  The \<open>double\<close> arithmetic that turns seconds into a \<open>timespec\<close> (\<open>sec2spec\<close> of \<open>src/mpsrc/wavy_timer.cc\<close>, and the
  same expression in \<open>wavy_connect.cc\<close>). A finite double is an integer significand of at most 53 bits
  and an exponent; sums and products are rounded to the nearest double, to an even significand in
  the middle between two. Infinities and NaNs have no conversion to an integer type and are left out.
\<close>

section \<open>Numbers and rounding\<close>

datatype double = Double (mant: int) (expo: int)

definition double_ok :: "double \<Rightarrow> bool" where
  "double_ok x \<longleftrightarrow> \<bar>mant x\<bar> < 9007199254740992 \<and> -1074 \<le> expo x \<and> expo x \<le> 971"

definition dval :: "double \<Rightarrow> real" where
  "dval x = of_int (mant x) * 2 powi (expo x)"

fun bitlen :: "nat \<Rightarrow> nat" where
  "bitlen n = (if n = 0 then 0 else Suc (bitlen (n div 2)))"

declare bitlen.simps [simp del]

text \<open>\<open>n\<close> divided by \<open>2 ^ k\<close>, rounded to the nearest integer.\<close>

definition half_even :: "nat \<Rightarrow> nat \<Rightarrow> nat" where
  "half_even n k =
     (let q = n div 2 ^ k; r = n mod 2 ^ k in
      if 2 * r < 2 ^ k then q else if 2 ^ k < 2 * r then q + 1 else if even q then q else q + 1)"

text \<open>The double nearest to \<open>m * 2 powi e\<close>, for numbers below the largest double.\<close>

definition rnd :: "int \<Rightarrow> int \<Rightarrow> double" where
  "rnd m e =
     (let k = max (int (bitlen (nat \<bar>m\<bar>)) - 53) (-1074 - e) in
      if k \<le> 0 then Double m e else Double (sgn m * int (half_even (nat \<bar>m\<bar>) (nat k))) (e + k))"

definition of_long :: "int \<Rightarrow> double" where
  "of_long i = rnd i 0"

definition dsub :: "double \<Rightarrow> double \<Rightarrow> double" where
  "dsub x y =
     (let e = min (expo x) (expo y) in
      rnd (mant x * 2 ^ nat (expo x - e) - mant y * 2 ^ nat (expo y - e)) e)"

definition dmul :: "double \<Rightarrow> double \<Rightarrow> double" where
  "dmul x y = rnd (mant x * mant y) (expo x + expo y)"

text \<open>Towards zero; conversion to a 64-bit type is defined just when the result fits.\<close>

definition dtrunc :: "double \<Rightarrow> int" where
  "dtrunc x = (if 0 \<le> expo x then mant x * 2 ^ nat (expo x) else sgn (mant x) * (\<bar>mant x\<bar> div 2 ^ nat (- expo x)))"

definition to_long :: "double \<Rightarrow> int option" where
  "to_long x = (let i = dtrunc x in if - (2 ^ 63) \<le> i \<and> i < 2 ^ 63 then Some i else None)"

definition dless :: "double \<Rightarrow> double \<Rightarrow> bool" where
  "dless x y =
     (let e = min (expo x) (expo y) in mant x * 2 ^ nat (expo x - e) < mant y * 2 ^ nat (expo y - e))"

section \<open>Seconds\<close>

definition sec2spec :: "double \<Rightarrow> timespec option" where
  "sec2spec sec =
     (case to_long sec of
        None \<Rightarrow> None
      | Some s \<Rightarrow>
          (case to_long (dmul (dsub sec (of_long s)) (Double 1000000000 0)) of
             None \<Rightarrow> None
           | Some ns \<Rightarrow> Some \<lparr>tv_sec = s, tv_nsec = ns\<rparr>))"

section \<open>Rounding errors\<close>

lemma bitlen_numeral [simp]:
  "bitlen 0 = 0" "bitlen 1 = 1" "bitlen (Suc 0) = 1" "bitlen (numeral (Num.Bit0 n)) = Suc (bitlen (numeral n))"
  "bitlen (numeral (Num.Bit1 n)) = Suc (bitlen (numeral n))"
  by (subst bitlen.simps, simp)+

lemma bitlen_le: "n < 2 ^ b \<Longrightarrow> bitlen n \<le> b"
proof (induction b arbitrary: n)
  case (Suc b)
  have "n div 2 < 2 ^ b" using Suc.prems by (simp add: less_mult_imp_div_less mult.commute)
  then show ?case using Suc.IH [of "n div 2"] by (subst bitlen.simps) simp
qed (simp add: bitlen.simps)

lemma bitlen_ge: "0 < n \<Longrightarrow> 2 ^ (bitlen n - 1) \<le> n"
proof (induction n rule: bitlen.induct)
  case (1 n)
  show ?case
  proof (cases "n div 2 = 0")
    case True
    then show ?thesis using 1(2) by (simp add: bitlen.simps [of n] bitlen.simps [of 0])
  next
    case False
    then have b: "bitlen (n div 2) = Suc (bitlen (n div 2 div 2))" by (subst bitlen.simps) simp
    have "2 ^ (bitlen (n div 2) - 1) \<le> n div 2" using 1 False by simp
    then have "2 * 2 ^ (bitlen (n div 2) - 1) \<le> n" by linarith
    then show ?thesis using 1(2) b by (simp add: bitlen.simps [of n])
  qed
qed

lemma half_even_error: "2 * (half_even n k * 2 ^ k) \<le> 2 * n + 2 ^ k" "2 * n \<le> 2 * (half_even n k * 2 ^ k) + 2 ^ k"
proof -
  define q r d where "q = n div 2 ^ k" and "r = n mod 2 ^ k" and "d = (2 :: nat) ^ k"
  have n: "n = q * d + r" "r < d" unfolding q_def r_def d_def by (simp_all add: div_mult_mod_eq)
  have h: "half_even n k = (if 2 * r < d then q else if d < 2 * r then q + 1 else if even q then q else q + 1)"
    by (simp add: half_even_def Let_def q_def r_def d_def)
  have "(q + 1) * d = q * d + d" by simp
  then show "2 * (half_even n k * 2 ^ k) \<le> 2 * n + 2 ^ k" "2 * n \<le> 2 * (half_even n k * 2 ^ k) + 2 ^ k"
    unfolding d_def [symmetric] h using n by (auto simp del: add_mult_distrib mult_Suc)
qed

lemma rnd_exact: "\<bar>m\<bar> < 9007199254740992 \<Longrightarrow> -1074 \<le> e \<Longrightarrow> rnd m e = Double m e"
  using bitlen_le [of "nat \<bar>m\<bar>" 53] by (simp add: rnd_def)

lemma half_even_exact: "2 ^ k dvd n \<Longrightarrow> half_even n k = n div 2 ^ k"
  by (simp add: half_even_def dvd_eq_mod_eq_0)

text \<open>Truncating a rounded quotient: the rounding moves it by less than its last binary digit.\<close>

lemma dtrunc_rnd:
  assumes "e < 0" "-1074 \<le> e"
  shows "\<exists>Q k. dtrunc (rnd (int P) e) = int (Q div 2 ^ nat (- e)) \<and> 2 * Q \<le> 2 * P + 2 ^ k \<and> 2 * P \<le> 2 * Q + 2 ^ k \<and>
     (0 < k \<longrightarrow> bitlen P = 53 + k) \<and> (k = 0 \<longrightarrow> Q = P)"
proof (cases "bitlen P \<le> 53")
  case True
  then have "rnd (int P) e = Double (int P) e" using assms by (simp add: rnd_def)
  then have "dtrunc (rnd (int P) e) = int (P div 2 ^ nat (- e))" using assms by (cases "P = 0") (auto simp: dtrunc_def zdiv_int)
  then show ?thesis by (intro exI [of _ P] exI [of _ 0]) simp
next
  case False
  define k where "k = bitlen P - 53"
  define q where "q = half_even P k"
  have k: "0 < k" "bitlen P = 53 + k" using False by (simp_all add: k_def)
  have P: "P \<noteq> 0" using k(2) bitlen.simps [of 0] by (cases "P = 0") auto
  have m: "max (int (bitlen P) - 53) (-1074 - e) = int k" using k assms by simp
  have r: "rnd (int P) e = Double (int q) (e + int k)" using P k(1) unfolding rnd_def by (simp add: m q_def)
  have "dtrunc (rnd (int P) e) = int (q * 2 ^ k div 2 ^ nat (- e))"
  proof (cases "0 \<le> e + int k")
    case True
    then have "k = nat (- e) + nat (e + int k)" using assms by simp
    then have "(2 :: nat) ^ k = 2 ^ nat (- e) * 2 ^ nat (e + int k)" by (metis power_add)
    then have "q * 2 ^ k div 2 ^ nat (- e) = q * 2 ^ nat (e + int k)" by simp
    then show ?thesis using True r by (simp add: dtrunc_def)
  next
    case False
    then have "nat (- e) = k + nat (- (e + int k))" using assms by simp
    then have "(2 :: nat) ^ nat (- e) = 2 ^ k * 2 ^ nat (- (e + int k))" by (metis power_add)
    then have "q * 2 ^ k div 2 ^ nat (- e) = q div 2 ^ nat (- (e + int k))" by (simp add: mult.commute)
    then show ?thesis using False r by (cases "q = 0") (simp_all add: dtrunc_def zdiv_int)
  qed
  then show ?thesis using half_even_error [of P k] k by (intro exI [of _ "q * 2 ^ k"] exI [of _ k]) (simp add: q_def)
qed

text \<open>The whole seconds are subtracted without an error.\<close>

lemma dsub_whole:
  assumes "double_ok (Double m e)" "0 \<le> m" "s = dtrunc (Double m e)"
  shows "if e < 0 then s = m div 2 ^ nat (- e) \<and> dsub (Double m e) (of_long s) = Double (m mod 2 ^ nat (- e)) e
         else s = m * 2 ^ nat e \<and> mant (dsub (Double m e) (of_long s)) = 0"
proof (cases "e < 0")
  case True
  let ?d = "2 ^ nat (- e) :: int"
  have s: "s = m div ?d" using assms True by (cases "m = 0") (auto simp: dtrunc_def)
  have b: "0 \<le> s" "s \<le> m" "m mod ?d \<le> m" "0 \<le> m mod ?d"
    using assms(2) s zdiv_mono2 [of m 1 ?d] by (auto simp: pos_imp_zdiv_nonneg_iff zmod_le_nonneg_dividend)
  have ok: "m < 9007199254740992" "-1074 \<le> e" using assms(1,2) by (simp_all add: double_ok_def)
  have "of_long s = Double s 0" using b ok by (simp add: of_long_def rnd_exact)
  moreover have "m - m div ?d * ?d = m mod ?d" by (simp add: minus_div_mult_eq_mod)
  ultimately have "dsub (Double m e) (of_long s) = rnd (m mod ?d) e" using True s by (simp add: dsub_def)
  then show ?thesis using True s b ok rnd_exact [of "m mod ?d" e] by simp
next
  case False
  let ?n = "nat m * 2 ^ nat e"
  have s: "s = m * 2 ^ nat e" using assms False by (simp add: dtrunc_def)
  then have sn: "nat \<bar>s\<bar> = ?n" using assms(2) by (simp add: nat_mult_distrib nat_power_eq)
  have "nat m < 2 ^ 53" using assms(1,2) by (auto simp: double_ok_def nat_less_iff)
  then have "?n < 2 ^ (53 + nat e)" by (simp add: power_add)
  then have bl: "bitlen ?n \<le> 53 + nat e" by (rule bitlen_le)
  show ?thesis
  proof (cases "bitlen ?n \<le> 53")
    case True
    then have "of_long s = Double s 0" by (simp add: of_long_def rnd_def sn)
    then show ?thesis using False s by (simp add: dsub_def rnd_def Let_def)
  next
    case big: False
    define k where "k = bitlen ?n - 53"
    have k: "0 < k" "k \<le> nat e" using big bl by (simp_all add: k_def)
    have "2 ^ k dvd ?n" using le_imp_power_dvd [OF k(2), of "2 :: nat"] by simp
    then have h: "half_even ?n k = nat m * 2 ^ (nat e - k)" using k half_even_exact [of k ?n] by (simp add: power_diff div_mult_swap le_imp_power_dvd)
    have mx: "max (int (bitlen ?n) - 53) (-1074 - 0) = int k" using big by (simp add: k_def)
    have "0 < m" using big assms(2) bitlen.simps [of 0] by (cases "m = 0") auto
    then have "sgn s = 1" using s by simp
    then have "of_long s = Double (int (nat m * 2 ^ (nat e - k))) (int k)"
      using h k(1) unfolding of_long_def rnd_def sn mx by simp
    then have "mant (dsub (Double m e) (of_long s)) = 0"
      using False k assms(2) by (simp add: dsub_def rnd_def Let_def nat_diff_distrib bitlen.simps [of 0])
    then show ?thesis using False s by simp
  qed
qed

text \<open>The nanoseconds of a fraction \<open>r / d\<close> of a second.\<close>

lemma nanoseconds:
  assumes "e < 0" "-1074 \<le> e" "r < 2 ^ nat (- e)" "r < 9007199254740992"
  shows "\<exists>ns. dtrunc (rnd (int (r * 1000000000)) e) = int ns \<and> ns < 1000000000 \<and>
     ns * 2 ^ nat (- e) < r * 1000000000 + 2 * 2 ^ nat (- e) \<and> r * 1000000000 < (ns + 2) * 2 ^ nat (- e)"
proof -
  define d P where "d = (2 :: nat) ^ nat (- e)" and "P = r * 1000000000"
  from dtrunc_rnd [OF assms(1,2), of P] obtain Q k where
    Q: "dtrunc (rnd (int P) e) = int (Q div d)" "2 * Q \<le> 2 * P + 2 ^ k" "2 * P \<le> 2 * Q + 2 ^ k"
    "0 < k \<longrightarrow> bitlen P = 53 + k" "k = 0 \<longrightarrow> Q = P" unfolding d_def by blast
  have d: "0 < d" "r < d" using assms(3) by (simp_all add: d_def)
  have "P < 2 ^ 83" using assms(4) by (simp add: P_def)
  then have "bitlen P \<le> 83" by (rule bitlen_le)
  then have "k \<le> 30" using Q(4) by (cases "0 < k") auto
  then have k: "(2 :: nat) ^ k \<le> 2 ^ 30" by (intro power_increasing) auto
  have kd: "2 ^ k \<le> d"
  proof (cases "0 < k")
    case True
    then have "0 < P" using Q(4) bitlen.simps [of 0] by (cases "P = 0") auto
    then have "2 ^ (52 + k) \<le> P" using bitlen_ge [of P] Q(4) True by simp
    moreover have "P < d * 2 ^ 30" using d by (simp add: P_def)
    ultimately show ?thesis by (simp add: power_add)
  qed (use d in simp)
  have "P + 1000000000 \<le> d * 1000000000" using d(2) by (simp add: P_def)
  then have "Q < d * 1000000000" using Q(2) k by simp
  then have ns: "Q div d < 1000000000" using d(1) by (simp add: div_less_iff_less_mult mult.commute)
  define n where "n = Q div d * d"
  have "n + Q mod d = Q" "Q mod d < d" using d(1) by (simp_all add: n_def div_mult_mod_eq)
  then have "n < P + 2 * d" "P < n + 2 * d" using Q(2,3) kd d(1) by linarith+
  then have "Q div d * d < P + 2 * d" "P < (Q div d + 2) * d" by (simp_all add: n_def add_mult_distrib)
  then show ?thesis using Q(1) ns unfolding P_def d_def by (intro exI [of _ "Q div 2 ^ nat (- e)"] conjI)
qed

lemma powi_split: "e < 0 \<Longrightarrow> 2 powi e = 1 / (2 :: real) ^ nat (- e)"
  by (simp add: power_int_def field_simps)

text \<open>
  Seconds that are not negative and fit into 63 bits have a valid \<open>timespec\<close>, less than two nanoseconds
  away from them.
\<close>
lemma sec2spec_result:
  assumes "double_ok x" "0 \<le> mant x" "to_long x = Some s"
  shows "\<exists>ns. sec2spec x = Some \<lparr>tv_sec = s, tv_nsec = ns\<rparr> \<and> 0 \<le> s \<and> of_int s \<le> dval x \<and> 0 \<le> ns \<and> ns < 1000000000 \<and>
     \<bar>dval x - (of_int s + of_int ns / 1000000000)\<bar> < 2 / 1000000000"
proof -
  obtain m e where x: "x = Double m e" by (cases x)
  have s: "s = dtrunc (Double m e)" using assms(3) x by (auto simp: to_long_def Let_def split: if_splits)
  have ok: "double_ok (Double m e)" "0 \<le> m" using assms x by simp_all
  note w = dsub_whole [OF ok s]
  have s0: "0 \<le> s" using ok(2) s by (cases "m = 0") (auto simp: dtrunc_def pos_imp_zdiv_nonneg_iff)
  show ?thesis
  proof (cases "e < 0")
    case True
    define d r where "d = (2 :: nat) ^ nat (- e)" and "r = nat (m mod 2 ^ nat (- e))"
    have sub: "dsub x (of_long s) = Double (int r) e" "s = m div int d" using w True x by (auto simp: r_def d_def)
    have r: "int r = m mod int d" "r < 9007199254740992" "r < d"
    proof -
      show "int r = m mod int d" by (simp add: r_def d_def)
      then have "int r < int d" by (simp add: d_def)
      then show "r < d" by simp
      have "m mod int d \<le> m" using ok(2) by (rule zmod_le_nonneg_dividend)
      then show "r < 9007199254740992" using \<open>int r = m mod int d\<close> ok by (simp add: double_ok_def)
    qed
    from nanoseconds [OF True _ r(3) [unfolded d_def] r(2)] ok obtain ns where
      ns: "dtrunc (rnd (int (r * 1000000000)) e) = int ns" "ns < 1000000000" "ns * d < r * 1000000000 + 2 * d" "r * 1000000000 < (ns + 2) * d"
      by (auto simp: double_ok_def d_def)
    have mul: "dmul (dsub x (of_long s)) (Double 1000000000 0) = rnd (int (r * 1000000000)) e" using sub by (simp add: dmul_def)
    have "sec2spec x = Some \<lparr>tv_sec = s, tv_nsec = int ns\<rparr>" using assms(3) ns(1,2) by (simp add: sec2spec_def to_long_def mul)
    moreover have "of_int s \<le> dval x \<and> \<bar>dval x - (of_int s + of_int (int ns) / 1000000000)\<bar> < 2 / 1000000000"
    proof -
      have "m = s * int d + int r" using sub(2) r(1) by simp
      then have m: "real_of_int m = of_int s * real d + real r" by (metis of_int_add of_int_mult of_int_of_nat_eq)
      have d0: "0 < real d" by (simp add: d_def)
      have "dval x = real_of_int m / real d" using True by (simp add: dval_def x powi_split d_def)
      then have split: "dval x = of_int s + real r / real d" using m d0 by (simp add: field_simps)
      then have v: "dval x - (of_int s + of_int (int ns) / 1000000000) = (real r * 1000000000 - real ns * real d) / (real d * 1000000000)"
        using d0 by (simp add: field_simps)
      have "\<bar>real r * 1000000000 - real ns * real d\<bar> < 2 * real d"
        using ns(3,4) by (simp add: abs_less_iff algebra_simps flip: of_nat_less_iff [where ?'a = real])
      then have "\<bar>dval x - (of_int s + of_int (int ns) / 1000000000)\<bar> < 2 / 1000000000"
        unfolding v using d0 by (simp add: abs_divide field_simps)
      moreover have "of_int s \<le> dval x" unfolding split using d0 by simp
      ultimately show ?thesis by simp
    qed
    ultimately show ?thesis using ns(2) s0 by auto
  next
    case False
    then have w: "s = m * 2 ^ nat e" "mant (dsub x (of_long s)) = 0" using w x by auto
    have "dtrunc (rnd 0 f) = 0" for f by (simp add: rnd_def Let_def dtrunc_def)
    then have "sec2spec x = Some \<lparr>tv_sec = s, tv_nsec = 0\<rparr>" using assms(3) w(2) by (simp add: sec2spec_def dmul_def to_long_def)
    moreover have "dval x = of_int s" using False w(1) x by (simp add: dval_def power_int_def)
    ultimately show ?thesis using s0 by auto
  qed
qed

end
