(* ===== verification/Signals.thy ===== *)
theory Signals
  imports Threads
begin

text \<open>
  Signal sets, masks and dispositions of \<open>src/mp/signal.h\<close>: the scoped classes that change the signal
  state of the process for their lifetime, and the thread that waits for a signal.
\<close>

section \<open>Signal sets\<close>

type_synonym sigset = "int set"

definition sig_valid :: "int \<Rightarrow> bool" where
  "sig_valid n \<longleftrightarrow> 1 \<le> n \<and> n \<le> 64"

definition sigset_empty :: sigset where
  "sigset_empty = {}"

definition sigset_fill :: sigset where
  "sigset_fill = {1..64}"

text \<open>\<open>sigaddset\<close> and \<open>sigdelset\<close> refuse numbers that are no signals; the result is not checked.\<close>

definition sigset_add :: "int \<Rightarrow> sigset \<Rightarrow> sigset" where
  "sigset_add signo st = (if sig_valid signo then insert signo st else st)"

definition sigset_del :: "int \<Rightarrow> sigset \<Rightarrow> sigset" where
  "sigset_del signo st = (if sig_valid signo then st - {signo} else st)"

section \<open>Scoped changes of the signal state\<close>

datatype disposition = Sig_dfl | Sig_ign | Handler nat

record sigstate =
  ss_mask :: sigset
  ss_action :: "int \<Rightarrow> disposition"
  ss_script :: "errno option list"

text \<open>\<open>SIGKILL\<close> and \<open>SIGSTOP\<close> can be neither blocked nor caught.\<close>

definition unmaskable :: sigset where
  "unmaskable = {9, 19}"

definition posix_sigaction :: "int \<Rightarrow> disposition \<Rightarrow> sigstate \<Rightarrow> int \<times> disposition \<times> sigstate" where
  "posix_sigaction signo act s =
     (if sig_valid signo \<and> signo \<notin> unmaskable
      then (0, ss_action s signo, s\<lparr>ss_action := (ss_action s)(signo := act)\<rparr>)
      else (-1, Sig_dfl, s))"

definition posix_block :: "sigset \<Rightarrow> sigstate \<Rightarrow> errno option \<times> sigstate" where
  "posix_block st s =
     (case ss_script s of
        Some e # sc \<Rightarrow> (Some e, s\<lparr>ss_script := sc\<rparr>)
      | _ \<Rightarrow> (None, s\<lparr>ss_script := drop 1 (ss_script s), ss_mask := ss_mask s \<union> (st - unmaskable)\<rparr>))"

definition posix_unblock :: "sigset \<Rightarrow> sigstate \<Rightarrow> sigstate" where
  "posix_unblock st s = s\<lparr>ss_mask := ss_mask s - st\<rparr>"

record scoped_sigprocmask =
  sm_set :: sigset

definition scoped_sigprocmask_new :: "sigset \<Rightarrow> sigstate \<Rightarrow> (scoped_sigprocmask, sigstate) outcome" where
  "scoped_sigprocmask_new st s =
     (case posix_block st s of
        (Some e, s) \<Rightarrow> Exn (System_error e) s
      | (None, s) \<Rightarrow> Ret \<lparr>sm_set = st\<rparr> s)"

definition scoped_sigprocmask_delete :: "scoped_sigprocmask \<Rightarrow> sigstate \<Rightarrow> sigstate" where
  "scoped_sigprocmask_delete x s = posix_unblock (sm_set x) s"

record scoped_signal =
  sc_signo :: int
  sc_save :: disposition

definition scoped_signal_new :: "int \<Rightarrow> disposition \<Rightarrow> sigstate \<Rightarrow> (scoped_signal, sigstate) outcome" where
  "scoped_signal_new signo handler s =
     (let (r, old, s) = posix_sigaction signo handler s in
      if r < 0 then Exn (System_error EINVAL) s else Ret \<lparr>sc_signo = signo, sc_save = old\<rparr> s)"

definition scoped_signal_delete :: "scoped_signal \<Rightarrow> sigstate \<Rightarrow> sigstate" where
  "scoped_signal_delete x s = (let (r, old, s) = posix_sigaction (sc_signo x) (sc_save x) s in s)"

section \<open>The signal thread\<close>

text \<open>
  The constructor sets the disposition, then the mask, then starts the thread; what was set up is
  undone in reverse order when a later part throws.
\<close>

definition pthread_signal_new ::
  "int \<Rightarrow> sigstate \<times> procs \<Rightarrow> (scoped_signal \<times> scoped_sigprocmask \<times> pthread_thread, sigstate \<times> procs) outcome" where
  "pthread_signal_new signo sp =
     (case scoped_signal_new signo Sig_ign (fst sp) of
        Exn e s \<Rightarrow> Exn e (s, snd sp)
      | Fault f \<Rightarrow> Fault f
      | Ret sg s \<Rightarrow>
          (case scoped_sigprocmask_new (sigset_add signo sigset_empty) s of
             Exn e s \<Rightarrow> Exn e (scoped_signal_delete sg s, snd sp)
           | Fault f \<Rightarrow> Fault f
           | Ret mk s \<Rightarrow>
               (case thread_run \<lparr>m_thread = None\<rparr> (snd sp) of
                  Ret th p \<Rightarrow> Ret (sg, mk, th) (s, p)
                | Exn e p \<Rightarrow> Exn e (scoped_signal_delete sg (scoped_sigprocmask_delete mk s), p)
                | Fault f \<Rightarrow> Fault f)))"

text \<open>
  \<open>thread_main\<close>: each call of \<open>sigwait\<close> (its result is not zero on an error) is followed by a call of the
  handler, until that returns false. The value lists the variable \<open>signo\<close> at each call of the handler
  (the set only has the one signal); it is \<open>None\<close> while the thread still waits.
\<close>

fun signal_thread_main :: "int \<Rightarrow> (int \<times> bool) list \<Rightarrow> int list option" where
  "signal_thread_main signo [] = None"
| "signal_thread_main signo ((r, cont) # evs) =
     (let got = (if r \<noteq> 0 then -1 else signo) in
      if cont then map_option ((#) got) (signal_thread_main signo evs) else Some [got])"

section \<open>Properties\<close>

definition same_signals :: "sigstate \<Rightarrow> sigstate \<Rightarrow> bool" where
  "same_signals s s' \<longleftrightarrow> ss_mask s' = ss_mask s \<and> ss_action s' = ss_action s"

lemma scoped_signal_restores:
  "scoped_signal_new signo h s = Ret x s1 \<Longrightarrow> ss_action s2 signo = h \<or> ss_action s2 = ss_action s1 \<Longrightarrow>
   scoped_signal_delete x s2 = s2\<lparr>ss_action := (ss_action s2)(signo := ss_action s signo)\<rparr>"
  by (auto simp: scoped_signal_new_def scoped_signal_delete_def posix_sigaction_def split: if_splits)

text \<open>
  C34. A \<open>scoped_signal\<close> that was constructed puts the old disposition back when it is destroyed; when the
  constructor throws nothing has changed. A \<open>scoped_sigprocmask\<close> blocks its signals, but restores the
  mask just when none of them was blocked before: its destructor unblocks instead of restoring.
\<close>
theorem scoped_signal_roundtrip:
  "(case scoped_signal_new signo h s of
        Ret x s1 \<Rightarrow> ss_action s1 signo = h \<and> scoped_signal_delete x s1 = s
      | Exn e s1 \<Rightarrow> s1 = s \<and> signo \<notin> {1..64} - {9, 19}
      | Fault f \<Rightarrow> False) \<and>
     (case scoped_sigprocmask_new st s of
        Ret x s1 \<Rightarrow> st - unmaskable \<subseteq> ss_mask s1 \<and>
          (same_signals s (scoped_sigprocmask_delete x s1) \<longleftrightarrow> st \<inter> ss_mask s = {})
      | Exn e s1 \<Rightarrow> same_signals s s1
      | Fault f \<Rightarrow> False)"
  by (auto simp: scoped_signal_new_def scoped_signal_delete_def posix_sigaction_def scoped_sigprocmask_new_def posix_block_def
      scoped_sigprocmask_delete_def posix_unblock_def same_signals_def unmaskable_def sig_valid_def split: list.split option.split)

text \<open>A failed construction of a signal thread leaves the signal state as it was, if the signal was not blocked.\<close>

lemma pthread_signal_new_fails:
  assumes "pthread_signal_new signo (s, p) = Exn e (s', p')" "signo \<notin> ss_mask s"
  shows "same_signals s s'"
  using assms
  by (auto simp: pthread_signal_new_def scoped_signal_new_def scoped_signal_delete_def posix_sigaction_def scoped_sigprocmask_new_def
      posix_block_def scoped_sigprocmask_delete_def posix_unblock_def same_signals_def sigset_add_def sigset_empty_def unmaskable_def
      split: outcome.splits if_splits list.splits option.splits)

lemma signal_thread_main_result:
  "signal_thread_main signo evs =
     (if list_all snd evs then None
      else Some (map (\<lambda>ev. if fst ev \<noteq> 0 then -1 else signo) (take (Suc (length (takeWhile snd evs))) evs)))"
  by (induction signo evs rule: signal_thread_main.induct) auto

end
