(* ===== verification/Handlers.thy ===== *)
theory Handlers
  imports Loop_Runs Kernel_Epoll_Timer Signals
begin

text \<open>
  The handlers the library itself adds to the loop: listening sockets (\<open>src/mpsrc/wavy_listen.cc\<close>),
  timers (\<open>wavy_timer.h\<close>, \<open>wavy_timer.cc\<close>) and signals (\<open>wavy_signal.h\<close>, \<open>wavy_signal.cc\<close>).
\<close>

section \<open>Listening sockets\<close>



definition sys_ok :: "os \<Rightarrow> int \<times> os" where
  "sys_ok = sys_call (\<lambda>os. (0, os))"

text \<open>
  \<open>loop::listen\<close> with handler object \<open>h\<close>. When \<open>add_handler\<close> throws, the last reference to the handler goes
  away and its destructor closes the socket; the \<open>catch\<close> block closes it again. \<open>other\<close> is what other
  threads do between the two.
\<close>

definition loop_listen :: "(os \<Rightarrow> os) \<Rightarrow> nat \<Rightarrow> loop_impl \<Rightarrow> (int, loop_impl) outcome" where
  "loop_listen other h l =
     (let (lsock, os) = sys_openfd (loop_os l) in
      if lsock < 0 then Exn (System_error (os_errno os)) (set_loop_os os l)
      else let (r, os) = sys_ok os in
      if r < 0 then Exn (System_error (os_errno os)) (set_loop_os (sys_close lsock os) l)
      else let (r, os) = sys_ok os in
      if r < 0 then Exn (System_error (os_errno os)) (set_loop_os (sys_close lsock os) l)
      else let (r, os) = sys_ok os in
      if r < 0 then Exn (System_error (os_errno os)) (set_loop_os (sys_close lsock os) l)
      else case add_handler_impl lsock h (set_loop_os os l) of
        Ret _ l \<Rightarrow> Ret lsock l
      | Exn e l \<Rightarrow> Exn e (set_loop_os (sys_close lsock (other (sys_close lsock (loop_os l)))) l)
      | Fault f \<Rightarrow> Fault f)"

section \<open>Timers\<close>

record timer_handler =
  th_timer :: timer
  th_periodic :: bool

definition kernel_timer_new :: "kernel \<Rightarrow> timespec option \<Rightarrow> timespec option \<Rightarrow> os \<Rightarrow> (timer, os) outcome" where
  "kernel_timer_new k value interval os =
     (let (r, tm, os) = add_timer k timer_new value interval os in
      if r < 0 then Exn (System_error (os_errno os)) (timer_delete tm os) else Ret tm os)"

definition timer_handler_new :: "kernel \<Rightarrow> timespec option \<Rightarrow> timespec option \<Rightarrow> os \<Rightarrow> (timer_handler, os) outcome" where
  "timer_handler_new k value interval os =
     bind_outcome (kernel_timer_new k value interval os) (\<lambda>tm os.
       Ret \<lparr>th_timer = tm, th_periodic = (case interval of None \<Rightarrow> False | Some i \<Rightarrow> tv_sec i \<noteq> 0 \<or> tv_nsec i \<noteq> 0)\<rparr> os)"

text \<open>\<open>operator()\<close> when the client's callback returns \<open>cont\<close>: whether the timer goes on.\<close>

definition timer_handler_call :: "timer_handler \<Rightarrow> event \<Rightarrow> bool \<Rightarrow> os \<Rightarrow> bool \<times> os" where
  "timer_handler_call th e cont os = (let (r, os) = read_timer e os in (cont \<and> th_periodic th, os))"

definition loop_add_timer :: "timespec option \<Rightarrow> timespec option \<Rightarrow> nat \<Rightarrow> loop_impl \<Rightarrow> (int, loop_impl) outcome" where
  "loop_add_timer value interval h l =
     (case timer_handler_new (m_kernel l) value interval (loop_os l) of
        Ret th os \<Rightarrow> Ret (tm_fd (th_timer th)) (set_handler (tm_fd (th_timer th)) h (set_loop_os os l))
      | Exn e os \<Rightarrow> Exn e (set_loop_os os l)
      | Fault f \<Rightarrow> Fault f)"

text \<open>
  \<open>loop::remove_timer\<close>: resetting the handler destroys the timer, which closes its descriptor, unless a
  thread still holds the handler (\<open>shared\<close>); then the descriptor is removed from the kernel.
\<close>

definition loop_remove_timer :: "bool \<Rightarrow> int \<Rightarrow> loop_impl \<Rightarrow> loop_impl" where
  "loop_remove_timer shared i l =
     (let os = (if m_state l i \<noteq> None \<and> \<not> shared then timer_delete \<lparr>tm_fd = i\<rparr> (loop_os l) else loop_os l);
          l = set_loop_os os (reset_handler i l);
          (r, os) = remove_timer (m_kernel l) i (loop_os l) in set_loop_os os l)"

section \<open>Signals\<close>

record signal_handler =
  sh_signal :: signal
  sh_scope :: scoped_signal
  sh_mask :: scoped_sigprocmask

definition kernel_signal_new :: "kernel \<Rightarrow> os \<Rightarrow> (signal, os) outcome" where
  "kernel_signal_new k os =
     (let (r, sg, os) = add_signal k signal_new os in
      if r < 0 then Exn (System_error (os_errno os)) (signal_delete sg os) else Ret sg os)"

text \<open>Members that were constructed are destroyed when a later one throws.\<close>

definition signal_handler_new :: "kernel \<Rightarrow> int \<Rightarrow> os \<times> sigstate \<Rightarrow> (signal_handler, os \<times> sigstate) outcome" where
  "signal_handler_new k signo s =
     (case kernel_signal_new k (fst s) of
        Exn e os \<Rightarrow> Exn e (os, snd s)
      | Fault f \<Rightarrow> Fault f
      | Ret sg os \<Rightarrow>
          (case scoped_signal_new signo Sig_ign (snd s) of
             Exn e ss \<Rightarrow> Exn e (signal_delete sg os, ss)
           | Fault f \<Rightarrow> Fault f
           | Ret sc ss \<Rightarrow>
               (case scoped_sigprocmask_new (sigset_add signo sigset_empty) ss of
                  Exn e ss \<Rightarrow> Exn e (signal_delete sg os, scoped_signal_delete sc ss)
                | Fault f \<Rightarrow> Fault f
                | Ret mk ss \<Rightarrow> Ret \<lparr>sh_signal = sg, sh_scope = sc, sh_mask = mk\<rparr> (os, ss))))"

definition signal_handler_delete :: "signal_handler \<Rightarrow> os \<times> sigstate \<Rightarrow> os \<times> sigstate" where
  "signal_handler_delete sh s =
     (signal_delete (sh_signal sh) (fst s), scoped_signal_delete (sh_scope sh) (scoped_sigprocmask_delete (sh_mask sh) (snd s)))"

definition signal_handler_call :: "event \<Rightarrow> bool \<Rightarrow> os \<Rightarrow> bool \<times> os" where
  "signal_handler_call e cont os = (let (r, os) = read_signal e os in (cont, os))"

definition loop_add_signal :: "int \<Rightarrow> nat \<Rightarrow> loop_impl \<times> sigstate \<Rightarrow> (int, loop_impl \<times> sigstate) outcome" where
  "loop_add_signal signo h s =
     (case signal_handler_new (m_kernel (fst s)) signo (loop_os (fst s), snd s) of
        Ret sh (os, ss) \<Rightarrow> Ret (sg_fd (sh_signal sh)) (set_handler (sg_fd (sh_signal sh)) h (set_loop_os os (fst s)), ss)
      | Exn e (os, ss) \<Rightarrow> Exn e (set_loop_os os (fst s), ss)
      | Fault f \<Rightarrow> Fault f)"

text \<open>\<open>loop::remove_signal\<close>: out of the kernel first, then the handler goes and closes its descriptor.\<close>

definition loop_remove_signal :: "bool \<Rightarrow> int \<Rightarrow> loop_impl \<Rightarrow> loop_impl" where
  "loop_remove_signal shared i l =
     (let (r, os) = remove_signal (m_kernel l) i (loop_os l); l = set_loop_os os l;
          os = (if m_state l i \<noteq> None \<and> \<not> shared then signal_delete \<lparr>sg_fd = i\<rparr> (loop_os l) else loop_os l) in
      set_loop_os os (reset_handler i l))"

section \<open>Accepting\<close>






section \<open>Listening\<close>




definition sample_listen_loop :: "errno option list \<Rightarrow> loop_impl" where
  "sample_listen_loop sc =
     \<lparr>m_off = 0, m_num = 0, m_pollable = True, m_end_flag = False, m_backlog = [], m_state = (\<lambda>_. None),
      m_kernel = \<lparr>m_ep = 3\<rparr>, m_task_queue = [], m_more_queue = [],
      m_out = (sample_out, \<lparr>wd_os = os_sample sc, wd_io = (\<lambda>_. ([], []))\<rparr>)\<rparr>"


text \<open>
  When \<open>add_handler\<close> fails, \<open>listen\<close> closes its socket twice: another thread that opens a descriptor
  between the two gets the same number, and its descriptor is closed.
\<close>

lemma listen_double_close:
  assumes "os_script (loop_os l) = [None, None, None, None, Some e]" "length (os_open (loop_os l)) < os_nofile (loop_os l)"
  shows "\<exists>fd os1 os2 l1. (\<forall>other. loop_listen other h l = Exn (System_error e) (set_loop_os (sys_close fd (other os1)) l1)) \<and>
     sys_openfd os1 = (fd, os2) \<and> fd \<in> set (os_open os2) \<and> fd \<notin> set (os_open (sys_close fd os2))"
proof -
  define fd where "fd = fresh_fd (os_open (loop_os l))"
  define osB where "osB = (loop_os l)\<lparr>os_open := fd # os_open (loop_os l), os_script := [], os_errno := e\<rparr>"
  have "loop_listen other h l = Exn (System_error e) (set_loop_os (sys_close fd (other (sys_close fd osB))) (set_loop_os osB l))" for other
    using assms
    by (simp add: loop_listen_def sys_openfd_def sys_ok_def add_handler_impl_def sys_set_nonblock_def sys_call_def sys_take_def
        sys_fail_def set_loop_os_def set_os_def Let_def fd_def osB_def)
  moreover have "sys_openfd (sys_close fd osB) = (fd, (sys_close fd osB)\<lparr>os_open := fd # os_open (loop_os l)\<rparr>)"
    using assms(2) by (simp add: sys_openfd_def sys_call_def sys_take_def sys_close_def osB_def fd_def Let_def)
  moreover have "fd \<notin> set (os_open (sys_close fd os))" for os by (simp add: sys_close_def)
  ultimately show ?thesis by (intro exI [of _ fd] exI [of _ "sys_close fd osB"] exI conjI allI) (assumption | simp)+
qed

section \<open>Timers and signals in the loop\<close>

lemma fd_registered_nonneg: "fd_registered k fd os os' \<Longrightarrow> 0 \<le> fd"
  by (auto simp: fd_registered_def armed_def ep_wf_def fdok_def ep_ready_def evok_def split: option.splits)

lemma loop_add_timer_result:
  assumes "os_wf (loop_os l)" "ep_wf (m_kernel l) (loop_os l)"
  shows "case loop_add_timer value interval h l of
      Ret fd l' \<Rightarrow> fd_registered (m_kernel l) fd (loop_os l) (loop_os l') \<and> os_itimer (loop_os l') fd = Some (itimer_of value interval) \<and>
        m_state l' = (m_state l)(fd \<mapsto> h)
    | Exn e l' \<Rightarrow> same_resources (loop_os l) (loop_os l') \<and> m_state l' = m_state l
    | Fault f \<Rightarrow> False"
proof -
  obtain r tm os' where a: "add_timer (m_kernel l) timer_new value interval (loop_os l) = (r, tm, os')" by (metis prod_cases3)
  note A = add_timer_result [OF assms a]
  show ?thesis using A a
    by (auto simp: loop_add_timer_def timer_handler_new_def kernel_timer_new_def set_loop_os_def set_os_def set_handler_def timer_delete_def timer_new_def)
qed

lemma loop_add_signal_result:
  assumes "os_wf (loop_os l)" "ep_wf (m_kernel l) (loop_os l)" "signo \<notin> ss_mask ss"
  shows "case loop_add_signal signo h (l, ss) of
      Ret fd (l', ss') \<Rightarrow> fd_registered (m_kernel l) fd (loop_os l) (loop_os l') \<and> m_state l' = (m_state l)(fd \<mapsto> h) \<and>
        signo \<in> ss_mask ss' \<and> ss_action ss' signo = Sig_ign
    | Exn e (l', ss') \<Rightarrow> same_resources (loop_os l) (loop_os l') \<and> m_state l' = m_state l \<and> same_signals ss ss'
    | Fault f \<Rightarrow> False"
proof -
  obtain r sg os' where a: "add_signal (m_kernel l) signal_new (loop_os l) = (r, sg, os')" by (metis prod_cases3)
  note A = add_signal_result [OF assms(1,2) a]
  show ?thesis
  proof (cases "r < 0")
    case True
    then show ?thesis using A a
      by (simp add: loop_add_signal_def signal_handler_new_def kernel_signal_new_def set_loop_os_def set_os_def signal_delete_def signal_new_def same_signals_def)
  next
    case False
    then have reg: "fd_registered (m_kernel l) r (loop_os l) os'" "sg_fd sg = r" using A by simp_all
    have c: "same_resources (loop_os l) (signal_delete sg os')"
      using reg plus_fd_close fd_registered_nonneg by (simp add: signal_delete_def fd_registered_def)
    have k: "kernel_signal_new (m_kernel l) (loop_os l) = Ret sg os'" using a False by (simp add: kernel_signal_new_def)
    show ?thesis using reg c k assms(3)
      by (auto simp: loop_add_signal_def signal_handler_new_def scoped_signal_new_def posix_sigaction_def scoped_sigprocmask_new_def
          posix_block_def scoped_signal_delete_def same_signals_def sigset_add_def sigset_empty_def set_loop_os_def set_os_def
          set_handler_def split: if_splits list.split option.split)
  qed
qed

text \<open>
  C31. \<open>loop::add_timer\<close> and \<open>loop::add_signal\<close> are atomic: either a new descriptor is open, non-blocking and
  armed in the loop's kernel with the handler set for it (the timer set to the requested times; the
  signal blocked and ignored otherwise), or the call throws and descriptors, registrations, handlers
  and, for a signal that was not blocked, the signal state of the process are as before.
\<close>
theorem loop_timers_signals_atomic:
  assumes "os_wf (loop_os l)" and "ep_wf (m_kernel l) (loop_os l)" and "signo \<notin> ss_mask ss"
  shows "(case loop_add_timer value interval h l of
      Ret fd l' \<Rightarrow> fd_registered (m_kernel l) fd (loop_os l) (loop_os l') \<and> os_itimer (loop_os l') fd = Some (itimer_of value interval) \<and>
        m_state l' = (m_state l)(fd \<mapsto> h)
    | Exn e l' \<Rightarrow> same_resources (loop_os l) (loop_os l') \<and> m_state l' = m_state l
    | Fault f \<Rightarrow> False) \<and>
    (case loop_add_signal signo h (l, ss) of
      Ret fd (l', ss') \<Rightarrow> fd_registered (m_kernel l) fd (loop_os l) (loop_os l') \<and> m_state l' = (m_state l)(fd \<mapsto> h) \<and>
        signo \<in> ss_mask ss' \<and> ss_action ss' signo = Sig_ign
    | Exn e (l', ss') \<Rightarrow> same_resources (loop_os l) (loop_os l') \<and> m_state l' = m_state l \<and> same_signals ss ss'
    | Fault f \<Rightarrow> False)"
  using loop_add_timer_result [OF assms(1,2)] loop_add_signal_result [OF assms] by blast

theorem loop_timers_signals_atomic_witness:
  "\<exists>l'. loop_add_timer None (Some \<lparr>tv_sec = 1, tv_nsec = 0\<rparr>) 7 (sample_listen_loop []) = Ret 4 l' \<and>
     fd_registered \<lparr>m_ep = 3\<rparr> 4 (os_sample []) (loop_os l') \<and> m_state l' = [4 \<mapsto> 7]"
proof -
  let ?l = "sample_listen_loop []" and ?ss = "\<lparr>ss_mask = {}, ss_action = (\<lambda>_. Sig_dfl), ss_script = []\<rparr>"
  have wf: "os_wf (loop_os ?l)" "ep_wf (m_kernel ?l) (loop_os ?l)" "2 \<notin> ss_mask ?ss"
    by (simp_all add: sample_listen_loop_def os_sample_ep_wf)
  have "case loop_add_timer None (Some \<lparr>tv_sec = 1, tv_nsec = 0\<rparr>) 7 ?l of Ret fd l' \<Rightarrow> fd = 4 | _ \<Rightarrow> False" by code_simp
  then obtain l' where "loop_add_timer None (Some \<lparr>tv_sec = 1, tv_nsec = 0\<rparr>) 7 ?l = Ret 4 l'"
    by (auto split: outcome.splits)
  with loop_timers_signals_atomic [OF wf, of None "Some \<lparr>tv_sec = 1, tv_nsec = 0\<rparr>" 7] show ?thesis
    by (auto simp: sample_listen_loop_def)
qed

end
