(* ===== verification/Connect.thy ===== *)
theory Connect
  imports Loop
begin

text \<open>
  Asynchronous connect (\<open>src/mpsrc/wavy_connect.cc\<close>): the task that opens a socket, connects it within a
  time limit and reports to the client's callback, and \<open>loop::connect\<close>, which submits it. The results of
  \<open>socket\<close>, \<open>fcntl\<close>, \<open>connect\<close> and \<open>getsockopt\<close> come from the script of the operating system, those of
  \<open>poll\<close> from a list.
\<close>

section \<open>The task\<close>

record pack =
  socket_family :: int
  socket_type :: int
  protocol :: int
  addrlen :: size_t
  timeout_msec :: int
  addr :: mem

text \<open>
  The time limit. The sum is computed as a \<open>double\<close>, exactly for all values below 2 to the power 53,
  and converted to \<open>int\<close>: outside the range of \<open>int\<close> that has no defined result.
\<close>

definition to_msec :: "timespec option \<Rightarrow> int option" where
  "to_msec timeout =
     (case timeout of
        Some ts \<Rightarrow>
          if tv_sec ts \<noteq> 0 \<and> tv_nsec ts \<noteq> 0 then
            let v = tv_sec ts + tv_nsec ts * 1000000 in
            if -2147483648 \<le> v \<and> v \<le> 2147483647 then Some v else None
          else Some (-1)
      | None \<Rightarrow> Some (-1))"

text \<open>The constructor; \<open>sizeof(pack)\<close> is 20.\<close>

definition connect_task_new ::
  "(size_t \<Rightarrow> bool) \<Rightarrow> int \<Rightarrow> int \<Rightarrow> int \<Rightarrow> mem \<Rightarrow> size_t \<Rightarrow> timespec option \<Rightarrow> 's \<Rightarrow> (pack, 's) outcome" where
  "connect_task_new alloc family type proto ad len timeout s =
     (if alloc (20 + len) then
        (case to_msec timeout of
           None \<Rightarrow> Fault Undefined_call
         | Some ms \<Rightarrow>
             if length ad < unat len then Fault Out_of_bounds
             else Ret \<lparr>socket_family = family, socket_type = type, protocol = proto, addrlen = len,
                       timeout_msec = ms, addr = take (unat len) ad\<rparr> s)
      else Exn Bad_alloc s)"

text \<open>What \<open>poll\<close> returns: an error, a timeout, or that the socket is ready with this \<open>SO_ERROR\<close>.\<close>

datatype poll_result = Poll_error errno | Poll_timeout | Poll_ready "errno option"

definition sys_connect :: "int \<Rightarrow> os \<Rightarrow> int \<times> os" where
  "sys_connect fd = sys_call (\<lambda>os. (0, os))"

definition sys_getsockopt :: "int \<Rightarrow> os \<Rightarrow> int \<times> os" where
  "sys_getsockopt fd = sys_call (\<lambda>os. (0, os))"

text \<open>The loop around \<open>poll\<close>: whether the socket is connected, with \<open>errno\<close> set otherwise; \<open>None\<close> while \<open>poll\<close> waits.\<close>

fun connect_poll :: "int \<Rightarrow> poll_result list \<Rightarrow> os \<Rightarrow> (bool \<times> os) option" where
  "connect_poll fd [] os = None"
| "connect_poll fd (Poll_error e # ps) os =
     (if e = EINTR then connect_poll fd ps (os\<lparr>os_errno := e\<rparr>) else Some (False, os\<lparr>os_errno := e\<rparr>))"
| "connect_poll fd (Poll_timeout # ps) os = Some (False, os\<lparr>os_errno := ETIMEDOUT\<rparr>)"
| "connect_poll fd (Poll_ready v # ps) os =
     (let (r, os) = sys_getsockopt fd os in
      if r < 0 then Some (False, os)
      else case v of Some e \<Rightarrow> Some (False, os\<lparr>os_errno := e\<rparr>) | None \<Rightarrow> Some (True, os))"

text \<open>\<open>operator()\<close>: the arguments of the callback, which is called once, and the state then; no error is 0.\<close>

definition connect_error :: "int \<Rightarrow> os \<Rightarrow> (int \<times> errno option) \<times> os" where
  "connect_error fd os = ((-1, Some (os_errno os)), sys_close fd os)"

definition connect_run :: "poll_result list \<Rightarrow> os \<Rightarrow> ((int \<times> errno option) \<times> os) option" where
  "connect_run ps os =
     (let (fd, os) = sys_openfd os in
      if fd < 0 then Some ((fd, Some (os_errno os)), os)
      else let (r, os) = sys_set_nonblock fd os in
      if r < 0 then Some (connect_error fd os)
      else let (r, os) = sys_connect fd os in
      if 0 \<le> r then Some ((fd, None), os)
      else if os_errno os \<noteq> EINPROGRESS then Some (connect_error fd os)
      else case connect_poll fd ps os of
        None \<Rightarrow> None
      | Some (True, os) \<Rightarrow> Some ((fd, None), os)
      | Some (False, os) \<Rightarrow> Some (connect_error fd os))"

text \<open>\<open>loop::connect\<close>: \<open>f\<close> is the task made from the pack.\<close>

definition loop_connect ::
  "(size_t \<Rightarrow> bool) \<Rightarrow> int \<Rightarrow> int \<Rightarrow> int \<Rightarrow> mem \<Rightarrow> size_t \<Rightarrow> timespec option \<Rightarrow> (pack \<Rightarrow> nat) \<Rightarrow> loop_impl \<Rightarrow> (unit, loop_impl) outcome" where
  "loop_connect alloc family type proto ad len timeout f l =
     bind_outcome (connect_task_new alloc family type proto ad len timeout l) (\<lambda>m l. Ret () (submit_impl (f m) l))"

section \<open>Properties\<close>

lemma sys_call_noop_same: "sys_call (\<lambda>os. (0, os)) os = (r, os') \<Longrightarrow> same_resources os os'"
  by (erule sys_call_cases) (auto simp: same_resources_def)

lemma connect_poll_same: "connect_poll fd ps os = Some (b, os') \<Longrightarrow> same_resources os os'"
proof (induction fd ps os rule: connect_poll.induct)
  case (4 fd v ps os)
  obtain r os1 where g: "sys_getsockopt fd os = (r, os1)" by fastforce
  then have "same_resources os os1" unfolding sys_getsockopt_def by (rule sys_call_noop_same)
  then show ?case using 4 g by (auto simp: same_resources_def split: if_splits option.splits)
qed (auto simp: same_resources_def split: if_splits)

lemma connect_poll_returns: "\<exists>p\<in>set ps. p \<noteq> Poll_error EINTR \<Longrightarrow> \<exists>b os'. connect_poll fd ps os = Some (b, os')"
  by (induction fd ps os rule: connect_poll.induct) (auto split: prod.splits option.splits)

text \<open>
  C16. The task of \<open>connect\<close> reports exactly one of two results: no error and a new non-blocking socket,
  the only resource it leaves; or an error and -1 with every resource as before. It reports as soon as
  \<open>poll\<close> returns anything but \<open>EINTR\<close>, and without \<open>poll\<close> when the socket connects or fails at once.
\<close>
theorem connect_reports:
  assumes "os_wf os"
  shows "(\<forall>fd err os'. connect_run ps os = Some ((fd, err), os') \<longrightarrow>
       (if err = None then plus_fd fd os os' \<and> 0 \<le> fd \<and> fd \<in> set (os_nonblock os') else fd < 0 \<and> same_resources os os')) \<and>
     ((\<exists>p\<in>set ps. p \<noteq> Poll_error EINTR) \<longrightarrow> connect_run ps os \<noteq> None)"
proof -
  obtain fd os1 where o: "sys_openfd os = (fd, os1)" by fastforce
  note O = sys_openfd_result [OF o assms]
  obtain r2 os2 where n: "sys_set_nonblock fd os1 = (r2, os2)" by fastforce
  obtain r3 os3 where c: "sys_connect fd os2 = (r3, os3)" by fastforce
  have s3: "same_resources os2 os3" using sys_call_noop_same c by (simp add: sys_connect_def)
  have ret: "connect_run ps os \<noteq> None" if "\<exists>p\<in>set ps. p \<noteq> Poll_error EINTR"
    using connect_poll_returns [OF that, of fd os3] o n c by (auto simp: connect_run_def connect_error_def split: bool.split)
  show ?thesis
  proof (cases "fd < 0")
    case True
    then show ?thesis using o O by (auto simp: connect_run_def)
  next
    case False
    then have p1: "plus_fd fd os os1" using O by simp
    have p2: "plus_fd fd os os2" "0 \<le> r2 \<Longrightarrow> fd \<in> set (os_nonblock os2)" using sys_set_nonblock_result [OF p1 n] by simp_all
    have p3: "plus_fd fd os os3" "0 \<le> r2 \<Longrightarrow> fd \<in> set (os_nonblock os3)"
      using plus_fd_same [OF p2(1) s3] p2(2) s3 by (auto simp: same_resources_def)
    have p4: "plus_fd fd os os4" "0 \<le> r2 \<Longrightarrow> fd \<in> set (os_nonblock os4)" if "connect_poll fd ps os3 = Some (b, os4)" for b os4
      using plus_fd_same [OF p3(1) connect_poll_same [OF that]] p3(2) connect_poll_same [OF that] by (auto simp: same_resources_def)
    show ?thesis using ret o n c False p2 p3 p4 plus_fd_close
      by (auto simp: connect_run_def connect_error_def split: if_splits option.splits bool.splits)
  qed
qed

theorem connect_reports_witness:
  "\<exists>os'. connect_run [Poll_error EINTR, Poll_ready None] (os_sample [None, None, Some EINPROGRESS]) = Some ((4, None), os') \<and>
     plus_fd 4 (os_sample [None, None, Some EINPROGRESS]) os'"
proof -
  let ?os = "os_sample [None, None, Some EINPROGRESS]"
  obtain os' where r: "connect_run [Poll_error EINTR, Poll_ready None] ?os = Some ((4, None), os')"
    by (simp add: connect_run_def os_sample_def sys_openfd_def sys_set_nonblock_def sys_connect_def sys_getsockopt_def sys_call_def
        sys_take_def sys_fail_def fresh_fd_def Let_def)
  with connect_reports [of ?os "[Poll_error EINTR, Poll_ready None]"] show ?thesis by auto
qed

text \<open>
  C28. The time limit of \<open>connect\<close> is wrong by construction. For a valid \<open>timespec\<close>: whole seconds and
  times below one second give no limit at all (-1); otherwise the value is the seconds plus a million
  times the nanoseconds, which is at least a million milliseconds, and its conversion to \<open>int\<close> has no
  defined result as soon as \<open>tv_nsec\<close> exceeds 2147.
\<close>
theorem connect_timeout_bounds:
  assumes "timespec_ok ts"
  shows "(to_msec (Some ts) = Some (-1) \<longleftrightarrow> tv_sec ts = 0 \<or> tv_nsec ts = 0) \<and>
     (\<forall>ms. to_msec (Some ts) = Some ms \<longrightarrow> ms = -1 \<or> 1000000 < ms \<and> ms \<le> 2147483647) \<and>
     (0 < tv_sec ts \<and> 2147 < tv_nsec ts \<longrightarrow> to_msec (Some ts) = None)"
  using assms by (auto simp: to_msec_def timespec_ok_def Let_def)

theorem connect_timeout_bounds_witness:
  "timespec_ok \<lparr>tv_sec = 5, tv_nsec = 0\<rparr> \<and> to_msec (Some \<lparr>tv_sec = 5, tv_nsec = 0\<rparr>) = Some (-1) \<and>
   to_msec (Some \<lparr>tv_sec = 1, tv_nsec = 500000000\<rparr>) = None"
  using connect_timeout_bounds [of "\<lparr>tv_sec = 5, tv_nsec = 0\<rparr>"] connect_timeout_bounds [of "\<lparr>tv_sec = 1, tv_nsec = 500000000\<rparr>"]
  by (simp add: timespec_ok_def)

end
