(* ===== verification/Seconds.thy ===== *)
theory Seconds
  imports Doubles Handlers Connect
begin

text \<open>
  The overloads that take seconds as a \<open>double\<close>: \<open>loop::add_timer\<close> (\<open>src/mpsrc/wavy_timer.cc\<close>) and
  \<open>loop::connect\<close> (\<open>src/mpsrc/wavy_connect.cc\<close>), on top of those with a \<open>timespec\<close>.
\<close>

section \<open>Operations\<close>

definition dzero :: double where
  "dzero = Double 0 0"

fun opt_spec :: "timespec option \<Rightarrow> (timespec \<Rightarrow> ('a, 's) outcome) \<Rightarrow> ('a, 's) outcome" where
  "opt_spec None f = Fault Undefined_call"
| "opt_spec (Some ts) f = f ts"

definition loop_add_timer_sec :: "double \<Rightarrow> double \<Rightarrow> nat \<Rightarrow> loop_impl \<Rightarrow> (int, loop_impl) outcome" where
  "loop_add_timer_sec value_sec interval_sec h l =
     (if \<not> dless value_sec dzero then
        if dless dzero interval_sec then
          opt_spec (sec2spec value_sec) (\<lambda>value. opt_spec (sec2spec interval_sec) (\<lambda>interval.
            loop_add_timer (Some value) (Some interval) h l))
        else opt_spec (sec2spec value_sec) (\<lambda>value. loop_add_timer (Some value) None h l)
      else if dless dzero interval_sec then
        opt_spec (sec2spec interval_sec) (\<lambda>interval. loop_add_timer None (Some interval) h l)
      else loop_add_timer None None h l)"

definition loop_connect_sec ::
  "(size_t \<Rightarrow> bool) \<Rightarrow> int \<Rightarrow> int \<Rightarrow> int \<Rightarrow> mem \<Rightarrow> size_t \<Rightarrow> double \<Rightarrow> (pack \<Rightarrow> nat) \<Rightarrow> loop_impl \<Rightarrow> (unit, loop_impl) outcome" where
  "loop_connect_sec alloc family type proto ad len timeout_sec f l =
     opt_spec (sec2spec timeout_sec) (\<lambda>timeout. loop_connect alloc family type proto ad len (Some timeout) f l)"

section \<open>Properties\<close>

lemma powi_pos [simp]: "\<not> 2 powi e < (0 :: real)" "\<not> 2 powi e \<le> (0 :: real)" "0 < (2 powi e :: real)" "0 \<le> (2 powi e :: real)"
  by (simp_all add: not_less not_le zero_less_power_int less_imp_le)

lemma dless_zero [simp]: "dless x dzero \<longleftrightarrow> dval x < 0" "dless dzero x \<longleftrightarrow> 0 < dval x"
  by (auto simp: dless_def dzero_def dval_def Let_def mult_less_0_iff zero_less_mult_iff)

lemma dval_mant: "0 \<le> dval x \<longleftrightarrow> 0 \<le> mant x"
  by (simp add: dval_def zero_le_mult_iff)

text \<open>The time a \<open>timespec\<close> stands for, and that it is a valid one within two nanoseconds of \<open>x\<close> seconds.\<close>

definition spec_near :: "timespec \<Rightarrow> real \<Rightarrow> bool" where
  "spec_near ts x \<longleftrightarrow> timespec_ok ts \<and> \<bar>x - (of_int (tv_sec ts) + of_int (tv_nsec ts) / 1000000000)\<bar> < 2 / 1000000000"

lemma sec2spec_near:
  assumes "double_ok x" "0 \<le> dval x" "to_long x \<noteq> None"
  shows "\<exists>ts. sec2spec x = Some ts \<and> spec_near ts (dval x)"
proof -
  from assms(3) obtain s where "to_long x = Some s" by blast
  from sec2spec_result [OF assms(1) _ this] assms(2) show ?thesis by (auto simp: dval_mant spec_near_def timespec_ok_def)
qed

lemma zero_near: "spec_near zero_timespec 0"
  by (simp add: spec_near_def zero_timespec_def timespec_ok_def)

text \<open>The times that the client asked for: the first expiration is the interval where it is negative.\<close>

definition first_sec :: "double \<Rightarrow> double \<Rightarrow> real" where
  "first_sec v i = (if 0 \<le> dval v then dval v else max 0 (dval i))"

lemma add_timer_sec_spec:
  assumes "double_ok v" "double_ok i" "to_long v \<noteq> None" "to_long i \<noteq> None"
  shows "\<exists>value interval. loop_add_timer_sec v i h l = loop_add_timer value interval h l \<and>
     spec_near (it_value (itimer_of value interval)) (first_sec v i) \<and>
     spec_near (it_interval (itimer_of value interval)) (max 0 (dval i))"
proof -
  have v: "\<exists>ts. sec2spec v = Some ts \<and> spec_near ts (dval v)" if "0 \<le> dval v" using sec2spec_near [OF assms(1) that assms(3)] .
  have i: "\<exists>ts. sec2spec i = Some ts \<and> spec_near ts (dval i)" if "0 < dval i" using sec2spec_near [OF assms(2) _ assms(4)] that by simp
  consider "0 \<le> dval v" "0 < dval i" | "0 \<le> dval v" "\<not> 0 < dval i" | "\<not> 0 \<le> dval v" "0 < dval i" | "\<not> 0 \<le> dval v" "\<not> 0 < dval i" by blast
  then show ?thesis
  proof cases
    case 1
    from v [OF 1(1)] i [OF 1(2)] obtain a b where "sec2spec v = Some a" "spec_near a (dval v)" "sec2spec i = Some b" "spec_near b (dval i)" by blast
    then show ?thesis using 1 by (intro exI [of _ "Some a"] exI [of _ "Some b"]) (simp add: loop_add_timer_sec_def itimer_of_def first_sec_def)
  next
    case 2
    from v [OF 2(1)] obtain a where "sec2spec v = Some a" "spec_near a (dval v)" by blast
    then show ?thesis using 2 zero_near
      by (intro exI [of _ "Some a"] exI [of _ None]) (simp add: loop_add_timer_sec_def itimer_of_def first_sec_def zero_timespec_def max_def Let_def)
  next
    case 3
    from i [OF 3(2)] obtain b where "sec2spec i = Some b" "spec_near b (dval i)" by blast
    then show ?thesis using 3 by (intro exI [of _ None] exI [of _ "Some b"]) (simp add: loop_add_timer_sec_def itimer_of_def first_sec_def)
  next
    case 4
    then show ?thesis using zero_near
      by (intro exI [of _ None]) (simp add: loop_add_timer_sec_def itimer_of_def first_sec_def zero_timespec_def max_def Let_def)
  qed
qed

text \<open>
  C37. \<open>loop::add_timer\<close> with seconds as doubles, both below 2 to the power 63: the conversion to a \<open>timespec\<close>
  never has an undefined result, its nanoseconds are always below one second in spite of rounding,
  and the timer that is registered expires first and then periodically at the times asked for, to
  within two nanoseconds (a negative first time means the interval, and no interval means once). When
  a system call fails, the call throws and nothing has changed.
\<close>
theorem add_timer_seconds:
  assumes "os_wf (loop_os l)" and "ep_wf (m_kernel l) (loop_os l)"
    and "double_ok v" and "double_ok i" and "to_long v \<noteq> None" and "to_long i \<noteq> None"
  shows "case loop_add_timer_sec v i h l of
      Ret fd l' \<Rightarrow> fd_registered (m_kernel l) fd (loop_os l) (loop_os l') \<and> m_state l' = (m_state l)(fd \<mapsto> h) \<and>
        (\<exists>spec. os_itimer (loop_os l') fd = Some spec \<and> spec_near (it_value spec) (first_sec v i) \<and> spec_near (it_interval spec) (max 0 (dval i)))
    | Exn e l' \<Rightarrow> same_resources (loop_os l) (loop_os l') \<and> m_state l' = m_state l
    | Fault f \<Rightarrow> False"
proof -
  from add_timer_sec_spec [OF assms(3-6)] obtain a b where
    "loop_add_timer_sec v i h l = loop_add_timer a b h l"
    "spec_near (it_value (itimer_of a b)) (first_sec v i)" "spec_near (it_interval (itimer_of a b)) (max 0 (dval i))" by blast
  with loop_add_timer_result [OF assms(1,2), of a b h] show ?thesis by (auto split: outcome.splits)
qed

lemmas double_eval = to_long_def dtrunc_def of_long_def dsub_def dmul_def rnd_def half_even_def Let_def

text \<open>A tenth of a second, as the compiler rounds it.\<close>

definition d_tenth :: double where
  "d_tenth = Double 7205759403792794 (-56)"

theorem add_timer_seconds_witness:
  "sec2spec d_tenth = Some \<lparr>tv_sec = 0, tv_nsec = 100000000\<rparr> \<and>
   (case loop_add_timer_sec d_tenth d_tenth 7 (sample_listen_loop []) of
      Ret fd l' \<Rightarrow> fd = 4 \<and> (\<exists>spec. os_itimer (loop_os l') 4 = Some spec \<and> spec_near (it_value spec) (dval d_tenth) \<and> spec_near (it_interval spec) (dval d_tenth))
    | _ \<Rightarrow> False)"
proof -
  let ?l = "sample_listen_loop []"
  have ts: "sec2spec d_tenth = Some \<lparr>tv_sec = 0, tv_nsec = 100000000\<rparr>"
    by (simp add: sec2spec_def d_tenth_def double_eval)
  have d: "double_ok d_tenth" "to_long d_tenth \<noteq> None" by (simp_all add: double_ok_def d_tenth_def double_eval)
  have pos: "0 < dval d_tenth" by (simp add: dval_def d_tenth_def)
  have wf: "os_wf (loop_os ?l)" "ep_wf (m_kernel ?l) (loop_os ?l)" by (simp_all add: sample_listen_loop_def os_sample_ep_wf)
  have "case loop_add_timer (Some \<lparr>tv_sec = 0, tv_nsec = 100000000\<rparr>) (Some \<lparr>tv_sec = 0, tv_nsec = 100000000\<rparr>) 7 ?l of
      Ret fd l' \<Rightarrow> fd = 4 | _ \<Rightarrow> False" by code_simp
  then have run: "case loop_add_timer_sec d_tenth d_tenth 7 ?l of Ret fd l' \<Rightarrow> fd = 4 | _ \<Rightarrow> False"
    using ts pos by (simp add: loop_add_timer_sec_def not_less less_imp_le)
  from add_timer_seconds [OF wf d(1) d(1) d(2) d(2), of 7] run pos show ?thesis
    using ts by (auto simp: first_sec_def split: outcome.splits)
qed

text \<open>
  A first time of zero does not make the timer expire at once: \<open>timerfd_settime\<close> with a zero time disarms it,
  whatever the interval.
\<close>
lemma zero_seconds_disarms:
  assumes "os_wf (loop_os l)" "ep_wf (m_kernel l) (loop_os l)" "double_ok i" "0 < dval i" "to_long i \<noteq> None"
    and "loop_add_timer_sec dzero i h l = Ret fd l'"
  shows "\<exists>spec. os_itimer (loop_os l') fd = Some spec \<and> it_value spec = zero_timespec"
proof -
  from sec2spec_near [OF assms(3) _ assms(5)] assms(4) obtain b where b: "sec2spec i = Some b" by auto
  have z: "sec2spec dzero = Some zero_timespec" by (simp add: sec2spec_def dzero_def zero_timespec_def double_eval)
  have "dval dzero = 0" by (simp add: dval_def dzero_def)
  then have "loop_add_timer (Some zero_timespec) (Some b) h l = Ret fd l'" using assms(4,6) b z by (simp add: loop_add_timer_sec_def)
  with loop_add_timer_result [OF assms(1,2), of "Some zero_timespec" "Some b" h] show ?thesis by (simp add: itimer_of_def Let_def)
qed

text \<open>
  \<open>loop::connect\<close> with seconds as a double: below one second there is no time limit, and from one second
  on every time with a fraction of at least three microseconds runs into the undefined conversion.
\<close>
lemma connect_seconds_limit:
  assumes "double_ok x" "0 \<le> dval x" "to_long x = Some s" "alloc (20 + len)" "unat len \<le> length ad"
  shows "dval x < 1 \<longrightarrow> (\<exists>m. loop_connect_sec alloc family type proto ad len x f l = Ret () (submit_impl (f m) l) \<and> timeout_msec m = -1)"
    and "1 \<le> s \<and> 3 / 1000000 \<le> dval x - of_int s \<longrightarrow> loop_connect_sec alloc family type proto ad len x f l = Fault Undefined_call"
proof -
  from sec2spec_result [OF assms(1) _ assms(3)] assms(2) obtain ns where
    ns: "sec2spec x = Some \<lparr>tv_sec = s, tv_nsec = ns\<rparr>" "0 \<le> s" "of_int s \<le> dval x" "0 \<le> ns" "ns < 1000000000"
    "\<bar>dval x - (of_int s + of_int ns / 1000000000)\<bar> < 2 / 1000000000" by (auto simp: dval_mant)
  show "dval x < 1 \<longrightarrow> (\<exists>m. loop_connect_sec alloc family type proto ad len x f l = Ret () (submit_impl (f m) l) \<and> timeout_msec m = -1)"
  proof
    assume lt: "dval x < 1"
    have "(of_int s :: real) < 1" using ns(3) lt by linarith
    then have "s = 0" using ns(2) by simp
    then show "\<exists>m. loop_connect_sec alloc family type proto ad len x f l = Ret () (submit_impl (f m) l) \<and> timeout_msec m = -1"
      using ns(1) assms(4,5)
      by (intro exI [of _ "\<lparr>socket_family = family, socket_type = type, protocol = proto, addrlen = len, timeout_msec = -1, addr = take (unat len) ad\<rparr>"])
         (simp add: loop_connect_sec_def loop_connect_def connect_task_new_def to_msec_def)
  qed
  show "1 \<le> s \<and> 3 / 1000000 \<le> dval x - of_int s \<longrightarrow> loop_connect_sec alloc family type proto ad len x f l = Fault Undefined_call"
  proof
    assume a: "1 \<le> s \<and> 3 / 1000000 \<le> dval x - of_int s"
    moreover have "dval x - of_int s - of_int ns / 1000000000 < 2 / 1000000000" using ns(6) by linarith
    ultimately have "(2147 :: real) < of_int ns" by linarith
    then have "2147 < ns" by linarith
    then have "to_msec (Some \<lparr>tv_sec = s, tv_nsec = ns\<rparr>) = None" using a by (simp add: to_msec_def Let_def)
    then show "loop_connect_sec alloc family type proto ad len x f l = Fault Undefined_call"
      using ns(1) assms(4) by (simp add: loop_connect_sec_def loop_connect_def connect_task_new_def)
  qed
qed

end
