(* ===== verification/Services.thy ===== *)
theory Services
  imports Loop_Table Seconds
begin

text \<open>
  The services on top of the loop as clients of it: what \<open>listen\<close>, \<open>add_timer\<close>, \<open>add_signal\<close>, \<open>remove_timer\<close>,
  \<open>remove_signal\<close> and \<open>connect\<close> do to the loop is a sequence of steps of its step relation. So the invariants
  of the loop hold in programs that use them, whatever other threads do between two of these steps.
\<close>

section \<open>Pieces of a service\<close>

lemma set_loop_os_simps [simp]:
  "set_loop_os a (set_loop_os b l) = set_loop_os a l" "loop_os (set_loop_os a l) = a" "m_kernel (set_loop_os a l) = m_kernel l"
  "set_loop_os a (set_handler fd h l) = set_handler fd h (set_loop_os a l)" "loop_os (set_handler fd h l) = loop_os l"
  "m_kernel (set_handler fd h l) = m_kernel l" "m_state (set_loop_os a l) = m_state l"
  "fst (m_out (set_loop_os a l)) = fst (m_out l)"
  by (simp_all add: set_loop_os_def set_handler_def set_os_def)

lemma set_loop_os_same [simp]: "set_loop_os (loop_os l) l = l"
  by (simp add: set_loop_os_def set_os_def)

lemma flight_set_loop_os [simp]: "flight (set_loop_os a l) ths = flight l ths"
  by (simp add: flight_def backlog_left_def set_loop_os_def)






lemma openfd_fails:
  assumes "os_script os = []" "sys_openfd os = (fd, os')" "fd < 0"
  shows "os' = os\<lparr>os_errno := EMFILE\<rparr>"
  using assms by (auto simp: sys_openfd_def sys_fail_def Let_def split: if_splits)




section \<open>The services\<close>













end
