(* ===== verification/Sync.thy ===== *)
theory Sync
  imports Pthread
begin

text \<open>
  \<open>mp::sync\<close> of \<open>src/mp/sync.hmpl\<close>: an object with a mutex, reached through references that hold the mutex.
  A \<open>ref\<close> is a scoped lock on the whole \<open>sync\<close> object, so its methods are those of the scoped locks over the
  calls \<open>sync_lk\<close> and \<open>sync_un\<close>, and the interpretation \<open>sy\<close> gives them what the locale promises.
\<close>

section \<open>The class\<close>

record 'a sync =
  s_obj :: 'a
  s_mutex :: pthread_mutex

definition sync_new :: "'a \<Rightarrow> 'a sync" where
  "sync_new v = \<lparr>s_obj = v, s_mutex = pthread_mutex_new\<rparr>"

fun in_sync :: "'a sync \<Rightarrow> (unit, pthread_mutex) outcome \<Rightarrow> (unit, 'a sync) outcome" where
  "in_sync x (Ret u m) = Ret u (x\<lparr>s_mutex := m\<rparr>)"
| "in_sync x (Exn e m) = Exn e (x\<lparr>s_mutex := m\<rparr>)"
| "in_sync x (Fault f) = Fault f"

definition sync_lk :: "nat \<Rightarrow> 'a sync \<Rightarrow> (unit, 'a sync) outcome option" where
  "sync_lk t x = map_option (in_sync x) (mutex_lock t (s_mutex x))"

definition sync_un :: "nat \<Rightarrow> 'a sync \<Rightarrow> (unit, 'a sync) outcome" where
  "sync_un t x = in_sync x (mutex_unlock t (s_mutex x))"

text \<open>\<open>lock\<close> and the constructor of \<open>ref\<close>; \<open>reset\<close> without and with an argument; the destructor.\<close>

definition sync_ref_new :: "nat \<Rightarrow> nat \<Rightarrow> 'a sync locks \<Rightarrow> (unit, nat option \<times> 'a sync locks) outcome option" where
  "sync_ref_new = scoped_new sync_lk"

definition sync_ref_reset :: "nat \<Rightarrow> nat option \<times> 'a sync locks \<Rightarrow> (unit, nat option \<times> 'a sync locks) outcome" where
  "sync_ref_reset = scoped_unlock sync_un"

definition sync_ref_reset_to :: "nat \<Rightarrow> nat \<Rightarrow> nat option \<times> 'a sync locks \<Rightarrow> (unit, nat option \<times> 'a sync locks) outcome option" where
  "sync_ref_reset_to = scoped_relock sync_lk sync_un"

definition sync_ref_delete :: "nat \<Rightarrow> nat option \<times> 'a sync locks \<Rightarrow> (unit, 'a sync locks) outcome" where
  "sync_ref_delete t s =
     (case sync_ref_reset t s of Ret _ s \<Rightarrow> Ret () (snd s) | Exn e s \<Rightarrow> Exn e (snd s) | Fault f \<Rightarrow> Fault f)"

definition sync_ref_ok :: "nat option \<Rightarrow> bool" where
  "sync_ref_ok r = (r \<noteq> None)"

text \<open>\<open>operator*\<close>, to read and to change the object.\<close>

definition sync_deref :: "nat option \<Rightarrow> 'a sync locks \<Rightarrow> ('a, 'a sync locks) outcome" where
  "sync_deref r w = (case r of None \<Rightarrow> Fault Null_deref | Some a \<Rightarrow> Ret (s_obj (w a)) w)"

definition sync_update :: "('a \<Rightarrow> 'a) \<Rightarrow> nat option \<Rightarrow> 'a sync locks \<Rightarrow> (unit, 'a sync locks) outcome" where
  "sync_update f r w =
     (case r of None \<Rightarrow> Fault Null_deref | Some a \<Rightarrow> Ret () (w(a := (w a)\<lparr>s_obj := f (s_obj (w a))\<rparr>)))"

text \<open>Copying an \<open>auto_ref\<close> moves the mutex: the new reference and what is left of the old one.\<close>

definition auto_ref_copy :: "nat option \<Rightarrow> nat option \<times> nat option" where
  "auto_ref_copy r = (r, None)"

section \<open>Scoped access\<close>

definition sync_held :: "nat \<Rightarrow> 'a sync \<Rightarrow> nat" where
  "sync_held t x = mutex_held t (s_mutex x)"

interpretation sy: exclusive_lockable sync_lk sync_un sync_held "\<lambda>_. True"
  by unfold_locales
     (auto simp: sync_lk_def sync_un_def sync_held_def mutex_lock_def posix_mutex_lock_def mutex_unlock_def posix_mutex_unlock_def
        mutex_held_def split: option.splits if_splits mutex_kind.splits)

lemma sync_ref_scope:
  assumes "sync_ref_new t a w = Some (Ret () s)"
  shows "\<exists>w'. sync_ref_delete t s = Ret () w' \<and> (\<forall>b. sync_held t (w' b) = sync_held t (w b))"
proof -
  have "sy.owns_exactly t w s" using assms sy.scoped_new_owns [where w = w and t = t and a = a] by (simp add: sync_ref_new_def)
  from sy.scoped_unlock_owns [OF this] show ?thesis
    by (auto simp: sync_ref_delete_def sync_ref_reset_def sy.owns_exactly_def)
qed

section \<open>Many threads\<close>

text \<open>
  Every thread has one reference. It may move it to an object, drop it, or change the object it refers
  to; taking an object whose mutex another thread holds, or its own again, blocks.
\<close>

datatype 'a sync_op = Move_to nat | Drop | Change "'a \<Rightarrow> 'a"

type_synonym 'a sync_sys = "(nat \<Rightarrow> nat option) \<times> 'a sync locks"

fun sync_run1 :: "nat \<Rightarrow> 'a sync_op \<Rightarrow> 'a sync_sys \<Rightarrow> ('a sync_sys) option" where
  "sync_run1 t (Move_to a) (r, w) =
     (case sync_ref_reset_to t a (r t, w) of Some (Ret _ (x, w)) \<Rightarrow> Some (r(t := x), w) | _ \<Rightarrow> None)"
| "sync_run1 t Drop (r, w) = (case sync_ref_reset t (r t, w) of Ret _ (x, w) \<Rightarrow> Some (r(t := x), w) | _ \<Rightarrow> None)"
| "sync_run1 t (Change f) (r, w) = (case sync_update f (r t) w of Ret _ w \<Rightarrow> Some (r, w) | _ \<Rightarrow> None)"

inductive sync_reach :: "(nat \<Rightarrow> 'a) \<Rightarrow> 'a sync_sys \<Rightarrow> bool" for vs where
  start: "sync_reach vs (\<lambda>_. None, \<lambda>a. sync_new (vs a))"
| step: "sync_reach vs s \<Longrightarrow> sync_run1 t op s = Some s' \<Longrightarrow> sync_reach vs s'"

text \<open>References and owners correspond.\<close>

definition sync_inv :: "'a sync_sys \<Rightarrow> bool" where
  "sync_inv s \<longleftrightarrow> (\<forall>a. mx_kind (s_mutex (snd s a)) = Normal \<and> mx_depth (s_mutex (snd s a)) = 0 \<and>
     (\<forall>t. fst s t = Some a \<longleftrightarrow> mx_owner (s_mutex (snd s a)) = Some t))"

lemmas sync_defs = sync_ref_reset_to_def sync_ref_reset_def scoped_relock_def scoped_new_def scoped_unlock_def sync_lk_def sync_un_def
  mutex_lock_def posix_mutex_lock_def mutex_unlock_def posix_mutex_unlock_def

lemma sync_invD:
  assumes "sync_inv (r, w)"
  shows "mx_kind (s_mutex (w a)) = Normal" "mx_depth (s_mutex (w a)) = 0" "mx_owner (s_mutex (w a)) = Some t \<longleftrightarrow> r t = Some a"
  using assms by (simp_all add: sync_inv_def)

lemma sync_reset_inv:
  assumes "sync_inv (r, w)"
  shows "\<exists>w'. sync_ref_reset t (r t, w) = Ret () (None, w') \<and> sync_inv (r(t := None), w')"
proof (cases "r t")
  case None
  then have "r(t := None) = r" by auto
  then show ?thesis using assms None by (simp add: sync_ref_reset_def scoped_unlock_def)
next
  case (Some a)
  let ?w = "w(a := (w a)\<lparr>s_mutex := (s_mutex (w a))\<lparr>mx_owner := None\<rparr>\<rparr>)"
  have "sync_ref_reset t (r t, w) = Ret () (None, ?w)" using Some sync_invD [OF assms] by (simp add: sync_defs)
  moreover have "v \<noteq> t \<Longrightarrow> r v \<noteq> Some a" for v using Some sync_invD(3) [OF assms, of a] by (metis option.inject)
  then have "sync_inv (r(t := None), ?w)" using Some sync_invD [OF assms] by (auto simp: sync_inv_def)
  ultimately show ?thesis by blast
qed

lemma sync_take_inv:
  assumes "sync_inv (r, w)" "r t = None" "sync_ref_new t a w = Some (Ret u (x, w'))"
  shows "sync_inv (r(t := x), w')"
proof -
  have free: "mx_owner (s_mutex (w a)) = None" "x = Some a"
    "w' = w(a := (w a)\<lparr>s_mutex := (s_mutex (w a))\<lparr>mx_owner := Some t, mx_depth := 0\<rparr>\<rparr>)"
    using assms(3) sync_invD [OF assms(1)] by (auto simp: sync_defs sync_ref_new_def split: option.splits if_splits)
  then have "r v \<noteq> Some a" for v using sync_invD(3) [OF assms(1), of a v] by simp
  then show ?thesis using free sync_invD [OF assms(1)] assms(2) by (auto simp: sync_inv_def)
qed

lemma sync_reach_inv:
  assumes "sync_reach vs s"
  shows "sync_inv s"
  using assms
proof induction
  case start
  then show ?case by (simp add: sync_inv_def sync_new_def pthread_mutex_new_def)
next
  case (step s t op s')
  obtain r w where s: "s = (r, w)" by fastforce
  from sync_reset_inv [of r w t] step.IH s obtain w' where
    w': "sync_ref_reset t (r t, w) = Ret () (None, w')" "sync_inv (r(t := None), w')" by auto
  show ?case
  proof (cases op)
    case (Move_to a)
    from step.hyps(2) s Move_to w'(1) obtain u x w'' where
      "sync_ref_new t a w' = Some (Ret u (x, w''))" "s' = (r(t := x), w'')"
      by (auto simp: sync_ref_reset_to_def scoped_relock_def sync_ref_new_def sync_ref_reset_def split: option.splits outcome.splits)
    then show ?thesis using sync_take_inv [OF w'(2), of t a u x w''] by simp
  next
    case Drop
    then show ?thesis using step.hyps(2) s w' by auto
  next
    case (Change f)
    then show ?thesis using step.hyps(2) s step.IH by (auto simp: sync_update_def sync_inv_def split: option.splits if_splits)
  qed
qed

text \<open>
  Two threads never have references to the same object, and a step of a thread changes no object but
  the one its reference refers to.
\<close>
lemma sync_exclusive:
  assumes "sync_reach vs (r, w)"
  shows "r t = Some a \<and> r u = Some a \<longrightarrow> t = u"
    and "sync_run1 t op (r, w) = Some (r', w') \<Longrightarrow> r t \<noteq> Some a \<Longrightarrow> s_obj (w' a) = s_obj (w a)"
proof -
  show "r t = Some a \<and> r u = Some a \<longrightarrow> t = u" using sync_reach_inv [OF assms] by (auto simp: sync_inv_def)
  show "s_obj (w' a) = s_obj (w a)" if "sync_run1 t op (r, w) = Some (r', w')" "r t \<noteq> Some a"
    using that by (cases op) (auto simp: sync_defs sync_update_def split: option.splits outcome.splits if_splits mutex_kind.splits)
qed

lemma sync_exclusive_witness:
  "map_option (\<lambda>s. (fst s 1, fst s 2, s_obj (snd s 0), sync_run1 2 (Move_to 0) s = None))
     (Option.bind (sync_run1 1 (Move_to 0) (\<lambda>_. None, \<lambda>a. sync_new (10 :: nat))) (sync_run1 1 (Change Suc))) =
   Some (Some 0, None, 11, True)"
  by (simp add: sync_defs sync_update_def sync_new_def pthread_mutex_new_def)

end
