(* ===== verification/Tls_Set.thy ===== *)
theory Tls_Set
  imports Sync
begin

text \<open>
  \<open>src/mp/tls_set.h\<close>: an array of scoped locks, and a set of per-thread values that one thread can lock as a
  whole. The array is a client of the locale \<open>lockable\<close> like the scoped lock itself, so that what it
  guarantees is proved there.
\<close>

section \<open>The class \<open>pthread_scoped_lock_multi\<close>\<close>

text \<open>\<open>m_vec\<close> with the scoped locks of the array, each the pointer it holds.\<close>

type_synonym multi = "nat option list option"

text \<open>
  \<open>delete[]\<close> destroys from the last element to the first. An exception of one destructor does not keep
  the others from running; a second one would end the program.
\<close>

fun delete_locks :: "'l unlock_call \<Rightarrow> nat \<Rightarrow> nat option list \<Rightarrow> 'l locks \<Rightarrow> (unit, 'l locks) outcome" where
  "delete_locks un t [] w = Ret () w"
| "delete_locks un t (sl # sls) w =
     (case scoped_delete un t (sl, w) of
        Ret _ w \<Rightarrow> delete_locks un t sls w
      | Exn e w \<Rightarrow> (case delete_locks un t sls w of Ret _ w \<Rightarrow> Exn e w | Exn _ _ \<Rightarrow> Fault No_return | Fault f \<Rightarrow> Fault f)
      | Fault f \<Rightarrow> Fault f)"

definition multi_new :: multi where
  "multi_new = None"

definition multi_new_size :: "bool \<Rightarrow> nat \<Rightarrow> (multi, unit) outcome" where
  "multi_new_size ok n = (if ok then Ret (Some (replicate n None)) () else Exn Bad_alloc ())"

definition multi_delete :: "'l unlock_call \<Rightarrow> nat \<Rightarrow> multi \<times> 'l locks \<Rightarrow> (unit, 'l locks) outcome" where
  "multi_delete un t s = (case fst s of None \<Rightarrow> Ret () (snd s) | Some v \<Rightarrow> delete_locks un t (rev v) (snd s))"

definition multi_reset :: "'l unlock_call \<Rightarrow> nat \<Rightarrow> bool \<Rightarrow> nat \<Rightarrow> multi \<times> 'l locks \<Rightarrow> (unit, multi \<times> 'l locks) outcome" where
  "multi_reset un t ok n s =
     (case multi_delete un t s of
        Ret _ w \<Rightarrow> if ok then Ret () (Some (replicate n None), w) else Exn Bad_alloc (None, w)
      | Exn e w \<Rightarrow> Exn e (fst s, w)
      | Fault f \<Rightarrow> Fault f)"

text \<open>\<open>operator[]\<close>, an index without a check.\<close>

definition multi_at :: "multi \<Rightarrow> nat \<Rightarrow> nat option option" where
  "multi_at m i = (case m of None \<Rightarrow> None | Some v \<Rightarrow> if i < length v then Some (v ! i) else None)"

section \<open>The class \<open>tls_set\<close>\<close>

text \<open>
  The elements are found by their address: the value of type \<open>T\<close>, unless it was destroyed, and the mutex.
  \<open>t_key\<close> is what \<open>pthread_getspecific\<close> returns in each thread.
\<close>

record 'a tls_set =
  t_key :: "nat \<Rightarrow> nat option"
  t_all :: "nat list sync"
  t_data :: "nat \<Rightarrow> 'a option"
  t_mutex :: "pthread_mutex locks"

definition tls_set_new :: "int \<Rightarrow> pthread_mutex locks \<Rightarrow> ('a tls_set, unit) outcome" where
  "tls_set_new err w =
     (if err \<noteq> 0 then Exn (Pthread_error err) ()
      else Ret \<lparr>t_key = (\<lambda>_. None), t_all = sync_new [], t_data = (\<lambda>_. None), t_mutex = w\<rparr> ())"

text \<open>A body inside the scope of \<open>all_vec_ref ref(m_all_vec)\<close>.\<close>

definition with_all :: "nat \<Rightarrow> ('b \<times> 'a tls_set \<Rightarrow> (unit, 'b \<times> 'a tls_set) outcome option) \<Rightarrow>
    'b \<times> 'a tls_set \<Rightarrow> (unit, 'b \<times> 'a tls_set) outcome option" where
  "with_all t body s =
     (case sync_lk t (t_all (snd s)) of
        None \<Rightarrow> None
      | Some (Exn e x) \<Rightarrow> Some (Exn e (fst s, (snd s)\<lparr>t_all := x\<rparr>))
      | Some (Fault f) \<Rightarrow> Some (Fault f)
      | Some (Ret _ x) \<Rightarrow>
          (case body (fst s, (snd s)\<lparr>t_all := x\<rparr>) of
             None \<Rightarrow> None
           | Some (Fault f) \<Rightarrow> Some (Fault f)
           | Some (Ret _ s) \<Rightarrow>
               Some (case sync_un t (t_all (snd s)) of
                 Ret _ x \<Rightarrow> Ret () (fst s, (snd s)\<lparr>t_all := x\<rparr>) | Exn e x \<Rightarrow> Exn e (fst s, (snd s)\<lparr>t_all := x\<rparr>) | Fault f \<Rightarrow> Fault f)
           | Some (Exn e s) \<Rightarrow>
               Some (case sync_un t (t_all (snd s)) of
                 Ret _ x \<Rightarrow> Exn e (fst s, (snd s)\<lparr>t_all := x\<rparr>) | Exn _ _ \<Rightarrow> Fault No_return | Fault f \<Rightarrow> Fault f)))"

definition all_vec :: "'a tls_set \<Rightarrow> nat list" where
  "all_vec s = s_obj (t_all s)"

definition set_all_vec :: "nat list \<Rightarrow> 'a tls_set \<Rightarrow> 'a tls_set" where
  "set_all_vec v s = s\<lparr>t_all := (t_all s)\<lparr>s_obj := v\<rparr>\<rparr>"

text \<open>
  \<open>init_thread\<close>: \<open>new\<close> is the address of the new element, if there is memory; \<open>room\<close> is whether \<open>push_back\<close> finds
  room; \<open>err\<close> is what \<open>pthread_setspecific\<close> returns. The \<open>auto_ptr\<close> deletes the element on an exception.
\<close>

definition delete_element :: "nat \<Rightarrow> 'a tls_set \<Rightarrow> 'a tls_set" where
  "delete_element a s = s\<lparr>t_data := (t_data s)(a := None)\<rparr>"

definition init_thread :: "nat \<Rightarrow> nat option \<Rightarrow> bool \<Rightarrow> int \<Rightarrow> 'a \<Rightarrow> unit \<times> 'a tls_set \<Rightarrow> (unit, unit \<times> 'a tls_set) outcome option" where
  "init_thread t new room err data = with_all t (\<lambda>(_, s).
     case new of
       None \<Rightarrow> Some (Exn Bad_alloc ((), s))
     | Some a \<Rightarrow>
         let s = s\<lparr>t_data := (t_data s)(a \<mapsto> data), t_mutex := (t_mutex s)(a := pthread_mutex_new)\<rparr> in
         if \<not> room then Some (Exn Bad_alloc ((), delete_element a s))
         else let s = set_all_vec (all_vec s @ [a]) s in
           if err \<noteq> 0 then Some (Exn (Pthread_error err) ((), delete_element a (set_all_vec (butlast (all_vec s)) s)))
           else Some (Ret () ((), s\<lparr>t_key := (t_key s)(t \<mapsto> a)\<rparr>)))"

definition update_self :: "nat \<Rightarrow> 'a \<Rightarrow> 'a tls_set \<Rightarrow> (unit, 'a tls_set) outcome option" where
  "update_self t data s =
     (case t_key s t of
        None \<Rightarrow> Some (Fault Null_deref)
      | Some e \<Rightarrow>
          (case scoped_lock_new t e (t_mutex s) of
             None \<Rightarrow> None
           | Some (Exn x (_, w)) \<Rightarrow> Some (Exn x (s\<lparr>t_mutex := w\<rparr>))
           | Some (Fault f) \<Rightarrow> Some (Fault f)
           | Some (Ret _ (sl, w)) \<Rightarrow>
               let s = s\<lparr>t_data := (t_data s)(e \<mapsto> data)\<rparr> in
               Some (case scoped_delete mutex_unlock t (sl, w) of
                 Ret _ w \<Rightarrow> Ret () (s\<lparr>t_mutex := w\<rparr>) | Exn x w \<Rightarrow> Exn x (s\<lparr>t_mutex := w\<rparr>) | Fault f \<Rightarrow> Fault f)))"

text \<open>The two versions of \<open>get_self\<close>; the result is the element whose value the reference refers to.\<close>

definition get_self :: "nat \<Rightarrow> nat option \<times> 'a tls_set \<Rightarrow> (nat, nat option \<times> 'a tls_set) outcome option" where
  "get_self t s =
     (case t_key (snd s) t of
        None \<Rightarrow> Some (Fault Null_deref)
      | Some e \<Rightarrow>
          (case scoped_lock_relock t e (fst s, t_mutex (snd s)) of
             None \<Rightarrow> None
           | Some (Ret _ (sl, w)) \<Rightarrow> Some (Ret e (sl, (snd s)\<lparr>t_mutex := w\<rparr>))
           | Some (Exn x (sl, w)) \<Rightarrow> Some (Exn x (sl, (snd s)\<lparr>t_mutex := w\<rparr>))
           | Some (Fault f) \<Rightarrow> Some (Fault f)))"

definition get_self_multi :: "nat \<Rightarrow> 'a tls_set \<Rightarrow> (nat, 'a tls_set) outcome" where
  "get_self_multi t s = (case t_key s t of None \<Rightarrow> Fault Null_deref | Some e \<Rightarrow> Ret e s)"

text \<open>The loop of \<open>lock_all\<close> from index \<open>i\<close> on.\<close>

fun relock_from :: "'l lock_call \<Rightarrow> 'l unlock_call \<Rightarrow> nat \<Rightarrow> nat list \<Rightarrow> nat \<Rightarrow> nat option list \<times> 'l locks \<Rightarrow>
    (unit, nat option list \<times> 'l locks) outcome option" where
  "relock_from lk un t [] i s = Some (Ret () s)"
| "relock_from lk un t (a # as) i (v, w) =
     (case scoped_relock lk un t a (v ! i, w) of
        None \<Rightarrow> None
      | Some (Ret _ (sl, w)) \<Rightarrow> relock_from lk un t as (Suc i) (v[i := sl], w)
      | Some (Exn e (sl, w)) \<Rightarrow> Some (Exn e (v[i := sl], w))
      | Some (Fault f) \<Rightarrow> Some (Fault f))"

text \<open>\<open>lock_all\<close> inside the scope of its reference.\<close>

definition lock_all_body :: "nat \<Rightarrow> bool \<Rightarrow> multi \<times> 'a tls_set \<Rightarrow> (unit, multi \<times> 'a tls_set) outcome option" where
  "lock_all_body t ok = (\<lambda>(mlk, s).
     case multi_reset mutex_unlock t ok (length (all_vec s)) (mlk, t_mutex s) of
       Exn e (mlk, w) \<Rightarrow> Some (Exn e (mlk, s\<lparr>t_mutex := w\<rparr>))
     | Fault f \<Rightarrow> Some (Fault f)
     | Ret _ (mlk, w) \<Rightarrow>
         (case mlk of
            None \<Rightarrow> Some (Fault Null_deref)
          | Some v \<Rightarrow>
              (case relock_from mutex_lock mutex_unlock t (all_vec s) 0 (v, w) of
                 None \<Rightarrow> None
               | Some (Ret _ (v, w)) \<Rightarrow> Some (Ret () (Some v, s\<lparr>t_mutex := w\<rparr>))
               | Some (Exn e (v, w)) \<Rightarrow> Some (Exn e (Some v, s\<lparr>t_mutex := w\<rparr>))
               | Some (Fault f) \<Rightarrow> Some (Fault f))))"

definition lock_all :: "nat \<Rightarrow> bool \<Rightarrow> multi \<times> 'a tls_set \<Rightarrow> (unit, multi \<times> 'a tls_set) outcome option" where
  "lock_all t ok = with_all t (lock_all_body t ok)"

text \<open>What the key's destructor \<open>object_destructor<T>\<close> does when a thread exits; \<open>~tls_set\<close> does nothing.\<close>

definition exit_thread :: "nat \<Rightarrow> 'a tls_set \<Rightarrow> 'a tls_set" where
  "exit_thread t s =
     (case t_key s t of
        None \<Rightarrow> s
      | Some e \<Rightarrow> s\<lparr>t_data := (t_data s)(e := None), t_key := (t_key s)(t := None)\<rparr>)"

section \<open>Arrays of scoped locks\<close>

context lockable
begin

text \<open>What thread \<open>t\<close> holds beyond \<open>w0\<close> is exactly what the locks of the array own.\<close>

definition owns_all :: "nat \<Rightarrow> 'l locks \<Rightarrow> nat option list \<times> 'l locks \<Rightarrow> bool" where
  "owns_all t w0 s \<longleftrightarrow> (\<forall>b. valid (snd s b) \<and> held t (snd s b) = held t (w0 b) + count_list (fst s) (Some b))"

lemma delete_locks_owns: "owns_all t w0 (v, w) \<Longrightarrow> \<exists>w'. delete_locks un t v w = Ret () w' \<and> owns_all t w0 ([], w')"
proof (induction v arbitrary: w)
  case (Cons sl v)
  show ?case
  proof (cases sl)
    case None
    then show ?thesis using Cons.IH [of w] Cons.prems by (simp add: scoped_delete_def owns_all_def)
  next
    case (Some a)
    have "valid (w a)" "0 < held t (w a)" using Cons.prems Some by (auto simp: owns_all_def)
    from unlock_ok [OF this] obtain l where
      l: "un t (w a) = Ret () l" "valid l" "held t l = held t (w a) - 1" by blast
    then have "owns_all t w0 (v, w(a := l))" using Cons.prems Some by (auto simp: owns_all_def)
    from Cons.IH [OF this] show ?thesis using Some l(1) by (simp add: scoped_delete_def fun_upd_def)
  qed
qed simp

lemma multi_delete_owns:
  assumes "owns_all t w0 (v, w)"
  shows "\<exists>w'. multi_delete un t (Some v, w) = Ret () w' \<and> owns_all t w0 ([], w')"
proof -
  have "owns_all t w0 (rev v, w)" using assms by (simp add: owns_all_def count_list_rev)
  from delete_locks_owns [OF this] show ?thesis by (simp add: multi_delete_def)
qed

lemma relock_from_owns:
  "owns_all t w0 (v, w) \<Longrightarrow> i + length as = length v \<Longrightarrow> \<forall>j<length as. v ! (i + j) = None \<Longrightarrow>
   case relock_from lk un t as i (v, w) of
     None \<Rightarrow> True
   | Some (Ret u s) \<Rightarrow> owns_all t w0 s \<and> fst s = take i v @ map Some as
   | Some (Exn e s) \<Rightarrow> owns_all t w0 s
   | Some (Fault f) \<Rightarrow> False"
proof (induction as arbitrary: i v w)
  case (Cons a as)
  have i: "i < length v" "v ! i = None" using Cons.prems(2,3) by force+
  then have sp: "v = take i v @ None # drop (Suc i) v" by (metis id_take_nth_drop)
  have r: "scoped_relock lk un t a (v ! i, w) = scoped_new lk t a w" using i(2) by (simp add: scoped_relock_def scoped_unlock_def)
  have val: "\<forall>b. valid (w b)" using Cons.prems(1) by (simp add: owns_all_def)
  show ?case
  proof (cases "scoped_new lk t a w")
    case (Some r1)
    show ?thesis
    proof (cases r1)
      case (Ret u s)
      obtain sl w1 where s: "s = (sl, w1)" by fastforce
      have sl: "sl = Some a" using Some Ret s by (auto simp: scoped_new_def split: option.splits outcome.splits)
      have "count_list (v[i := Some a]) (Some b) = count_list v (Some b) + (if b = a then 1 else 0)" for b
        by (subst (1 2) sp) (use i(1) in \<open>simp add: list_update_append\<close>)
      then have "owns_all t w0 (v[i := sl], w1)"
        using scoped_new_owns [OF val, of t a] Cons.prems(1) Some Ret s sl by (auto simp: owns_exactly_def owns_all_def)
      moreover have "take (Suc i) (v[i := sl]) = take i v @ [sl]" using i(1) by (simp add: take_Suc_conv_app_nth)
      moreover have "\<forall>j<length as. v[i := sl] ! (Suc i + j) = None" using Cons.prems(3) by (auto simp: nth_list_update)
      ultimately show ?thesis using Cons.IH [of "v[i := sl]" w1 "Suc i"] Cons.prems(2) Some Ret r s sl
        by (auto split: option.splits outcome.splits)
    next
      case (Exn e s)
      then have "s = (None, w)" using scoped_new_owns [OF val, of t a] Some by simp
      moreover have "v[i := None] = v" using i by (metis list_update_id)
      ultimately show ?thesis using r Some Exn Cons.prems(1) by simp
    next
      case (Fault f)
      then show ?thesis using scoped_new_owns [OF val, of t a] Some by simp
    qed
  qed (simp add: r)
qed simp

end

section \<open>Locking the whole set\<close>

text \<open>Besides what it holds in \<open>w0\<close>, thread \<open>t\<close> holds what the array \<open>mlk\<close> owns.\<close>

definition multi_locks :: "multi \<Rightarrow> nat option list" where
  "multi_locks mlk = (case mlk of None \<Rightarrow> [] | Some v \<Rightarrow> v)"

definition multi_holds :: "nat \<Rightarrow> pthread_mutex locks \<Rightarrow> multi \<Rightarrow> pthread_mutex locks \<Rightarrow> bool" where
  "multi_holds t w0 mlk w \<longleftrightarrow> (\<forall>b. mutex_held t (w b) = mutex_held t (w0 b) + count_list (multi_locks mlk) (Some b))"

definition tls_inv :: "'a tls_set \<Rightarrow> bool" where
  "tls_inv s \<longleftrightarrow> distinct (all_vec s) \<and> (\<forall>t e. t_key s t = Some e \<longrightarrow> e \<in> set (all_vec s))"

lemma multi_holds_owns: "multi_holds t w0 mlk w \<longleftrightarrow> mx.owns_all t w0 (multi_locks mlk, w)"
  by (simp add: multi_holds_def mx.owns_all_def)

lemma multi_delete_held:
  assumes "multi_holds t w0 mlk w"
  shows "\<exists>w'. multi_delete mutex_unlock t (mlk, w) = Ret () w' \<and> multi_holds t w0 None w'"
proof (cases mlk)
  case (Some v)
  with mx.multi_delete_owns [of t w0 v w] assms show ?thesis by (auto simp: multi_holds_owns multi_locks_def)
qed (use assms in \<open>simp add: multi_delete_def\<close>)

text \<open>Releasing makes nobody an owner; a lock that blocks has one.\<close>

lemma unlock_frees: "mutex_unlock t m = Ret u m' \<Longrightarrow> mx_owner m' \<noteq> None \<Longrightarrow> mx_owner m \<noteq> None"
  by (auto simp: mutex_unlock_def posix_mutex_unlock_def split: if_splits)

lemma scoped_delete_frees:
  "scoped_delete mutex_unlock t (sl, w) = Ret u w' \<Longrightarrow> mx_owner (w' b) \<noteq> None \<Longrightarrow> mx_owner (w b) \<noteq> None"
  by (auto simp: scoped_delete_def dest!: unlock_frees split: option.splits outcome.splits if_splits)

lemma delete_locks_frees:
  "delete_locks mutex_unlock t v w = Ret u w' \<Longrightarrow> mx_owner (w' b) \<noteq> None \<Longrightarrow> mx_owner (w b) \<noteq> None"
proof (induction v arbitrary: w)
  case (Cons sl v)
  then obtain w1 where "scoped_delete mutex_unlock t (sl, w) = Ret () w1" "delete_locks mutex_unlock t v w1 = Ret u w'"
    by (auto split: outcome.splits)
  with Cons scoped_delete_frees show ?case by blast
qed simp

lemma multi_delete_frees:
  "multi_delete mutex_unlock t (mlk, w) = Ret u w' \<Longrightarrow> mx_owner (w' b) \<noteq> None \<Longrightarrow> mx_owner (w b) \<noteq> None"
  by (auto simp: multi_delete_def dest: delete_locks_frees split: option.splits)

lemma relock_blocks:
  "relock_from mutex_lock mutex_unlock t as i (v, w) = None \<Longrightarrow> distinct as \<Longrightarrow> i + length as = length v \<Longrightarrow>
   \<forall>j<length as. v ! (i + j) = None \<Longrightarrow> \<exists>a\<in>set as. mx_owner (w a) \<noteq> None"
proof (induction as arbitrary: i v w)
  case (Cons a as)
  show ?case
  proof (cases "mx_owner (w a)")
    case None
    let ?l = "(w a)\<lparr>mx_owner := Some t, mx_depth := 0\<rparr>"
    have "v ! i = None" using Cons.prems(4) by force
    with None have "scoped_relock mutex_lock mutex_unlock t a (v ! i, w) = Some (Ret () (Some a, w(a := ?l)))"
      by (simp add: scoped_relock_def scoped_unlock_def scoped_new_def mutex_lock_def posix_mutex_lock_def)
    then have r: "relock_from mutex_lock mutex_unlock t as (Suc i) (v[i := Some a], w(a := ?l)) = None" using Cons.prems(1) by simp
    have "\<forall>j<length as. v[i := Some a] ! (Suc i + j) = None" using Cons.prems(4) by (auto simp: nth_list_update)
    with Cons.IH [OF r] Cons.prems(2,3) obtain b where b: "b \<in> set as" "mx_owner ((w(a := ?l)) b) \<noteq> None" by auto
    then have "b \<noteq> a" using Cons.prems(2) by auto
    then show ?thesis using b by auto
  qed auto
qed simp

lemma held_blocks: "0 < mutex_held t m \<Longrightarrow> v \<noteq> t \<Longrightarrow> mutex_lock v m = None"
  by (auto simp: mutex_held_def mutex_lock_def posix_mutex_lock_def split: if_splits)

lemma lock_all_body_result:
  assumes "multi_holds t w0 mlk (t_mutex s)" "distinct (all_vec s)"
  shows "case lock_all_body t ok (mlk, s) of
      None \<Rightarrow> (\<exists>e\<in>set (all_vec s). mx_owner (t_mutex s e) \<noteq> None)
    | Some r \<Rightarrow> \<exists>mlk' w'. multi_holds t w0 mlk' w' \<and>
        (r = Ret () (mlk', s\<lparr>t_mutex := w'\<rparr>) \<and> mlk' = Some (map Some (all_vec s)) \<or> (\<exists>e. r = Exn e (mlk', s\<lparr>t_mutex := w'\<rparr>)))"
proof -
  from multi_delete_held [OF assms(1)] obtain w1 where
    w1: "multi_delete mutex_unlock t (mlk, t_mutex s) = Ret () w1" "multi_holds t w0 None w1" by blast
  let ?n = "length (all_vec s)"
  have own: "mx.owns_all t w0 (replicate ?n None, w1)"
    using w1(2) by (auto simp: multi_holds_owns multi_locks_def mx.owns_all_def count_list_0_iff)
  note res = mx.relock_from_owns [OF own, of 0 "all_vec s"]
  show ?thesis
  proof (cases ok)
    case False
    then show ?thesis using w1 by (force simp: lock_all_body_def multi_reset_def)
  next
    case True
    show ?thesis
    proof (cases "relock_from mutex_lock mutex_unlock t (all_vec s) 0 (replicate ?n None, w1)")
      case None
      from relock_blocks [OF this assms(2)] multi_delete_frees [OF w1(1)]
      have "\<exists>e\<in>set (all_vec s). mx_owner (t_mutex s e) \<noteq> None" by simp blast
      then show ?thesis using True w1 None by (simp add: lock_all_body_def multi_reset_def)
    next
      case (Some r)
      then show ?thesis using True w1 res
        by (cases r) (auto simp: lock_all_body_def multi_reset_def multi_holds_owns multi_locks_def split: prod.splits)
    qed
  qed
qed

text \<open>The reference to the vector: taking it, and giving it back.\<close>

lemma sync_lk_cases:
  obtains "sync_lk t x = None" "mx_owner (s_mutex x) \<noteq> None"
  | e where "sync_lk t x = Some (Exn e x)"
  | y x' where "sync_lk t x = Some (Ret () y)" "s_obj y = s_obj x" "sync_un t y = Ret () x'" "s_obj x' = s_obj x"
      "sync_held t x' = sync_held t x"
proof (cases "sync_lk t x")
  case None
  then have "mx_owner (s_mutex x) \<noteq> None" by (auto simp: sync_lk_def mutex_lock_def posix_mutex_lock_def split: option.splits)
  then show thesis using None that(1) by blast
next
  case (Some r)
  show thesis
  proof (cases r)
    case (Ret u y)
    then have y: "sync_held t y = Suc (sync_held t x)" using Some sy.lock_ok [where l = x and t = t and u = u and l' = y] by simp
    then obtain x' where x': "sync_un t y = Ret () x'" "sync_held t x' = sync_held t x" using sy.unlock_ok [where l = y and t = t] by auto
    have "s_obj y = s_obj x" "s_obj x' = s_obj y" using Some Ret x'(1)
      by (auto simp: sync_lk_def sync_un_def elim!: in_sync.elims)
    then show thesis using that(3) Some Ret x' by simp
  next
    case (Exn e y)
    then show thesis using that(2) Some sy.lock_err [where l = x and t = t and e = e and l' = y] by simp
  next
    case (Fault f)
    then show thesis using Some sy.lock_safe [where l = x and t = t and f = f] by simp
  qed
qed

definition locked_out :: "nat \<Rightarrow> 'a tls_set \<Rightarrow> bool" where
  "locked_out v s \<longleftrightarrow> (\<forall>data. update_self v data s = None) \<and> get_self v (None, s) = None"

lemma held_locks_out: "t_key s v = Some e \<Longrightarrow> 0 < mutex_held t (t_mutex s e) \<Longrightarrow> v \<noteq> t \<Longrightarrow> locked_out v s"
  by (simp add: locked_out_def update_self_def get_self_def scoped_lock_new_def scoped_lock_relock_def scoped_relock_def
      scoped_unlock_def scoped_new_def held_blocks)

text \<open>
  C39. \<open>lock_all\<close> blocks only while some mutex of the set is held. When it returns, the array of locks owns
  the mutex of every element, once each, and no other thread of the set gets to its own value any
  more, by \<open>update_self\<close> or \<open>get_self\<close>; when it throws, the array still owns just what it locked. What
  the array owned before was released, the set itself is unchanged, the reference to the vector is
  given back, and destroying the array leaves the thread with just what it held without it.
\<close>
theorem lock_all_correct:
  assumes "tls_inv s" and "multi_holds t w0 mlk (t_mutex s)"
  shows "case lock_all t ok (mlk, s) of
      None \<Rightarrow> mx_owner (s_mutex (t_all s)) \<noteq> None \<or> (\<exists>e\<in>set (all_vec s). mx_owner (t_mutex s e) \<noteq> None)
    | Some r \<Rightarrow> \<exists>mlk' s' w'.
        (r = Ret () (mlk', s') \<and> mlk' = Some (map Some (all_vec s)) \<and>
           (\<forall>v. v \<noteq> t \<and> t_key s v \<noteq> None \<longrightarrow> locked_out v s') \<or> (\<exists>e. r = Exn e (mlk', s'))) \<and>
        multi_holds t w0 mlk' (t_mutex s') \<and> all_vec s' = all_vec s \<and> t_data s' = t_data s \<and> t_key s' = t_key s \<and>
        sync_held t (t_all s') = sync_held t (t_all s) \<and>
        multi_delete mutex_unlock t (mlk', t_mutex s') = Ret () w' \<and> (\<forall>b. mutex_held t (w' b) = mutex_held t (w0 b))"
proof (cases rule: sync_lk_cases [of t "t_all s"])
  case 1
  then show ?thesis by (simp add: lock_all_def with_all_def)
next
  case (2 e)
  then show ?thesis using multi_delete_held [OF assms(2)] assms(2)
    by (auto simp: lock_all_def with_all_def multi_holds_def multi_locks_def)
next
  case (3 y x')
  let ?s = "s\<lparr>t_all := y\<rparr>"
  have v: "all_vec ?s = all_vec s" using 3 by (simp add: all_vec_def)
  have d: "distinct (all_vec ?s)" using assms(1) v by (simp add: tls_inv_def)
  have res: "case lock_all_body t ok (mlk, ?s) of
      None \<Rightarrow> (\<exists>e\<in>set (all_vec s). mx_owner (t_mutex s e) \<noteq> None)
    | Some r \<Rightarrow> \<exists>mlk' w'. multi_holds t w0 mlk' w' \<and>
        (r = Ret () (mlk', ?s\<lparr>t_mutex := w'\<rparr>) \<and> mlk' = Some (map Some (all_vec s)) \<or> (\<exists>e. r = Exn e (mlk', ?s\<lparr>t_mutex := w'\<rparr>)))"
    using lock_all_body_result [OF _ d, of t w0 mlk ok] assms(2) unfolding v by (simp cong: option.case_cong)
  show ?thesis
  proof (cases "lock_all_body t ok (mlk, ?s)")
    case None
    then show ?thesis using 3(1) res by (simp add: lock_all_def with_all_def)
  next
    case (Some r)
    with res obtain mlk' w' where h: "multi_holds t w0 mlk' w'" and
      r: "r = Ret () (mlk', ?s\<lparr>t_mutex := w'\<rparr>) \<and> mlk' = Some (map Some (all_vec s)) \<or> (\<exists>e. r = Exn e (mlk', ?s\<lparr>t_mutex := w'\<rparr>))" by auto
    let ?s' = "s\<lparr>t_all := x', t_mutex := w'\<rparr>"
    from multi_delete_held [OF h] obtain w2 where
      w2: "multi_delete mutex_unlock t (mlk', w') = Ret () w2" "\<forall>b. mutex_held t (w2 b) = mutex_held t (w0 b)"
      by (auto simp: multi_holds_def multi_locks_def)
    have out: "locked_out u ?s'" if "mlk' = Some (map Some (all_vec s))" "u \<noteq> t" "t_key s u = Some e" for u e
    proof (rule held_locks_out [where t = t and e = e])
      have "Some e \<in> set (multi_locks mlk')" using that assms(1) by (auto simp: tls_inv_def multi_locks_def)
      then show "0 < mutex_held t (t_mutex ?s' e)" using h by (auto simp: multi_holds_def count_list_0_iff intro: Suc_leI)
    qed (use that in simp_all)
    have eq: "lock_all t ok (mlk, s) = Some (Ret () (mlk', ?s')) \<and> mlk' = Some (map Some (all_vec s)) \<or>
        (\<exists>e. lock_all t ok (mlk, s) = Some (Exn e (mlk', ?s')))"
      using r Some 3 by (auto simp: lock_all_def with_all_def)
    have f: "all_vec ?s' = all_vec s" "sync_held t (t_all ?s') = sync_held t (t_all s)" using 3 by (simp_all add: all_vec_def)
    show ?thesis using eq
    proof (elim disjE exE conjE)
      assume e: "lock_all t ok (mlk, s) = Some (Ret () (mlk', ?s'))" "mlk' = Some (map Some (all_vec s))"
      show ?thesis unfolding e(1) option.case
        by (rule exI [of _ mlk'], rule exI [of _ ?s'], rule exI [of _ w2]) (use e(2) out [OF e(2)] h w2 f in auto)
    next
      fix ex assume e: "lock_all t ok (mlk, s) = Some (Exn ex (mlk', ?s'))"
      show ?thesis unfolding e option.case
        by (rule exI [of _ mlk'], rule exI [of _ ?s'], rule exI [of _ w2]) (use h w2 f in auto)
    qed
  qed
qed

text \<open>Thread 1 locks a set of two values; thread 2 is locked out.\<close>

definition sample_tls :: "nat tls_set" where
  "sample_tls = \<lparr>t_key = [1 \<mapsto> 10, 2 \<mapsto> 20], t_all = sync_new [10, 20], t_data = [10 \<mapsto> 5, 20 \<mapsto> 6], t_mutex = (\<lambda>_. pthread_mutex_new)\<rparr>"

theorem lock_all_correct_witness:
  "\<exists>s'. lock_all 1 True (None, sample_tls) = Some (Ret () (Some [Some 10, Some 20], s')) \<and> locked_out 2 s'"
proof -
  have inv: "tls_inv sample_tls" by (simp add: tls_inv_def sample_tls_def all_vec_def sync_new_def)
  have own: "multi_holds 1 (t_mutex sample_tls) None (t_mutex sample_tls)" by (simp add: multi_holds_def multi_locks_def)
  have r: "\<exists>s'. lock_all 1 True (None, sample_tls) = Some (Ret () (Some [Some 10, Some 20], s'))"
    by (simp add: lock_all_def with_all_def lock_all_body_def multi_reset_def multi_delete_def all_vec_def sample_tls_def sync_new_def
        sync_lk_def sync_un_def scoped_relock_def scoped_unlock_def scoped_new_def mutex_lock_def posix_mutex_lock_def mutex_unlock_def
        posix_mutex_unlock_def pthread_mutex_new_def numeral_2_eq_2)
  have "t_key sample_tls 2 = Some 20" by (simp add: sample_tls_def)
  with lock_all_correct [OF inv own, of True] r show ?thesis by auto
qed

text \<open>
  \<open>init_thread\<close> adds one element, which the thread then finds by its key, or throws and leaves the set as
  it was; the mutex of the vector is given back either way. A new element is not one of the old ones.
\<close>

lemma init_thread_atomic:
  assumes "tls_inv s" "case new of None \<Rightarrow> True | Some a \<Rightarrow> a \<notin> set (all_vec s) \<and> t_data s a = None"
    and "init_thread t new room err data ((), s) = Some r"
  shows "\<exists>s'. sync_held t (t_all s') = sync_held t (t_all s) \<and> tls_inv s' \<and>
     (r = Ret () ((), s') \<and> (\<exists>a. new = Some a \<and> all_vec s' = all_vec s @ [a] \<and> t_key s' = (t_key s)(t \<mapsto> a) \<and> t_data s' = (t_data s)(a \<mapsto> data)) \<or>
      (\<exists>e. r = Exn e ((), s')) \<and> all_vec s' = all_vec s \<and> t_key s' = t_key s \<and> t_data s' = t_data s)"
proof (cases rule: sync_lk_cases [of t "t_all s"])
  case 1
  then show ?thesis using assms(3) by (simp add: init_thread_def with_all_def)
next
  case (2 e)
  then show ?thesis using assms by (auto simp: init_thread_def with_all_def)
next
  case (3 y x')
  have un: "sync_un t (y\<lparr>s_obj := v\<rparr>) = Ret () (x'\<lparr>s_obj := v\<rparr>)" for v
    using 3 by (cases "mutex_unlock t (s_mutex y)") (auto simp: sync_un_def)
  have [simp]: "y\<lparr>s_obj := s_obj (t_all s)\<rparr> = y" "x'\<lparr>s_obj := s_obj (t_all s)\<rparr> = x'" using 3 by simp_all
  have [simp]: "sync_held t (x'\<lparr>s_obj := v\<rparr>) = sync_held t (t_all s)" for v using 3 by (simp add: sync_held_def)
  show ?thesis
  proof (cases new)
    case None
    then show ?thesis using assms 3 by (auto simp: init_thread_def with_all_def tls_inv_def all_vec_def)
  next
    case (Some a)
    then have a: "a \<notin> set (all_vec s)" "t_data s a = None" using assms(2) by simp_all
    then have u: "(t_data s)(a := None) = t_data s" by auto
    show ?thesis using assms(1,3) 3 Some a u un
      by (auto simp: init_thread_def with_all_def tls_inv_def all_vec_def set_all_vec_def delete_element_def Let_def split: if_splits)
  qed
qed

text \<open>
  When a thread exits, the destructor of the key destroys its value but the element stays in the vector:
  from then on the set holds an element without a value. \<open>~tls_set\<close> frees nothing.
\<close>

lemma exit_thread_leaves_element:
  assumes "tls_inv s" "t_key s t = Some e"
  shows "e \<in> set (all_vec (exit_thread t s)) \<and> t_data (exit_thread t s) e = None"
  using assms by (auto simp: exit_thread_def tls_inv_def all_vec_def)

end
