(* ===== verification/Endian.thy ===== *)
theory Endian
  imports Prelude
begin

text \<open>
  Network byte order for 64-bit integers, \<open>htonll\<close> and \<open>ntohll\<close> of \<open>src/mp/endian.h\<close>, in the portable
  version for little-endian targets.
\<close>

unbundle bit_operations_syntax

definition htonll :: "u64 \<Rightarrow> u64" where
  "htonll x =
     (push_bit 56 x AND 0xff00000000000000) OR
     (push_bit 40 x AND 0x00ff000000000000) OR
     (push_bit 24 x AND 0x0000ff0000000000) OR
     (push_bit 8 x AND 0x000000ff00000000) OR
     (drop_bit 8 x AND 0x00000000ff000000) OR
     (drop_bit 24 x AND 0x0000000000ff0000) OR
     (drop_bit 40 x AND 0x000000000000ff00) OR
     (drop_bit 56 x AND 0x00000000000000ff)"

definition ntohll :: "u64 \<Rightarrow> u64" where
  "ntohll x = htonll x"

definition byte_at :: "u64 \<Rightarrow> nat \<Rightarrow> byte" where
  "byte_at x i = ucast (drop_bit (8 * i) x)"

lemma byte_masks:
  "(0xff00000000000000 :: u64) = push_bit 56 (mask 8)" "(0x00ff000000000000 :: u64) = push_bit 48 (mask 8)"
  "(0x0000ff0000000000 :: u64) = push_bit 40 (mask 8)" "(0x000000ff00000000 :: u64) = push_bit 32 (mask 8)"
  "(0x00000000ff000000 :: u64) = push_bit 24 (mask 8)" "(0x0000000000ff0000 :: u64) = push_bit 16 (mask 8)"
  "(0x000000000000ff00 :: u64) = push_bit 8 (mask 8)" "(0x00000000000000ff :: u64) = push_bit 0 (mask 8)"
  by (simp_all add: mask_eq_exp_minus_1 push_bit_eq_mult)

text \<open>Bit \<open>n\<close> of byte \<open>i\<close> of one summand.\<close>

lemma summand_bits:
  fixes x :: u64
  assumes "i < 8" "n < 8" "k < 8"
  shows "bit (push_bit s x AND push_bit (8 * k) (mask 8)) (8 * i + n) \<longleftrightarrow> i = k \<and> s \<le> 8 * i + n \<and> bit x (8 * i + n - s)"
    and "bit (drop_bit s x AND push_bit (8 * k) (mask 8)) (8 * i + n) \<longleftrightarrow> i = k \<and> bit x (8 * i + n + s)"
proof -
  have m: "bit (push_bit (8 * k) (mask 8) :: u64) (8 * i + n) \<longleftrightarrow> i = k"
  proof -
    have "bit (push_bit (8 * k) (mask 8) :: u64) (8 * i + n) \<longleftrightarrow> 8 * k \<le> 8 * i + n \<and> 8 * i + n < 64 \<and> 8 * i + n - 8 * k < 8"
      by (auto simp: bit_simps)
    also have "\<dots> \<longleftrightarrow> i = k" using assms by auto
    finally show ?thesis .
  qed
  have lt: "8 * i + n < 64" using assms by linarith
  show "bit (push_bit s x AND push_bit (8 * k) (mask 8)) (8 * i + n) \<longleftrightarrow> i = k \<and> s \<le> 8 * i + n \<and> bit x (8 * i + n - s)"
    using m lt by (auto simp: bit_and_iff bit_push_bit_iff)
  show "bit (drop_bit s x AND push_bit (8 * k) (mask 8)) (8 * i + n) \<longleftrightarrow> i = k \<and> bit x (8 * i + n + s)"
    using m by (auto simp: bit_and_iff bit_drop_bit_eq add.commute)
qed

lemma byte_at_htonll:
  assumes "i < 8"
  shows "byte_at (htonll x) i = byte_at x (7 - i)"
proof (rule bit_word_eqI)
  fix n assume "n < LENGTH(8)"
  then have n: "n < 8" by simp
  have b: "bit (byte_at y j) n \<longleftrightarrow> bit y (8 * j + n)" for y j using n by (simp add: byte_at_def bit_ucast_iff bit_drop_bit_eq)
  note P = summand_bits(1) [OF assms n, where x = x] and D = summand_bits(2) [OF assms n, where x = x]
  have "bit (htonll x) (8 * i + n) \<longleftrightarrow>
      i = 7 \<and> 56 \<le> 8 * i + n \<and> bit x (8 * i + n - 56) \<or> i = 6 \<and> 40 \<le> 8 * i + n \<and> bit x (8 * i + n - 40) \<or>
      i = 5 \<and> 24 \<le> 8 * i + n \<and> bit x (8 * i + n - 24) \<or> i = 4 \<and> 8 \<le> 8 * i + n \<and> bit x (8 * i + n - 8) \<or>
      i = 3 \<and> bit x (8 * i + n + 8) \<or> i = 2 \<and> bit x (8 * i + n + 24) \<or> i = 1 \<and> bit x (8 * i + n + 40) \<or> i = 0 \<and> bit x (8 * i + n + 56)"
    unfolding htonll_def byte_masks bit_or_iff
    using P [of 7 56] P [of 6 40] P [of 5 24] P [of 4 8] D [of 3 8] D [of 2 24] D [of 1 40] D [of 0 56]
    by (simp del: One_nat_def)
  also have "\<dots> \<longleftrightarrow> bit x (8 * (7 - i) + n)"
  proof -
    have "i = 0 \<or> i = 1 \<or> i = 2 \<or> i = 3 \<or> i = 4 \<or> i = 5 \<or> i = 6 \<or> i = 7" using assms by linarith
    then show ?thesis by (elim disjE) (simp_all add: add.commute)
  qed
  finally have "bit (htonll x) (8 * i + n) \<longleftrightarrow> bit x (8 * (7 - i) + n)" .
  then show "bit (byte_at (htonll x) i) n = bit (byte_at x (7 - i)) n" by (simp add: b)
qed

lemma nth_le_enc: "i < k \<Longrightarrow> le_enc k v ! i = of_nat (v div 256 ^ i mod 256)"
proof (induction k arbitrary: v i)
  case (Suc k)
  then show ?case by (cases i) (simp_all add: div_mult2_eq)
qed simp

lemma enc_byte_at: "i < 8 \<Longrightarrow> enc_u64 x ! i = byte_at x i"
proof -
  assume "i < 8"
  have "byte_at x i = of_nat (unat x div 256 ^ i)"
  proof -
    have "unat (drop_bit (8 * i) x) = unat x div 256 ^ i"
      unfolding unat_drop_bit_eq by (simp add: drop_bit_eq_div power_mult)
    moreover have "byte_at x i = of_nat (unat (drop_bit (8 * i) x))" by (simp add: byte_at_def)
    ultimately show ?thesis by simp
  qed
  moreover have "(of_nat (m mod 256) :: byte) = of_nat m" for m
    by (rule word_unat_eq_iff [THEN iffD2]) simp
  ultimately show ?thesis using \<open>i < 8\<close> by (simp add: enc_u64_def nth_le_enc)
qed

text \<open>
  C35. The shifts and masks of \<open>htonll\<close> are the reversal of the eight bytes of the integer as they lie
  in memory (the big-endian order of the network), and \<open>ntohll\<close> undoes it.
\<close>
theorem htonll_reverses_bytes:
  "enc_u64 (htonll x) = rev (enc_u64 x) \<and> ntohll (htonll x) = x"
proof
  show eq: "enc_u64 (htonll x) = rev (enc_u64 x)"
    by (rule nth_equalityI) (simp_all add: enc_byte_at byte_at_htonll rev_nth)
  have "enc_u64 (htonll (htonll x)) = enc_u64 x"
    by (rule nth_equalityI) (simp_all add: enc_byte_at byte_at_htonll)
  then show "ntohll (htonll x) = x" by (metis le_dec_enc_u64 ntohll_def)
qed

end
