(* ===== verification/Sparse_Array.thy ===== *)
theory Sparse_Array
  imports Prelude
begin

text \<open>
  \<open>mp::sparse_array\<close> of \<open>src/mp/sparse_array.hmpl\<close>: an array that grows in chunks of 64 items, each with a
  flag and room for an object. It implements a partial map from indices to objects. The state lists
  the chunks, what the next allocations do, and the objects that were destroyed, in order.
\<close>

section \<open>The class\<close>

record 'a item =
  enable :: bool
  obj :: "'a option"

record 'a sparse_array =
  base_array :: "'a item list list"
  sa_allocs :: "bool list"
  sa_destroyed :: "'a list"

definition EXTEND_ARRAY_SIZE :: nat where
  "EXTEND_ARRAY_SIZE = 64"

definition take_alloc :: "'a sparse_array \<Rightarrow> bool \<times> 'a sparse_array" where
  "take_alloc a = (case sa_allocs a of [] \<Rightarrow> (True, a) | ok # rest \<Rightarrow> (ok, a\<lparr>sa_allocs := rest\<rparr>))"

text \<open>\<open>calloc\<close> clears the flags of a new chunk; the vector grows after that and may fail, too.\<close>

definition extend_array :: "'a sparse_array \<Rightarrow> (unit, 'a sparse_array) outcome" where
  "extend_array a =
     (let (ok, a) = take_alloc a in
      if \<not> ok then Exn Bad_alloc a
      else let (ok, a) = take_alloc a in
      if \<not> ok then Exn Bad_alloc a
      else Ret () (a\<lparr>base_array := base_array a @ [replicate EXTEND_ARRAY_SIZE \<lparr>enable = False, obj = None\<rparr>]\<rparr>))"

definition sparse_array_new :: "bool list \<Rightarrow> (unit, 'a sparse_array) outcome" where
  "sparse_array_new allocs = extend_array \<lparr>base_array = [], sa_allocs = allocs, sa_destroyed = []\<rparr>"

definition item_of :: "nat \<Rightarrow> 'a sparse_array \<Rightarrow> 'a item option" where
  "item_of index a =
     (if index div EXTEND_ARRAY_SIZE < length (base_array a) then
        (let chunk = base_array a ! (index div EXTEND_ARRAY_SIZE) in
         if index mod EXTEND_ARRAY_SIZE < length chunk then Some (chunk ! (index mod EXTEND_ARRAY_SIZE)) else None)
      else None)"

definition put_item :: "nat \<Rightarrow> 'a item \<Rightarrow> 'a sparse_array \<Rightarrow> 'a sparse_array" where
  "put_item index it a =
     a\<lparr>base_array := (base_array a)[index div EXTEND_ARRAY_SIZE :=
        (base_array a ! (index div EXTEND_ARRAY_SIZE))[index mod EXTEND_ARRAY_SIZE := it]]\<rparr>"

text \<open>The destructor of an object; there must be one.\<close>

definition destroy :: "'a item \<Rightarrow> 'a sparse_array \<Rightarrow> (unit, 'a sparse_array) outcome" where
  "destroy it a =
     (case obj it of None \<Rightarrow> Fault Uninitialised | Some v \<Rightarrow> Ret () (a\<lparr>sa_destroyed := sa_destroyed a @ [v]\<rparr>))"

function extend_to :: "nat \<Rightarrow> 'a sparse_array \<Rightarrow> (unit, 'a sparse_array) outcome" where
  "extend_to index a =
     (if length (base_array a) \<le> index div EXTEND_ARRAY_SIZE then
        (case extend_array a of Ret _ a' \<Rightarrow> extend_to index a' | Exn e a' \<Rightarrow> Exn e a' | Fault f \<Rightarrow> Fault f)
      else Ret () a)"
  by pat_completeness auto
termination
  by (relation "measure (\<lambda>(index, a). Suc (index div EXTEND_ARRAY_SIZE) - length (base_array a))")
     (auto simp: extend_array_def take_alloc_def Let_def split: list.splits if_splits)

declare extend_to.simps [simp del]

definition set_impl :: "nat \<Rightarrow> 'a sparse_array \<Rightarrow> (unit, 'a sparse_array) outcome" where
  "set_impl index a =
     bind_outcome (extend_to index a) (\<lambda>_ a.
     case item_of index a of
       None \<Rightarrow> Fault Out_of_bounds
     | Some it \<Rightarrow>
         if enable it then bind_outcome (destroy it a) (\<lambda>_ a. Ret () (put_item index (it\<lparr>obj := None\<rparr>) a))
         else Ret () (put_item index (it\<lparr>enable := True\<rparr>) a))"

definition revert :: "nat \<Rightarrow> 'a sparse_array \<Rightarrow> (unit, 'a sparse_array) outcome" where
  "revert index a =
     (case item_of index a of
        None \<Rightarrow> Fault Out_of_bounds
      | Some it \<Rightarrow> Ret () (put_item index (it\<lparr>enable := False\<rparr>) a))"

text \<open>\<open>set\<close> with a constructor that makes the object or throws \<open>e\<close>.\<close>

definition sa_set :: "nat \<Rightarrow> exn + 'a \<Rightarrow> 'a sparse_array \<Rightarrow> (unit, 'a sparse_array) outcome" where
  "sa_set index ctor a =
     (case set_impl index a of
        Fault f \<Rightarrow> Fault f
      | Exn e a \<Rightarrow> bind_outcome (revert index a) (\<lambda>_ a. Exn e a)
      | Ret _ a \<Rightarrow>
          (case ctor of
             Inr v \<Rightarrow> Ret () (put_item index \<lparr>enable = True, obj = Some v\<rparr> a)
           | Inl e \<Rightarrow> bind_outcome (revert index a) (\<lambda>_ a. Exn e a)))"

definition sa_reset :: "nat \<Rightarrow> 'a sparse_array \<Rightarrow> (unit, 'a sparse_array) outcome" where
  "sa_reset index a =
     (case item_of index a of
        None \<Rightarrow> Fault Out_of_bounds
      | Some it \<Rightarrow> bind_outcome (destroy it a) (\<lambda>_ a. Ret () (put_item index \<lparr>enable = False, obj = None\<rparr> a)))"

text \<open>\<open>data\<close> does not look at the flag, so its result is an object only where one was set.\<close>

definition sa_data :: "nat \<Rightarrow> 'a sparse_array \<Rightarrow> ('a, 'a sparse_array) outcome" where
  "sa_data index a =
     (case item_of index a of
        None \<Rightarrow> Fault Out_of_bounds
      | Some it \<Rightarrow> (case obj it of None \<Rightarrow> Fault Uninitialised | Some v \<Rightarrow> Ret v a))"

definition sa_get :: "nat \<Rightarrow> 'a sparse_array \<Rightarrow> 'a option" where
  "sa_get index a =
     (if index < length (base_array a) * EXTEND_ARRAY_SIZE then
        (case item_of index a of Some it \<Rightarrow> if enable it then obj it else None | None \<Rightarrow> None)
      else None)"

definition sa_test :: "nat \<Rightarrow> 'a sparse_array \<Rightarrow> bool" where
  "sa_test index a \<longleftrightarrow> index < length (base_array a) * EXTEND_ARRAY_SIZE \<and>
     (case item_of index a of Some it \<Rightarrow> enable it | None \<Rightarrow> False)"

definition sa_capacity :: "'a sparse_array \<Rightarrow> nat" where
  "sa_capacity a = length (base_array a) * EXTEND_ARRAY_SIZE"

text \<open>The destructor: the objects from the first chunk to the last.\<close>

definition sa_delete :: "'a sparse_array \<Rightarrow> 'a list" where
  "sa_delete a = concat (map (concat \<circ> map (\<lambda>it. if enable it then case obj it of None \<Rightarrow> [] | Some v \<Rightarrow> [v] else [])) (base_array a))"

section \<open>The map it implements\<close>

definition sa_inv :: "'a sparse_array \<Rightarrow> bool" where
  "sa_inv a \<longleftrightarrow> (\<forall>chunk\<in>set (base_array a). length chunk = 64 \<and> (\<forall>it\<in>set chunk. enable it \<longleftrightarrow> obj it \<noteq> None))"

lemma index_bound: "index div 64 < n \<longleftrightarrow> index < n * (64 :: nat)"
  by (simp add: less_mult_imp_div_less div_less_iff_less_mult)

lemma item_of_inv:
  assumes "sa_inv a"
  shows "item_of index a = (if index < sa_capacity a then Some (base_array a ! (index div 64) ! (index mod 64)) else None)"
  using assms by (auto simp: item_of_def sa_capacity_def EXTEND_ARRAY_SIZE_def sa_inv_def Let_def index_bound)

lemma item_enable:
  assumes "sa_inv a" "item_of index a = Some it"
  shows "enable it \<longleftrightarrow> obj it \<noteq> None"
proof -
  have i: "index < sa_capacity a" "it = base_array a ! (index div 64) ! (index mod 64)"
    using assms item_of_inv [OF assms(1), of index] by (auto split: if_splits)
  then have c: "base_array a ! (index div 64) \<in> set (base_array a)"
    by (simp add: sa_capacity_def EXTEND_ARRAY_SIZE_def index_bound)
  then have "length (base_array a ! (index div 64)) = 64" using assms(1) by (simp add: sa_inv_def)
  then have "it \<in> set (base_array a ! (index div 64))" using i(2) by simp
  then show ?thesis using assms(1) c by (auto simp: sa_inv_def)
qed

lemma sa_get_item:
  assumes "sa_inv a"
  shows "sa_get index a = (case item_of index a of None \<Rightarrow> None | Some it \<Rightarrow> obj it)"
proof (cases "item_of index a")
  case None
  then show ?thesis by (simp add: sa_get_def)
next
  case (Some it)
  then have "index < sa_capacity a" using item_of_inv [OF assms, of index] by (auto split: if_splits)
  then show ?thesis using item_enable [OF assms Some] Some by (auto simp: sa_get_def sa_capacity_def)
qed

lemma item_of_put:
  assumes "item_of index a \<noteq> None"
  shows "item_of j (put_item index it a) = (if j = index then Some it else item_of j a)"
proof -
  let ?b = "base_array a" and ?d = "index div 64" and ?m = "index mod 64"
  have i: "?d < length ?b" "?m < length (?b ! ?d)"
    using assms by (auto simp: item_of_def EXTEND_ARRAY_SIZE_def Let_def split: if_splits)
  have put: "base_array (put_item index it a) = ?b[?d := (?b ! ?d)[?m := it]]"
    by (simp add: put_item_def EXTEND_ARRAY_SIZE_def)
  show ?thesis
  proof (cases "j div 64 = ?d")
    case True
    show ?thesis
    proof (cases "j mod 64 = ?m")
      case True
      then have "j = index" using \<open>j div 64 = ?d\<close> by (metis div_mult_mod_eq)
      then show ?thesis using i put by (simp add: item_of_def EXTEND_ARRAY_SIZE_def)
    next
      case False
      then show ?thesis using i put True by (auto simp: item_of_def EXTEND_ARRAY_SIZE_def)
    qed
  next
    case False
    then show ?thesis using i put by (auto simp: item_of_def EXTEND_ARRAY_SIZE_def)
  qed
qed

lemma put_put [simp]: "put_item index it (put_item index it' a) = put_item index it a"
proof (cases "index div EXTEND_ARRAY_SIZE < length (base_array a)")
  case False
  then show ?thesis by (simp add: put_item_def list_update_beyond)
qed (simp add: put_item_def)

definition chunk_ok :: "'a item list \<Rightarrow> bool" where
  "chunk_ok c \<longleftrightarrow> length c = 64 \<and> (\<forall>it\<in>set c. enable it \<longleftrightarrow> obj it \<noteq> None)"

lemma sa_inv_chunks: "sa_inv a \<longleftrightarrow> (\<forall>c\<in>set (base_array a). chunk_ok c)"
  by (simp add: sa_inv_def chunk_ok_def)

lemma chunk_ok_update: "chunk_ok c \<Longrightarrow> enable it \<longleftrightarrow> obj it \<noteq> None \<Longrightarrow> chunk_ok (c[i := it])"
  using set_update_subset_insert [of c i it] unfolding chunk_ok_def by (auto dest!: subsetD)

lemma put_item_inv:
  assumes "sa_inv a" "item_of index a \<noteq> None" "enable it \<longleftrightarrow> obj it \<noteq> None"
  shows "sa_inv (put_item index it a)"
proof -
  have d: "index div 64 < length (base_array a)" using assms(2) by (auto simp: item_of_def EXTEND_ARRAY_SIZE_def split: if_splits)
  then have "chunk_ok (base_array a ! (index div 64))" using assms(1) by (simp add: sa_inv_chunks)
  then have "chunk_ok ((base_array a ! (index div 64))[index mod 64 := it])" using assms(3) by (rule chunk_ok_update)
  then show ?thesis using assms(1) d
    by (auto simp: sa_inv_chunks put_item_def EXTEND_ARRAY_SIZE_def dest!: subsetD [OF set_update_subset_insert])
qed

lemma sa_get_put:
  assumes "sa_inv a" "item_of index a \<noteq> None" "enable it \<longleftrightarrow> obj it \<noteq> None"
  shows "(\<lambda>j. sa_get j (put_item index it a)) = (\<lambda>j. sa_get j a)(index := obj it)"
  using item_of_put [OF assms(2)] by (auto simp: sa_get_item [OF assms(1)] sa_get_item [OF put_item_inv [OF assms]])

section \<open>Growing\<close>

lemma extend_array_result:
  assumes "sa_inv a"
  shows "case extend_array a of
      Ret u a' \<Rightarrow> sa_inv a' \<and> (\<forall>j. sa_get j a' = sa_get j a) \<and> sa_destroyed a' = sa_destroyed a \<and> set (sa_allocs a') \<subseteq> set (sa_allocs a)
    | Exn e a' \<Rightarrow> e = Bad_alloc \<and> base_array a' = base_array a \<and> sa_destroyed a' = sa_destroyed a \<and> False \<in> set (sa_allocs a)
    | Fault f \<Rightarrow> False"
proof -
  have new: "chunk_ok (replicate EXTEND_ARRAY_SIZE \<lparr>enable = False, obj = None\<rparr>)" by (simp add: chunk_ok_def EXTEND_ARRAY_SIZE_def)
  have get: "sa_get j (a\<lparr>sa_allocs := x, base_array := base_array a @ [replicate EXTEND_ARRAY_SIZE \<lparr>enable = False, obj = None\<rparr>]\<rparr>) = sa_get j a" for j x
    by (auto simp: sa_get_def item_of_def EXTEND_ARRAY_SIZE_def Let_def nth_append index_bound split: if_splits)
  obtain ok1 a1 where t1: "take_alloc a = (ok1, a1)" by fastforce
  obtain ok2 a2 where t2: "take_alloc a1 = (ok2, a2)" by fastforce
  have same: "base_array a1 = base_array a" "base_array a2 = base_array a" "sa_destroyed a1 = sa_destroyed a" "sa_destroyed a2 = sa_destroyed a"
    "\<not> ok1 \<Longrightarrow> False \<in> set (sa_allocs a)" "\<not> ok2 \<Longrightarrow> False \<in> set (sa_allocs a)" "set (sa_allocs a2) \<subseteq> set (sa_allocs a)"
    using t1 t2 by (auto simp: take_alloc_def split: list.splits)
  have a2: "a2 = a\<lparr>sa_allocs := sa_allocs a2\<rparr>" using t1 t2 by (auto simp: take_alloc_def split: list.splits)
  show ?thesis
    using t1 t2 same assms new get [of _ "sa_allocs a2"] a2 by (auto simp: extend_array_def sa_inv_chunks)
qed

lemma extend_to_result:
  "sa_inv a \<Longrightarrow> case extend_to index a of
      Ret u a' \<Rightarrow> sa_inv a' \<and> (\<forall>j. sa_get j a' = sa_get j a) \<and> sa_destroyed a' = sa_destroyed a \<and> index < sa_capacity a'
    | Exn e a' \<Rightarrow> e = Bad_alloc \<and> \<not> index < sa_capacity a' \<and> sa_inv a' \<and> False \<in> set (sa_allocs a)
    | Fault f \<Rightarrow> False"
proof (induction index a rule: extend_to.induct)
  case (1 index a)
  show ?case
  proof (cases "length (base_array a) \<le> index div EXTEND_ARRAY_SIZE")
    case False
    then have "index < sa_capacity a" by (simp add: sa_capacity_def EXTEND_ARRAY_SIZE_def index_bound not_le)
    then show ?thesis using False 1(2) by (simp add: extend_to.simps)
  next
    case True
    note E = extend_array_result [OF 1(2)]
    show ?thesis
    proof (cases "extend_array a")
      case (Ret u a')
      then have a': "sa_inv a'" "\<forall>j. sa_get j a' = sa_get j a" "sa_destroyed a' = sa_destroyed a" "set (sa_allocs a') \<subseteq> set (sa_allocs a)"
        using E by auto
      from 1(1) [OF True Ret a'(1)] show ?thesis using True Ret a'(2-4)
        by (subst extend_to.simps) (auto split: outcome.splits)
    next
      case (Exn e a')
      have "\<not> index < sa_capacity a'" using True E Exn by (simp add: sa_capacity_def EXTEND_ARRAY_SIZE_def not_less flip: index_bound not_le)
      then show ?thesis using True Exn E 1(2) by (subst extend_to.simps) (simp add: sa_inv_def)
    qed (use E in simp)
  qed
qed

section \<open>Properties\<close>

lemma destroyed_irrelevant [simp]:
  "item_of j (a\<lparr>sa_destroyed := d\<rparr>) = item_of j a" "sa_get j (a\<lparr>sa_destroyed := d\<rparr>) = sa_get j a"
  "sa_inv (a\<lparr>sa_destroyed := d\<rparr>) = sa_inv a" "sa_destroyed (put_item i it a) = sa_destroyed a"
  by (simp_all add: item_of_def sa_get_def sa_inv_def put_item_def)

lemma sa_test_get: "sa_inv a \<Longrightarrow> sa_test index a \<longleftrightarrow> sa_get index a \<noteq> None"
  using item_enable [of a index] by (auto simp: sa_test_def sa_get_def split: option.splits)

lemma sa_data_get: "sa_inv a \<Longrightarrow> sa_get index a = Some v \<longleftrightarrow> sa_data index a = Ret v a"
  by (auto simp: sa_get_item sa_data_def split: option.splits)

lemma sa_delete_objects:
  assumes "sa_inv a"
  shows "v \<in> set (sa_delete a) \<longleftrightarrow> (\<exists>j. sa_get j a = Some v)"
proof
  assume "v \<in> set (sa_delete a)"
  then obtain c it where c: "c \<in> set (base_array a)" "it \<in> set c" "obj it = Some v"
    by (auto simp: sa_delete_def split: if_splits option.splits)
  have "length c = 64" using c(1) assms by (simp add: sa_inv_def)
  with c obtain d m where dm: "d < length (base_array a)" "c = base_array a ! d" "m < 64" "it = c ! m"
    by (metis in_set_conv_nth)
  then have "item_of (d * 64 + m) a = Some it" using item_of_inv [OF assms, of "d * 64 + m"]
    by (simp add: sa_capacity_def EXTEND_ARRAY_SIZE_def)
  then show "\<exists>j. sa_get j a = Some v" using c(3) by (intro exI [of _ "d * 64 + m"]) (simp add: sa_get_item [OF assms])
next
  assume "\<exists>j. sa_get j a = Some v"
  then obtain j it where j: "item_of j a = Some it" "obj it = Some v" by (auto simp: sa_get_item [OF assms] split: option.splits)
  have "it \<in> set (base_array a ! (j div 64))" "base_array a ! (j div 64) \<in> set (base_array a)"
    using j(1) by (auto simp: item_of_def EXTEND_ARRAY_SIZE_def Let_def split: if_splits)
  then show "v \<in> set (sa_delete a)" using j(2) item_enable [OF assms j(1)] by (force simp: sa_delete_def)
qed

definition old_obj :: "'a option \<Rightarrow> 'a list" where
  "old_obj x = (case x of None \<Rightarrow> [] | Some v \<Rightarrow> [v])"

lemma set_impl_result:
  assumes "sa_inv a" "extend_to index a = Ret u a1"
  shows "item_of index a1 \<noteq> None \<and>
     (\<exists>it. set_impl index a = Ret () (put_item index it (a1\<lparr>sa_destroyed := sa_destroyed a1 @ old_obj (sa_get index a1)\<rparr>)) \<and> obj it = None)"
proof -
  have i1: "sa_inv a1" "index < sa_capacity a1" using extend_to_result [OF assms(1), of index] assms(2) by simp_all
  then obtain it where it: "item_of index a1 = Some it" using item_of_inv [OF i1(1), of index] by simp
  note en = item_enable [OF i1(1) it]
  have g: "sa_get index a1 = obj it" using it by (simp add: sa_get_item [OF i1(1)])
  show ?thesis
  proof (cases "obj it")
    case None
    then show ?thesis using en it g assms(2) by (intro conjI exI [of _ "it\<lparr>enable := True\<rparr>"]) (simp_all add: set_impl_def old_obj_def)
  next
    case (Some v)
    then show ?thesis using en it g assms(2)
      by (intro conjI exI [of _ "it\<lparr>obj := None\<rparr>"]) (simp_all add: set_impl_def destroy_def old_obj_def)
  qed
qed

lemma sa_set_result:
  assumes "sa_inv a"
  shows "case sa_set index ctor a of
        Ret _ a' \<Rightarrow> sa_inv a' \<and> (\<exists>v. ctor = Inr v \<and> (\<lambda>j. sa_get j a') = (\<lambda>j. sa_get j a)(index \<mapsto> v)) \<and>
          sa_destroyed a' = sa_destroyed a @ old_obj (sa_get index a)
      | Exn e a' \<Rightarrow> sa_inv a' \<and> ctor = Inl e \<and> (\<lambda>j. sa_get j a') = (\<lambda>j. sa_get j a)(index := None) \<and>
          sa_destroyed a' = sa_destroyed a @ old_obj (sa_get index a)
      | Fault f \<Rightarrow> f = Out_of_bounds \<and> \<not> index < sa_capacity a \<and> False \<in> set (sa_allocs a)"
proof (cases "extend_to index a")
  case (Ret u a1)
  have e: "sa_inv a1" "\<forall>j. sa_get j a1 = sa_get j a" "sa_destroyed a1 = sa_destroyed a"
    using extend_to_result [OF assms, of index] Ret by simp_all
  let ?a = "a1\<lparr>sa_destroyed := sa_destroyed a1 @ old_obj (sa_get index a1)\<rparr>"
  from set_impl_result [OF assms Ret] obtain it where
    it: "item_of index a1 \<noteq> None" "set_impl index a = Ret () (put_item index it ?a)" "obj it = None" by blast
  have put: "sa_inv (put_item index x ?a)" "(\<lambda>j. sa_get j (put_item index x ?a)) = (\<lambda>j. sa_get j a)(index := obj x)"
    if "enable x \<longleftrightarrow> obj x \<noteq> None" for x
    using put_item_inv [of ?a index x] sa_get_put [of ?a index x] that it(1) e by simp_all
  show ?thesis
  proof (cases ctor)
    case (Inr v)
    then show ?thesis using it e put [of "\<lparr>enable = True, obj = Some v\<rparr>"] by (simp add: sa_set_def)
  next
    case (Inl x)
    have "revert index (put_item index it ?a) = Ret () (put_item index (it\<lparr>enable := False\<rparr>) ?a)"
      using item_of_put [of index ?a index it] it(1) by (simp add: revert_def)
    then show ?thesis using Inl it e put [of "it\<lparr>enable := False\<rparr>"] by (simp add: sa_set_def)
  qed
next
  case (Exn x a1)
  have e: "\<not> index < sa_capacity a1" "sa_inv a1" "False \<in> set (sa_allocs a)"
    using extend_to_result [OF assms, of index] Exn by simp_all
  have "item_of index a1 = None" using e item_of_inv [OF e(2), of index] by simp
  moreover have "\<not> index < sa_capacity a"
    using Exn by (auto simp: extend_to.simps [of index a] sa_capacity_def EXTEND_ARRAY_SIZE_def not_le simp flip: index_bound split: if_splits)
  ultimately show ?thesis using Exn e(3) by (simp add: sa_set_def set_impl_def revert_def)
qed (use extend_to_result [OF assms, of index] in simp)

lemma sa_reset_result:
  assumes "sa_inv a" "sa_test index a"
  shows "\<exists>a'. sa_reset index a = Ret () a' \<and> sa_inv a' \<and> (\<lambda>j. sa_get j a') = (\<lambda>j. sa_get j a)(index := None) \<and>
        sa_destroyed a' = sa_destroyed a @ [the (sa_get index a)]"
proof -
  obtain it v where it: "item_of index a = Some it" "obj it = Some v"
    using assms item_enable [OF assms(1), of index] by (auto simp: sa_test_def split: option.splits)
  let ?a = "a\<lparr>sa_destroyed := sa_destroyed a @ [v]\<rparr>" and ?n = "\<lparr>enable = False, obj = None\<rparr>"
  have "sa_reset index a = Ret () (put_item index ?n ?a)" using it by (simp add: sa_reset_def destroy_def)
  then show ?thesis using put_item_inv [of ?a index ?n] sa_get_put [of ?a index ?n] it assms(1) by (simp add: sa_get_item)
qed

text \<open>
  C36. A sparse array refines a partial map from indices to objects: \<open>get\<close>, \<open>test\<close> and \<open>data\<close>
  read it, the destructor destroys the objects in it, \<open>set\<close> updates it at its index and \<open>reset\<close> clears it there, destroying exactly the object that was there before, also
  when the constructor of the new object throws; all other indices are left alone. Only when there is
  no memory for a new chunk the error path of \<open>set\<close> goes wrong: it clears the flag of an item that
  does not exist.
\<close>
theorem sparse_array_refines_map:
  assumes "sa_inv a"
  shows "(sa_test index a \<longleftrightarrow> sa_get index a \<noteq> None) \<and> (sa_get index a = Some v \<longleftrightarrow> sa_data index a = Ret v a) \<and>
     (v \<in> set (sa_delete a) \<longleftrightarrow> (\<exists>j. sa_get j a = Some v)) \<and>
     (case sa_set index ctor a of
        Ret _ a' \<Rightarrow> sa_inv a' \<and> (\<exists>v. ctor = Inr v \<and> (\<lambda>j. sa_get j a') = (\<lambda>j. sa_get j a)(index \<mapsto> v)) \<and>
          sa_destroyed a' = sa_destroyed a @ old_obj (sa_get index a)
      | Exn e a' \<Rightarrow> sa_inv a' \<and> ctor = Inl e \<and> (\<lambda>j. sa_get j a') = (\<lambda>j. sa_get j a)(index := None) \<and>
          sa_destroyed a' = sa_destroyed a @ old_obj (sa_get index a)
      | Fault f \<Rightarrow> f = Out_of_bounds \<and> \<not> index < sa_capacity a \<and> False \<in> set (sa_allocs a)) \<and>
     (sa_test index a \<longrightarrow> (\<exists>a'. sa_reset index a = Ret () a' \<and> sa_inv a' \<and> (\<lambda>j. sa_get j a') = (\<lambda>j. sa_get j a)(index := None) \<and>
        sa_destroyed a' = sa_destroyed a @ [the (sa_get index a)]))"
  using sa_test_get [OF assms] sa_data_get [OF assms] sa_delete_objects [OF assms] sa_set_result [OF assms] sa_reset_result [OF assms]
  by blast

theorem sparse_array_refines_map_witness:
  "let a = \<lparr>base_array = [replicate 64 \<lparr>enable = False, obj = None\<rparr>], sa_allocs = [False], sa_destroyed = []\<rparr> :: nat sparse_array in
   sa_inv a \<and> \<not> sa_test 3 a \<and> sa_get 3 a = None \<and> sa_set 70 (Inr 5) a = Fault Out_of_bounds"
proof -
  let ?a = "\<lparr>base_array = [replicate 64 \<lparr>enable = False, obj = None\<rparr>], sa_allocs = [False], sa_destroyed = []\<rparr> :: nat sparse_array"
  have inv: "sa_inv ?a" by (simp add: sa_inv_def)
  have "sa_get 3 ?a = None" by code_simp
  moreover have "case sa_set 70 (Inr 5) ?a of Fault f \<Rightarrow> True | _ \<Rightarrow> False" by code_simp
  ultimately show ?thesis using inv sparse_array_refines_map [OF inv, of 3 _ "Inr 5"] sparse_array_refines_map [OF inv, of 70 _ "Inr 5"]
    by (auto simp: Let_def split: outcome.splits)
qed

end
