(* ===== verification/Spec2Isabelle.thy ===== *)
theory Spec2Isabelle
  imports Stream_Buffer Shared_Buffer Finalizers Kernel_Epoll_Timer Kernel_Kqueue Handler_Life Loop_Drain Loop_Lifecycle Services Sync Tls_Set
    Endian Sparse_Array
begin

text \<open>
  A verification of mpio, a C++ library for event-driven network programs.

  \<^bold>\<open>The program.\<close> A program creates a \<open>loop\<close> (\<open>src/mpsrc/wavy_loop.cc\<close>) and starts worker threads. The
  loop polls a \<^emph>\<open>kernel\<close>, a wrapper of epoll or kqueue (\<open>src/mpsrc/wavy_kernel_epoll.h\<close>,
  \<open>wavy_kernel_kqueue.h\<close>), runs the handler of each descriptor that is ready, and runs tasks that
  clients submit. Output goes through the class \<open>out\<close> (\<open>wavy_out.cc\<close>), which has a transfer list
  (\<open>xfer\<close>) for each descriptor and a kernel of its own that the loop's kernel watches. On top of the
  loop there are connecting (\<open>wavy_connect.cc\<close>), listening (\<open>wavy_listen.cc\<close>), timers and signals
  (\<open>wavy_timer.h\<close>, \<open>wavy_signal.h\<close>). The headers in \<open>src/mp\<close> are a toolbox: reference-counted buffers,
  wrappers of POSIX threads and signals, byte order.

  \<^bold>\<open>Theories and source files.\<close>

  \<^item> \<open>Prelude\<close>: machine types, error values, the \<open>outcome\<close> of a statement (it returns, throws, or has no
    defined behaviour), bytes of memory, and the size-doubling loop the growing buffers share.
  \<^item> \<open>Counted_Heap\<close>: the C allocator and reference counters in block headers; the locale \<open>refcount\<close> is
    what the buffers rely on. \<open>Stream_Buffer\<close> (\<open>src/mp/stream_buffer.h\<close>) and \<open>Shared_Buffer\<close>
    (\<open>src/mp/shared_buffer.h\<close>) interpret it with their own counting functions.
  \<^item> \<open>Xfer\<close>: the byte encoding of transfer lists and the interpreter \<open>execute\<close>; \<open>Xfer_Class\<close>: the class
    \<open>xfer\<close> with the locale \<open>transfer_store\<close>.
  \<^item> \<open>Posix\<close>: descriptors, epoll interest lists, timers and \<open>errno\<close>; a script decides which calls fail.
  \<^item> \<open>Kernel\<close>: the locale \<open>event_kernel\<close>, one-shot events with one owner each. \<open>Kernel_Epoll\<close>,
    \<open>Kernel_Epoll_Timer\<close> and \<open>Kernel_Kqueue\<close>: the two kernels, with interpretations for reading and writing.
  \<^item> \<open>Out\<close>: the class \<open>out\<close>; \<open>Out_Runs\<close>: its runs, arbitrary interleavings of submissions, polls and writes;
    \<open>Out_Closed\<close>: what closing a descriptor with pending output does to it;
    \<open>Finalizers\<close>: the templates of \<open>src/mp/wavy.hmpl\<close> that hand objects owned by smart pointers to finalizers.
  \<^item> \<open>Loop\<close>: the pieces of \<open>thread_main\<close> and \<open>run_once\<close> between two points where the mutex is given up;
    \<open>Loop_Runs\<close>: the step relation that interleaves any number of threads, handlers and clients, and its
    invariant; \<open>Loop_Props\<close>: what it guarantees; \<open>Loop_Flush\<close>: \<open>run_once\<close>, \<open>run_nonblock\<close> and \<open>flush\<close> as one thread runs them;
    \<open>Loop_Lifecycle\<close>: the destructor; \<open>Loop_Output\<close>: the loop as a client of the output component, whose runs
    it simulates; \<open>Loop_Drain\<close>: \<open>flush\<close> with pending output; \<open>Loop_Table\<close>: the bounds of the
    table of handlers and of the contexts; \<open>Handler_Life\<close>: handlers as objects that own descriptors.
  \<^item> \<open>Pthread\<close>: mutexes, read-write locks and scoped locks of \<open>src/mp/pthread.h\<close>, with the locales \<open>lockable\<close>
    and \<open>exclusive_lockable\<close>; \<open>Threads\<close>: condition variables, threads, and the loop's workers; \<open>Sync\<close>:
    \<open>src/mp/sync.hmpl\<close>, whose references are scoped locks; \<open>Tls_Set\<close>: \<open>src/mp/tls_set.h\<close>, arrays of scoped locks
    and per-thread values.
  \<^item> \<open>Connect\<close>, \<open>Handlers\<close> and \<open>Signals\<close>: connecting; listening, timers and signals in the loop;
    \<open>src/mp/signal.h\<close>. \<open>Doubles\<close> and \<open>Seconds\<close>: binary floating-point numbers with exact rounding, and the
    overloads of \<open>add_timer\<close> and \<open>connect\<close> that take seconds. \<open>Services\<close>: all of these as clients of the
    loop. \<open>Endian\<close>: \<open>src/mp/endian.h\<close>.
  \<^item> \<open>Sparse_Array\<close>: the class of \<open>src/mp/sparse_array.hmpl\<close>, written once for all numbers of constructor
    arguments, which mplex unrolls.

  \<^bold>\<open>What is shown.\<close>

  \<^item> Buffers: a stream buffer is a byte queue and never changes bytes that clients still reference;
    reserving makes room or throws without loss; parts of a shared buffer that are held never overlap;
    counters equal the number of owners, so nothing leaks or dangles. A sparse array is a partial map.
  \<^item> Transfer lists: what the fill functions encode is read back; a write step refines the abstract list of
    items; pushing and migrating append or change nothing; finalizers are called exactly once.
  \<^item> Output: every descriptor with pending output is armed, queued or with one worker (no lost wakeup); the
    output of a descriptor is first in, first out, and nothing is written twice whatever fails. The loop
    uses the component only in this way, so the same holds of what clients submit to a loop. An object
    handed over with a write is deleted once, except where the code loses it.
  \<^item> Kernels: reported events belong to different armed descriptors and stay exclusive until they are
    reactivated, for epoll and kqueue alike; timers and signals are registered completely or not at all.
  \<^item> Loop: one holder of the mutex, one polling thread, one owner for every event, tasks started in order and
    once, no thread dies; after \<open>end\<close> all threads exit; on a loop without workers \<open>run_once\<close>
    and \<open>run_nonblock\<close> return, and \<open>flush\<close> runs the queued tasks, writes all pending output and returns;
    the destructor reaps the workers, calls the finalizers that are left and closes both kernels. The
    tables are never indexed out of bounds. A thread only runs a handler that lives and whose descriptor
    is open.
  \<^item> Threads, locks, signals: scoped locks and scoped signals restore what they found on every path,
    \<open>start\<close> and \<open>join\<close> create and reap exactly the workers asked for; locking a set of per-thread values
    as a whole takes every mutex once and locks all other threads out.
  \<^item> Connecting, listening, timers: one report for each attempt, with no descriptor leaked; seconds given as
    floating-point numbers become valid times within two nanoseconds. What the services do to a loop is a
    sequence of its steps, so the loop keeps its guarantees in programs that use them.
  \<^item> Where the code falls short of this, a theorem shows how: a request above 2 to the power 63 that never
    returns, a handler that closes its descriptor while output is pending and so poisons its number for
    ever, a finalizer that is dropped, a single worker that starves tasks and output, the
    wrong time limit of \<open>connect\<close>, and, as lemmas, a task taken without the mutex in \<open>run_nonblock\<close>, a descriptor
    removed and added again whose handler two threads run at once, a timer
    of zero seconds that never fires, per-thread values that outlive their thread, a poll error that
    wedges the loop, the shutdown after an empty write, the double close in \<open>listen\<close>, the \<open>join\<close> after
    \<open>detach\<close>, leaks of the pipe timer, its thread that closes foreign descriptors, and the signal that kqueue never removes.

  \<^bold>\<open>Bounds and fuel.\<close> Sizes are 64-bit words; theorems on growing buffers ask for requests up to 2 to the
  power 60, below which the doubling loop terminates, and the allocator refuses blocks above 2 to the
  power 57. The doubling loop itself is a partial function whose value is \<open>None\<close> when it runs for ever.
  Loops that end with their input (\<open>execute\<close>, the accept loop, the poll loop of \<open>connect\<close>, \<open>flush\<close>) recurse
  on that input, and a separate claim says when they return. Reference counters are 32-bit words; the
  theorems bound the number of references below 2 to the power 32. Runs of the loop assume that the
  calls of its kernels succeed (an empty script); what failing calls do is shown for each operation.
  Floating-point numbers are a mantissa of 53 bits and an exponent without bounds, rounded to nearest
  even; infinities, NaN and subnormals do not occur. The bounds of the tables are for processes whose
  open descriptors were below \<open>RLIMIT_NOFILE\<close> when the loop was created, and whose limit stays as it is.

  \<^bold>\<open>Concurrency.\<close> The code between two points where a thread takes or gives up the mutex of the loop is one
  step, as is a system call and a method of \<open>out\<close> under the mutex of its context; wakeups of condition
  variables may be spurious. Atomic counter operations are single steps. Handlers keep to the interface:
  after \<open>remove\<close> they do not use the event again, a descriptor is added only when none of its events
  is in flight, and it is not closed while output for it is pending. The environment opens and closes
  descriptors and decides how they answer writes, at any time between two steps.

  \<^bold>\<open>Not modelled.\<close> The methods of class \<open>loop\<close> that only forward to \<open>loop_impl\<close>; the index that a client
  passes to \<open>remove_handler\<close>, which is not checked; the cleanup that cancelling a thread runs in it; the
  template \<open>object_callback\<close>, which only binds members to function objects; \<open>update_all\<close> and \<open>get_all\<close> of \<open>tls_set.h\<close> and the header \<open>iocntl.h\<close>, which do not
  compile; the version of \<open>connect\<close> that \<open>#if 0\<close> disables; aliases of the C++ library; tests and build files.
\<close>

end
